(* ===== verification/Net_Prelude.thy ===== *)
theory Net_Prelude
  imports Main "HOL-Library.Word"
begin

text \<open>
  Shared vocabulary of the development: bytes and machine words, the C library's memory
  primitives with out-of-range access as a value of an error type, the result type of
  fallible code, and generic lemmas on lists, words and bytes that the component theories
  use through the simplifier and the collections declared here.
\<close>

unbundle bit_operations_syntax

named_theorems mem_simps \<open>unfolding of the memory primitives\<close>
named_theorems codec_simps \<open>decode-after-encode equations\<close>
named_theorems word_byte_simps \<open>bytes and shifts of machine words\<close>

section \<open>Types\<close>

type_synonym byte = "8 word"
type_synonym bytes = "8 word list"
type_synonym u16 = "16 word"
type_synonym u32 = "32 word"
type_synonym u64 = "64 word"

text \<open>
  What the C++ standard leaves undefined is an explicit outcome: an access outside an
  object, a dereference of a null or of a freed pointer, a use of a value that was never stored, an overflow of a signed integer.
  An assertion of the source that does not hold is one too.
\<close>

datatype mem_error = OutOfBounds | NullDeref | UseAfterFree | Uninitialised | AssertionFails | SignedOverflow

text \<open>Sequencing of fallible code: an error stops the computation.\<close>

fun bind_res :: "'e + 'a \<Rightarrow> ('a \<Rightarrow> 'e + 'b) \<Rightarrow> 'e + 'b" where
  "bind_res (Inl e) f = Inl e"
| "bind_res (Inr x) f = f x"

section \<open>Memory primitives of the C library\<close>

text \<open>
  \<open>memcpy\<close> copies \<open>n\<close> bytes from \<open>src\<close> at \<open>so\<close> to \<open>dst\<close> at \<open>d\<close>; \<open>mem_fill\<close> is
  \<open>memset\<close> on the first \<open>n\<close> bytes. Both are defined on the whole object they write,
  and fail when a byte outside an object would be read or written.
\<close>

definition memcpy :: "bytes \<Rightarrow> nat \<Rightarrow> bytes \<Rightarrow> nat \<Rightarrow> nat \<Rightarrow> mem_error + bytes" where
  "memcpy dst d src so n =
     (if so + n \<le> length src \<and> d + n \<le> length dst
      then Inr (take d dst @ take n (drop so src) @ drop (d + n) dst)
      else Inl OutOfBounds)"

definition mem_fill :: "bytes \<Rightarrow> byte \<Rightarrow> nat \<Rightarrow> mem_error + bytes" where
  "mem_fill dst c n =
     (if n \<le> length dst then Inr (replicate n c @ drop n dst) else Inl OutOfBounds)"

section \<open>Lemmas on results\<close>

lemma bind_res_eq_Inr [simp]:
  "bind_res r f = Inr y \<longleftrightarrow> (\<exists>x. r = Inr x \<and> f x = Inr y)"
  by (cases r) auto

lemma bind_res_eq_Inl:
  "bind_res r f = Inl e \<longleftrightarrow> r = Inl e \<or> (\<exists>x. r = Inr x \<and> f x = Inl e)"
  by (cases r) auto

lemma bind_res_cong:
  "m = m' \<Longrightarrow> (\<And>x. m' = Inr x \<Longrightarrow> f x = f' x) \<Longrightarrow> bind_res m f = bind_res m' f'"
  by (cases m) auto

section \<open>Lemmas on memory\<close>

lemma memcpy_Inr_iff [mem_simps]:
  "memcpy dst d src so n = Inr dst' \<longleftrightarrow>
     so + n \<le> length src \<and> d + n \<le> length dst \<and>
     dst' = take d dst @ take n (drop so src) @ drop (d + n) dst"
  by (auto simp: memcpy_def)

lemma memcpy_Inl_iff [mem_simps]:
  "memcpy dst d src so n = Inl e \<longleftrightarrow>
     e = OutOfBounds \<and> \<not> (so + n \<le> length src \<and> d + n \<le> length dst)"
  by (auto simp: memcpy_def)

lemma memcpy_length:
  "memcpy dst d src so n = Inr dst' \<Longrightarrow> length dst' = length dst"
  by (auto simp: mem_simps)

lemma memcpy_read:
  assumes "memcpy dst d src so n = Inr dst'"
  shows "take n (drop d dst') = take n (drop so src)"
  using assms by (auto simp: mem_simps)

lemma mem_fill_Inr_iff [mem_simps]:
  "mem_fill dst c n = Inr dst' \<longleftrightarrow> n \<le> length dst \<and> dst' = replicate n c @ drop n dst"
  by (auto simp: mem_fill_def)

section \<open>Lemmas on words\<close>

lemma unat_of_nat_u32: "n < 2 ^ 32 \<Longrightarrow> unat (of_nat n :: u32) = n"
  by (simp add: unat_of_nat)

lemma unat_of_nat_u64: "n < 2 ^ 64 \<Longrightarrow> unat (of_nat n :: u64) = n"
  by (simp add: unat_of_nat)

lemma unat_minus_one_u32 [simp]: "unat (- 1 :: u32) = 4294967295"
proof -
  have "(- 1 :: u32) = 4294967295" by simp
  then have "unat (- 1 :: u32) = unat (4294967295 :: u32)" by (rule arg_cong)
  also have "\<dots> = 4294967295" by simp
  finally show ?thesis .
qed

lemma unat_word_of_int_u32:
  assumes "0 \<le> i" "i < 2 ^ 32"
  shows "unat (word_of_int i :: u32) = nat i"
proof -
  have "(word_of_int i :: u32) = of_nat (nat i)" using assms(1) by simp
  moreover have "nat i < 2 ^ 32" using assms by simp
  ultimately show ?thesis by (simp only: unat_of_nat_u32)
qed

lemma unat_word_of_int_u64:
  assumes "0 \<le> i" "i < 2 ^ 64"
  shows "unat (word_of_int i :: u64) = nat i"
proof -
  have "(word_of_int i :: u64) = of_nat (nat i)" using assms(1) by simp
  moreover have "nat i < 2 ^ 64" using assms by simp
  ultimately show ?thesis by (simp only: unat_of_nat_u64)
qed

lemma sint_u32_small:
  assumes "unat (x :: u32) < 2 ^ 31"
  shows "sint x = int (unat x)"
proof -
  have "int (unat x) < int (2 ^ 31)" using assms by (simp only: of_nat_less_iff)
  then have u: "uint x < 2147483648" by simp
  have "signed_take_bit 31 (uint x) = uint x"
    by (rule signed_take_bit_int_eq_self) (use u uint_ge_0 [of x] in \<open>linarith | simp\<close>)+
  then show ?thesis by (simp add: sint_uint)
qed

section \<open>Words in memory\<close>

text \<open>The object representation of a word on a host of either byte order.\<close>

definition host_bytes :: "bool \<Rightarrow> nat \<Rightarrow> 'a::len word \<Rightarrow> bytes" where
  "host_bytes little n v =
     (let bs = map (\<lambda>i. ucast (drop_bit (8 * i) v)) [0..<n] in if little then bs else rev bs)"

definition host_word :: "bool \<Rightarrow> bytes \<Rightarrow> 'a::len word" where
  "host_word little bs = foldr (\<lambda>b v. ucast b OR push_bit 8 v) (if little then bs else rev bs) 0"

lemma host_bytes_length [simp]: "length (host_bytes little n v) = n"
  by (simp add: host_bytes_def Let_def)

lemma bit_foldr_bytes:
  "bit (foldr (\<lambda>b v. ucast b OR push_bit 8 v) bs 0 :: 'a::len word) k \<longleftrightarrow>
     k < LENGTH('a) \<and> k div 8 < length bs \<and> bit (bs ! (k div 8) :: byte) (k mod 8)"
proof (induction bs arbitrary: k)
  case (Cons b bs)
  show ?case
  proof (cases "k < 8")
    case True
    then show ?thesis by (auto simp: bit_simps)
  next
    case False
    then have k: "k div 8 = Suc ((k - 8) div 8)" "k mod 8 = (k - 8) mod 8"
      by (simp_all add: le_div_geq le_mod_geq)
    have "\<not> bit b k" using False by (simp add: bit_word.rep_eq bit_take_bit_iff)
    then have "bit (foldr (\<lambda>b v. ucast b OR push_bit 8 v) (b # bs) 0 :: 'a word) k \<longleftrightarrow>
        k < LENGTH('a) \<and> bit (foldr (\<lambda>b v. ucast b OR push_bit 8 v) bs 0 :: 'a word) (k - 8)"
      using False by (simp add: bit_simps)
    then show ?thesis unfolding Cons.IH k by auto
  qed
qed simp


lemma host_word_bytes:
  assumes "8 * n = LENGTH('a)"
  shows "host_word little (host_bytes little n v) = (v :: 'a::len word)"
proof -
  have "(if little then host_bytes little n v else rev (host_bytes little n v)) = host_bytes True n v"
    by (simp add: host_bytes_def Let_def)
  moreover have "foldr (\<lambda>b v. ucast b OR push_bit 8 v) (host_bytes True n v) 0 = v"
  proof (rule bit_word_eqI)
    fix k assume k: "k < LENGTH('a)"
    then have "k div 8 < n" using assms by simp
    moreover have "k mod 8 < 8" "8 * (k div 8) + k mod 8 = k" by simp_all
    ultimately show "bit (foldr (\<lambda>b v. ucast b OR push_bit 8 v) (host_bytes True n v) 0 :: 'a word) k = bit v k"
      using k by (simp add: bit_foldr_bytes host_bytes_def bit_simps)
  qed
  ultimately show ?thesis by (simp add: host_word_def)
qed

lemma bit_host_word:
  "bit (host_word True bs :: 'a::len word) k \<longleftrightarrow>
     k < LENGTH('a) \<and> k div 8 < length bs \<and> bit (bs ! (k div 8)) (k mod 8)"
  by (simp add: host_word_def bit_foldr_bytes)

section \<open>Transition systems with an invariant\<close>

text \<open>
  The contract of a component that is a step relation: its start states satisfy an invariant and
  every step keeps it. What a client gets is the invariant at every reachable state.
\<close>

locale inv_system =
  fixes step :: "'s \<Rightarrow> 's \<Rightarrow> bool" and start :: "'s \<Rightarrow> bool" and inv :: "'s \<Rightarrow> bool"
  assumes start_inv: "start s \<Longrightarrow> inv s"
    and step_inv: "step s t \<Longrightarrow> inv s \<Longrightarrow> inv t"
begin

lemma steps_inv: "step\<^sup>*\<^sup>* s t \<Longrightarrow> inv s \<Longrightarrow> inv t"
  by (induction rule: rtranclp_induct) (auto intro: step_inv)

lemma reach_inv: "start s \<Longrightarrow> step\<^sup>*\<^sup>* s t \<Longrightarrow> inv t"
  by (blast intro: start_inv steps_inv)

end

end
