(* ===== verification/Net_Buffer.thy ===== *)
theory Net_Buffer
  imports Net_Prelude
begin

text \<open>
  The byte buffer of \<^verbatim>\<open>src/base/buffer.cpp\<close> and \<^verbatim>\<open>src/base/buffer.h\<close>: a block of
  \<open>BUFFER_SIZE\<close> bytes obtained from \<open>malloc\<close> and the length of what it holds. The
  operations copy between this block and memory of the caller, so each of them says when a
  copy leaves one of the two objects.
\<close>

section \<open>Model\<close>

definition BUFFER_SIZE :: nat where
  "BUFFER_SIZE = 1024 * 10"

record buffer =
  m_buf :: bytes
  m_length :: u32

text \<open>
  The constructor takes the block \<open>malloc\<close> returned, with whatever it contains, and
  stores the character 1 and the length 1.
\<close>

definition Buffer_new :: "bytes \<Rightarrow> mem_error + buffer" where
  "Buffer_new mem =
     bind_res (memcpy mem 0 [0x31] 0 1) (\<lambda>b. Inr \<lparr>m_buf = b, m_length = 1\<rparr>)"

definition get_size :: "buffer \<Rightarrow> int" where
  "get_size b = sint (m_length b)"

text \<open>\<open>get_buf\<close> returns the caller's memory after the copy and the number of bytes.\<close>

definition get_buf :: "buffer \<Rightarrow> bytes \<Rightarrow> mem_error + (bytes \<times> u32)" where
  "get_buf b out =
     (if m_length b \<noteq> 0
      then bind_res (memcpy out 0 (m_buf b) 0 (unat (m_length b)))
             (\<lambda>out'. Inr (out', m_length b))
      else Inr (out, 0))"

text \<open>
  \<open>put_buf\<close> takes a possibly null source; \<open>ERR_EXIT\<close> only prints, so the error branch
  returns \<open>(uint32_t) -1\<close> and leaves the buffer alone.
\<close>

definition put_buf :: "buffer \<Rightarrow> bytes option \<Rightarrow> u32 \<Rightarrow> mem_error + (buffer \<times> u32)" where
  "put_buf b buf_in n =
     (case buf_in of
        None \<Rightarrow> Inr (b, - 1)
      | Some src \<Rightarrow>
          if n = 0 then Inr (b, - 1)
          else bind_res (memcpy (m_buf b) 0 src 0 (unat n))
                 (\<lambda>m. Inr (b\<lparr>m_buf := m, m_length := n\<rparr>, 0)))"

definition clean :: "buffer \<Rightarrow> mem_error + buffer" where
  "clean b =
     bind_res (mem_fill (m_buf b) 0 BUFFER_SIZE) (\<lambda>m. Inr (b\<lparr>m_buf := m, m_length := 0\<rparr>))"

definition is_full :: "buffer \<Rightarrow> bool" where
  "is_full b \<longleftrightarrow> unat (m_length b) = BUFFER_SIZE"

definition is_empty :: "buffer \<Rightarrow> bool" where
  "is_empty b \<longleftrightarrow> m_length b = 0"

text \<open>The class invariant: the block has its full size and the length stays inside it.\<close>

definition buffer_ok :: "buffer \<Rightarrow> bool" where
  "buffer_ok b \<longleftrightarrow> length (m_buf b) = BUFFER_SIZE \<and> unat (m_length b) \<le> BUFFER_SIZE"

text \<open>What the buffer holds.\<close>

definition contents :: "buffer \<Rightarrow> bytes" where
  "contents b = take (unat (m_length b)) (m_buf b)"

section \<open>Lemmas\<close>

lemma BUFFER_SIZE_eq [simp]: "BUFFER_SIZE = 10240"
  by (simp add: BUFFER_SIZE_def)

lemma Buffer_new_ok:
  assumes "length mem = BUFFER_SIZE"
  shows "\<exists>b. Buffer_new mem = Inr b \<and> buffer_ok b \<and> contents b = [0x31]"
  using assms by (auto simp: Buffer_new_def memcpy_def buffer_ok_def contents_def)

lemma put_buf_ok:
  "buffer_ok b \<Longrightarrow> put_buf b src n = Inr (b', r) \<Longrightarrow> buffer_ok b'"
  by (auto simp: put_buf_def buffer_ok_def mem_simps split: option.splits if_splits)

lemma clean_ok: "buffer_ok b \<Longrightarrow> \<exists>b'. clean b = Inr b' \<and> buffer_ok b' \<and> contents b' = []"
  by (auto simp: clean_def buffer_ok_def contents_def mem_fill_def)

lemma contents_length: "buffer_ok b \<Longrightarrow> length (contents b) = unat (m_length b)"
  by (simp add: contents_def buffer_ok_def)

lemma put_buf_contents:
  assumes "buffer_ok b" "put_buf b (Some src) n = Inr (b', r)" "n \<noteq> 0"
  shows "contents b' = take (unat n) src \<and> r = 0"
  using assms by (auto simp: put_buf_def contents_def buffer_ok_def mem_simps)

lemma get_buf_contents:
  assumes "buffer_ok b" "get_buf b out = Inr (out', n)"
  shows "n = m_length b \<and> take (unat n) out' = contents b \<and> length out' = length out"
  using assms by (auto simp: get_buf_def contents_def buffer_ok_def mem_simps split: if_splits)

text \<open>
  C40. Storing a message that fits the block and copying it out again into memory that has
  room for it succeeds at both steps, returns the message's length and its bytes, and
  leaves the rest of the caller's memory as it was.
\<close>

theorem put_get_roundtrip:
  assumes "buffer_ok b" and "msg \<noteq> []" and "length msg \<le> BUFFER_SIZE"
    and "length msg \<le> length out"
  shows "\<exists>b'. put_buf b (Some msg) (of_nat (length msg)) = Inr (b', 0) \<and> buffer_ok b' \<and>
     get_buf b' out = Inr (msg @ drop (length msg) out, of_nat (length msg))"
proof -
  let ?n = "of_nat (length msg) :: u32"
  have n: "unat ?n = length msg"
    using assms(3) by (simp add: unat_of_nat)
  with assms(2) have n0: "?n \<noteq> 0"
    by (metis length_0_conv unat_0)
  let ?b' = "b\<lparr>m_buf := msg @ drop (length msg) (m_buf b), m_length := ?n\<rparr>"
  have put: "put_buf b (Some msg) ?n = Inr (?b', 0)"
    using assms n n0 by (simp add: put_buf_def memcpy_def buffer_ok_def)
  have get: "get_buf ?b' out = Inr (msg @ drop (length msg) out, ?n)"
    using assms n n0 by (simp add: get_buf_def memcpy_def buffer_ok_def)
  from put_buf_ok [OF assms(1) put] put get show ?thesis by blast
qed

theorem put_get_roundtrip_witness:
  "\<exists>b'. put_buf \<lparr>m_buf = replicate 10240 0, m_length = 0\<rparr> (Some [1, 2]) 2 = Inr (b', 0) \<and>
     buffer_ok b' \<and> get_buf b' [7, 8, 9] = Inr ([1, 2, 9], 2)"
  using put_get_roundtrip
    [of "\<lparr>m_buf = replicate 10240 0, m_length = 0\<rparr>" "[1, 2]" "[7, 8, 9]"]
  by (simp add: buffer_ok_def)

end
