(* ===== verification/Net_Sys.thy ===== *)
theory Net_Sys
  imports Net_Prelude
begin

text \<open>
  The operating system as the program sees it. System calls are code outside the
  repository, so they are fields of a \<open>kernel\<close> record that every definition using them
  takes as an argument; the type \<open>'w\<close> of the kernel's own state is left open. What the
  program relies on is stated as predicates over a kernel, and \<open>script_kernel\<close> is a concrete
  kernel that satisfies them.
\<close>

datatype rd_reply = RdData bytes | RdErr int
datatype wr_reply = WrOk nat | WrErr int
datatype ctl_op = CtlAdd | CtlDel

text \<open>
  A call returns its result, for \<open>select\<close>, \<open>accept\<close>, \<open>connect\<close> and \<open>getsockopt\<close> together
  with the value of \<open>errno\<close> afterwards, and the kernel's next state. \<open>RdData []\<close> is the
  return value 0, the end of the stream.
\<close>

record 'w kernel =
  k_read :: "'w \<Rightarrow> int \<Rightarrow> nat \<Rightarrow> rd_reply \<times> 'w"
  k_write :: "'w \<Rightarrow> int \<Rightarrow> bytes \<Rightarrow> wr_reply \<times> 'w"
  k_peek :: "'w \<Rightarrow> int \<Rightarrow> nat \<Rightarrow> rd_reply \<times> 'w"
  k_select :: "'w \<Rightarrow> int \<Rightarrow> bool \<Rightarrow> u32 \<Rightarrow> int \<times> int \<times> 'w"
  k_accept :: "'w \<Rightarrow> int \<Rightarrow> int \<times> int \<times> 'w"
  k_connect :: "'w \<Rightarrow> int \<Rightarrow> int \<times> int \<times> 'w"
  k_getsockopt :: "'w \<Rightarrow> int \<Rightarrow> int \<times> int \<times> 'w"
  k_getfl :: "'w \<Rightarrow> int \<Rightarrow> u32"
  k_setfl :: "'w \<Rightarrow> int \<Rightarrow> u32 \<Rightarrow> 'w"
  k_epoll_ctl :: "'w \<Rightarrow> ctl_op \<Rightarrow> int \<Rightarrow> int \<times> 'w"
  k_close :: "'w \<Rightarrow> int \<Rightarrow> 'w"

text \<open>Error numbers and flags of Linux.\<close>

definition EINTR :: int where "EINTR = 4"
definition EAGAIN :: int where "EAGAIN = 11"
definition EWOULDBLOCK :: int where "EWOULDBLOCK = 11"
definition EEXIST :: int where "EEXIST = 17"
definition ETIMEDOUT :: int where "ETIMEDOUT = 110"
definition EINPROGRESS :: int where "EINPROGRESS = 115"
definition O_NONBLOCK :: u32 where "O_NONBLOCK = 2048"

lemmas errno_defs = EINTR_def EAGAIN_def EWOULDBLOCK_def EEXIST_def ETIMEDOUT_def
  EINPROGRESS_def

section \<open>What the program relies on\<close>

text \<open>
  A descriptor that delivers a byte stream: \<open>avail\<close> is what is still to come. A successful
  read returns a prefix of it, no longer than asked, and nothing only at the end; a failed
  read is an interruption, which loses nothing, and there are finitely many of them
  (\<open>pending\<close> bounds how many).
\<close>

definition delivers :: "'w kernel \<Rightarrow> int \<Rightarrow> ('w \<Rightarrow> bytes) \<Rightarrow> ('w \<Rightarrow> nat) \<Rightarrow> bool" where
  "delivers K fd avail pending \<longleftrightarrow>
     (\<forall>w n. case k_read K w fd n of
        (RdData bs, w') \<Rightarrow> length bs \<le> n \<and> avail w = bs @ avail w' \<and>
          pending w' \<le> pending w \<and> (bs = [] \<longrightarrow> n = 0 \<or> avail w = [])
      | (RdErr e, w') \<Rightarrow> e = EINTR \<and> avail w' = avail w \<and> pending w' < pending w)"

text \<open>
  A descriptor that takes a byte stream: \<open>got\<close> is what it has taken. A successful write
  takes a prefix of the bytes offered; nothing is taken only finitely often.
\<close>

definition takes :: "'w kernel \<Rightarrow> int \<Rightarrow> ('w \<Rightarrow> bytes) \<Rightarrow> ('w \<Rightarrow> nat) \<Rightarrow> bool" where
  "takes K fd got pending \<longleftrightarrow>
     (\<forall>w bs. case k_write K w fd bs of
        (WrOk n, w') \<Rightarrow> n \<le> length bs \<and> got w' = got w @ take n bs \<and>
          (if n = 0 then bs \<noteq> [] \<longrightarrow> pending w' < pending w else pending w' \<le> pending w)
      | (WrErr e, w') \<Rightarrow> e = EINTR \<and> got w' = got w \<and> pending w' < pending w)"

section \<open>A concrete kernel\<close>

text \<open>
  The scripted kernel's state holds the bytes to deliver, the bytes taken, the sizes of the
  coming transfers (0 stands for an interruption) and the file flags; without a script it
  transfers everything at once.
\<close>

record script =
  s_in :: bytes
  s_out :: bytes
  s_sizes :: "nat list"
  s_flags :: u32

definition script_read :: "script \<Rightarrow> int \<Rightarrow> nat \<Rightarrow> rd_reply \<times> script" where
  "script_read s fd n =
     (case s_sizes s of
        [] \<Rightarrow> (RdData (take n (s_in s)), s\<lparr>s_in := drop n (s_in s)\<rparr>)
      | k # ks \<Rightarrow>
          if k = 0 then (RdErr EINTR, s\<lparr>s_sizes := ks\<rparr>)
          else (RdData (take (min k n) (s_in s)),
                s\<lparr>s_in := drop (min k n) (s_in s), s_sizes := ks\<rparr>))"

definition script_write :: "script \<Rightarrow> int \<Rightarrow> bytes \<Rightarrow> wr_reply \<times> script" where
  "script_write s fd bs =
     (case s_sizes s of
        [] \<Rightarrow> (WrOk (length bs), s\<lparr>s_out := s_out s @ bs\<rparr>)
      | k # ks \<Rightarrow>
          if k = 0 then (WrErr EINTR, s\<lparr>s_sizes := ks\<rparr>)
          else (WrOk (min k (length bs)),
                s\<lparr>s_out := s_out s @ take k bs, s_sizes := ks\<rparr>))"

definition script_kernel :: "script kernel" where
  "script_kernel =
     \<lparr>k_read = script_read, k_write = script_write,
      k_peek = (\<lambda>s fd n. (RdData (take n (s_in s)), s)),
      k_select = (\<lambda>s fd wr t. (1, 0, s)),
      k_accept = (\<lambda>s fd. (7, 0, s)),
      k_connect = (\<lambda>s fd. (-1, EINPROGRESS, s)),
      k_getsockopt = (\<lambda>s fd. (0, 0, s)),
      k_getfl = (\<lambda>s fd. s_flags s),
      k_setfl = (\<lambda>s fd f. s\<lparr>s_flags := f\<rparr>),
      k_epoll_ctl = (\<lambda>s op fd. (0, s)),
      k_close = (\<lambda>s fd. s)\<rparr>"

lemma script_delivers: "delivers script_kernel fd s_in (\<lambda>s. length (s_sizes s))"
  by (auto simp: delivers_def script_kernel_def script_read_def min_def split: list.splits)

lemma script_takes: "takes script_kernel fd s_out (\<lambda>s. length (s_sizes s))"
  by (auto simp: takes_def script_kernel_def script_write_def min_def split: list.splits)

end
