(* ===== verification/Net_Tcp_Socket.thy ===== *)
theory Net_Tcp_Socket
  imports Net_Buffer Net_Sys
begin

text \<open>
  The connection object of \<^verbatim>\<open>src/net/tcp_socket.cpp\<close> and \<^verbatim>\<open>src/net/tcp_socket.h\<close>: a
  descriptor, a send and a receive buffer, the number of bytes to send, the count of send
  requests handed out, and the operation a pool thread is to perform. Output to the console
  has no effect on the state and is left out, except where printing a buffer reads past its
  end. \<open>READ_OP\<close> is False and \<open>WRITE_OP\<close> is True. Each operation is one atomic step, as its
  mutex makes it for the buffers.
\<close>

section \<open>Model\<close>

record tcp_socket =
  m_socket :: int
  m_task_id :: int
  m_send_pos :: int
  m_reference_count :: int
  m_flag :: bool
  m_send_buf :: buffer
  m_recv_buf :: buffer

definition READ_OP :: bool where "READ_OP = False"
definition WRITE_OP :: bool where "WRITE_OP = True"

text \<open>The constructor allocates the two buffers from the blocks \<open>mem1\<close> and \<open>mem2\<close>.\<close>

definition TcpSocket_new :: "bytes \<Rightarrow> bytes \<Rightarrow> mem_error + tcp_socket" where
  "TcpSocket_new mem1 mem2 =
     bind_res (Buffer_new mem1) (\<lambda>b1. bind_res (Buffer_new mem2) (\<lambda>b2.
       Inr \<lparr>m_socket = 0, m_task_id = -1, m_send_pos = 6, m_reference_count = 1,
            m_flag = READ_OP, m_send_buf = b1, m_recv_buf = b2\<rparr>))"

definition get_task_id :: "tcp_socket \<Rightarrow> int" where
  "get_task_id s = m_task_id s"

definition set_task_id :: "int \<Rightarrow> tcp_socket \<Rightarrow> tcp_socket" where
  "set_task_id i s = s\<lparr>m_task_id := i\<rparr>"

definition get_wr_flag :: "tcp_socket \<Rightarrow> bool" where
  "get_wr_flag s = m_flag s"

definition set_wr_flag :: "bool \<Rightarrow> tcp_socket \<Rightarrow> tcp_socket" where
  "set_wr_flag b s = s\<lparr>m_flag := b\<rparr>"

definition set_fd :: "int \<Rightarrow> tcp_socket \<Rightarrow> tcp_socket" where
  "set_fd conn_fd s = s\<lparr>m_socket := conn_fd\<rparr>"

text \<open>Taking the address of the send length counts as one more send request.\<close>

definition get_send_buf_len_addr :: "tcp_socket \<Rightarrow> tcp_socket" where
  "get_send_buf_len_addr s = s\<lparr>m_reference_count := m_reference_count s + 1\<rparr>"

definition get_msg :: "tcp_socket \<Rightarrow> bytes \<Rightarrow> mem_error + (bytes \<times> u32)" where
  "get_msg s buf_out = get_buf (m_recv_buf s) buf_out"

definition put_msg :: "tcp_socket \<Rightarrow> bytes option \<Rightarrow> int \<Rightarrow> mem_error + (tcp_socket \<times> bool)" where
  "put_msg s buf_in len =
     bind_res (put_buf (m_send_buf s) buf_in (word_of_int len))
       (\<lambda>(b, r). Inr (s\<lparr>m_send_buf := b\<rparr>, r = 0))"

definition reset :: "tcp_socket \<Rightarrow> mem_error + (tcp_socket \<times> bool)" where
  "reset s =
     bind_res (clean (m_send_buf s)) (\<lambda>b1. bind_res (clean (m_recv_buf s)) (\<lambda>b2.
       Inr (s\<lparr>m_socket := 0, m_send_buf := b1, m_recv_buf := b2\<rparr>, True)))"

text \<open>
  \<open>send_buf\<close>. The loop writes until a write fails or returns 0 and reports how much is left,
  the last return value and \<open>errno\<close>; handing the kernel bytes outside the local array is an
  error, and so is printing an array without a terminating zero.
\<close>

partial_function (option) send_loop ::
  "'w kernel \<Rightarrow> int \<Rightarrow> bytes \<Rightarrow> int \<Rightarrow> int \<Rightarrow> 'w \<Rightarrow> (mem_error + (int \<times> int \<times> int \<times> 'w)) option" where
  "send_loop K fd buf send_pos left w =
     (if left < 0 \<or> int (length buf) < send_pos + left then Some (Inl OutOfBounds)
      else (case k_write K w fd (take (nat left) (drop (nat send_pos) buf)) of
              (WrErr e, w') \<Rightarrow> Some (Inr (left, -1, e, w'))
            | (WrOk n, w') \<Rightarrow>
                if n = 0 then Some (Inr (left, 0, 0, w'))
                else send_loop K fd buf (send_pos + int n) (left - int n) w'))"

definition send_begin :: "tcp_socket \<Rightarrow> tcp_socket" where
  "send_begin s =
     (if 0 < m_reference_count s
      then s\<lparr>m_send_pos := m_send_pos s + get_size (m_send_buf s),
             m_reference_count := m_reference_count s - 1\<rparr>
      else s)"

definition send_buf ::
  "'w kernel \<Rightarrow> tcp_socket \<Rightarrow> 'w \<Rightarrow> (mem_error + (tcp_socket \<times> int \<times> 'w)) option" where
  "send_buf K s w =
     (let s1 = send_begin s; left = m_send_pos s1 in
      case get_buf (m_send_buf s1) (replicate BUFFER_SIZE 0) of
        Inl e \<Rightarrow> Some (Inl e)
      | Inr (buf, ret) \<Rightarrow>
          if ret = 0 then Some (Inr (s1, 0, w))
          else if left = 0 then Some (Inr (s1, 0, w))
          else if 0 \<notin> set buf then Some (Inl OutOfBounds)
          else (case send_loop K (m_socket s1) buf 0 left w of
                  None \<Rightarrow> None
                | Some (Inl e) \<Rightarrow> Some (Inl e)
                | Some (Inr (left', ret', err, w')) \<Rightarrow>
                    if left' = 0 then Some (Inr (s1, 0, w'))
                    else if ret' < 0 \<and> (err = EAGAIN \<or> err = EWOULDBLOCK)
                    then Some (Inr (s1\<lparr>m_send_pos := m_send_pos s1 - ret'\<rparr>, -1, w'))
                    else Some (Inr (s1, -1, w'))))"

text \<open>
  \<open>recv_buf\<close>. The loop adds every return value to the length, the -1 of a failed read
  included; it stops at the first successful read, at \<open>EAGAIN\<close> and at the end of the stream,
  and tries again after any other error.
\<close>

partial_function (option) recv_loop ::
  "'w kernel \<Rightarrow> int \<Rightarrow> int \<Rightarrow> 'w \<Rightarrow> (int \<times> int \<times> bytes \<times> 'w) option" where
  "recv_loop K fd recv_buf_length w =
     (case k_read K w fd (BUFFER_SIZE - 1) of
        (RdErr e, w') \<Rightarrow>
          if e = EAGAIN \<or> e = EWOULDBLOCK then Some (-1, recv_buf_length - 1, [], w')
          else recv_loop K fd (recv_buf_length - 1) w'
      | (RdData bs, w') \<Rightarrow>
          if bs = [] then Some (0, recv_buf_length, [], w')
          else Some (int (length bs), recv_buf_length + int (length bs), bs, w'))"

definition recv_buf ::
  "'w kernel \<Rightarrow> tcp_socket \<Rightarrow> 'w \<Rightarrow> (mem_error + (tcp_socket \<times> int \<times> 'w)) option" where
  "recv_buf K s w =
     (let s1 = s\<lparr>m_send_pos := 0\<rparr> in
      case recv_loop K (m_socket s) 0 w of
        None \<Rightarrow> None
      | Some (ret, len, bs, w') \<Rightarrow>
          if ret = 0 then Some (Inr (s1, -1, w'))
          else
            (let arr = bs @ replicate (BUFFER_SIZE - length bs) 0 in
             Some (bind_res (put_buf (m_recv_buf s) (Some arr) (word_of_int len))
                (\<lambda>(b, r). bind_res (get_buf b arr) (\<lambda>_. Inr (s1\<lparr>m_recv_buf := b\<rparr>, 0, w'))))))"

text \<open>\<open>process\<close>, the entry point of a pool thread; the results are ignored by the caller.\<close>

definition process ::
  "'w kernel \<Rightarrow> bool \<Rightarrow> tcp_socket \<Rightarrow> 'w \<Rightarrow> (mem_error + (tcp_socket \<times> 'w)) option" where
  "process K bFlag s w =
     (let drop_ret = map_option (\<lambda>r. bind_res r (\<lambda>(s', _, w'). Inr (s', w')))
      in if bFlag = READ_OP then drop_ret (recv_buf K s w) else drop_ret (send_buf K s w))"

section \<open>Class invariant\<close>

definition socket_ok :: "tcp_socket \<Rightarrow> bool" where
  "socket_ok s \<longleftrightarrow> buffer_ok (m_send_buf s) \<and> buffer_ok (m_recv_buf s)"

lemma TcpSocket_new_ok:
  assumes "length mem1 = BUFFER_SIZE" "length mem2 = BUFFER_SIZE"
  shows "\<exists>s. TcpSocket_new mem1 mem2 = Inr s \<and> socket_ok s \<and>
     contents (m_recv_buf s) = [0x31] \<and> contents (m_send_buf s) = [0x31]"
  using Buffer_new_ok [OF assms(1)] Buffer_new_ok [OF assms(2)]
  by (auto simp: TcpSocket_new_def socket_ok_def)

lemma reset_ok:
  "socket_ok s \<Longrightarrow> \<exists>s'. reset s = Inr (s', True) \<and> socket_ok s' \<and> m_socket s' = 0 \<and>
     contents (m_send_buf s') = [] \<and> contents (m_recv_buf s') = []"
  using clean_ok [of "m_send_buf s"] clean_ok [of "m_recv_buf s"]
  by (auto simp: reset_def socket_ok_def)

lemma socket_ok_simps [simp]:
  "socket_ok (s\<lparr>m_send_pos := x\<rparr>) = socket_ok s"
  "socket_ok (s\<lparr>m_reference_count := y\<rparr>) = socket_ok s"
  "socket_ok (set_fd fd s) = socket_ok s"
  "socket_ok (set_wr_flag b s) = socket_ok s"
  "socket_ok (get_send_buf_len_addr s) = socket_ok s"
  "socket_ok (send_begin s) = socket_ok s"
  by (simp_all add: socket_ok_def set_fd_def set_wr_flag_def get_send_buf_len_addr_def send_begin_def)

lemma send_buf_ok:
  "socket_ok s \<Longrightarrow> send_buf K s w = Some (Inr (s', r, w')) \<Longrightarrow> socket_ok s'"
  by (auto simp: send_buf_def Let_def split: sum.splits prod.splits option.splits if_splits)

lemma recv_buf_ok:
  assumes "socket_ok s" "recv_buf K s w = Some (Inr (s', r, w'))"
  shows "socket_ok s'"
  using assms
  by (auto simp: recv_buf_def Let_def socket_ok_def split: option.splits if_splits)
    (use put_buf_ok in blast)

section \<open>Receiving\<close>

text \<open>
  \<open>reads_after K fd k w bs w'\<close>: the next \<open>k\<close> reads on the descriptor fail with an error other
  than \<open>EAGAIN\<close> (such as \<open>EINTR\<close>) and the one after them returns the bytes \<open>bs\<close>.
\<close>

fun reads_after :: "'w kernel \<Rightarrow> int \<Rightarrow> nat \<Rightarrow> 'w \<Rightarrow> bytes \<Rightarrow> 'w \<Rightarrow> bool" where
  "reads_after K fd 0 w bs w' \<longleftrightarrow> k_read K w fd (BUFFER_SIZE - 1) = (RdData bs, w')"
| "reads_after K fd (Suc k) w bs w' \<longleftrightarrow>
     (case k_read K w fd (BUFFER_SIZE - 1) of
        (RdErr e, w1) \<Rightarrow> e \<noteq> EAGAIN \<and> e \<noteq> EWOULDBLOCK \<and> reads_after K fd k w1 bs w'
      | (RdData _, w1) \<Rightarrow> False)"

lemma recv_loop_after:
  "reads_after K fd k w bs w' \<Longrightarrow> bs \<noteq> [] \<Longrightarrow>
     recv_loop K fd len w = Some (int (length bs), len - int k + int (length bs), bs, w')"
proof (induction k arbitrary: len w)
  case 0
  then show ?case by (simp add: recv_loop.simps)
next
  case (Suc k)
  then obtain e w1 where "k_read K w fd (BUFFER_SIZE - 1) = (RdErr e, w1)"
    and "e \<noteq> EAGAIN" "e \<noteq> EWOULDBLOCK" "reads_after K fd k w1 bs w'"
    by (auto split: prod.splits rd_reply.splits)
  with Suc show ?case by (simp add: recv_loop.simps [of K fd len w])
qed

text \<open>
  C20. What a receive stores: when the data \<open>bs\<close> arrives after \<open>k\<close> interrupted reads, fewer
  than its length, the receive buffer holds the first \<open>length bs - k\<close> bytes of it. Without
  interruptions that is the message; every interruption costs its last byte, because the -1 of
  the failed read is added to the length. The pending send length is reset and the send
  buffer is untouched.
\<close>

theorem recv_buf_stores:
  assumes "socket_ok s" and "reads_after K (m_socket s) k w bs w'"
    and "k < length bs" and "length bs < BUFFER_SIZE"
  shows "\<exists>s'. recv_buf K s w = Some (Inr (s', 0, w')) \<and> socket_ok s' \<and>
     contents (m_recv_buf s') = take (length bs - k) bs \<and>
     m_send_pos s' = 0 \<and> m_send_buf s' = m_send_buf s \<and> m_socket s' = m_socket s"
proof -
  let ?len = "word_of_int (int (length bs) - int k) :: u32"
  let ?arr = "bs @ replicate (BUFFER_SIZE - length bs) 0"
  have bs: "bs \<noteq> []" using assms(3) by auto
  have loop: "recv_loop K (m_socket s) 0 w =
      Some (int (length bs), int (length bs) - int k, bs, w')"
    using recv_loop_after [OF assms(2) bs, of 0] by simp
  have len: "unat ?len = length bs - k"
    using assms(3,4) by (subst unat_word_of_int_u32) auto
  then have nz: "?len \<noteq> 0" using assms(3) by (metis unat_0 zero_less_diff less_irrefl)
  let ?b = "(m_recv_buf s)\<lparr>m_buf := take (length bs - k) bs @
      drop (length bs - k) (m_buf (m_recv_buf s)), m_length := ?len\<rparr>"
  have put: "put_buf (m_recv_buf s) (Some ?arr) ?len = Inr (?b, 0)"
    using assms nz len by (simp add: put_buf_def memcpy_def socket_ok_def buffer_ok_def)
  have ok: "buffer_ok ?b"
    using put_buf_ok [OF _ put] assms(1) by (simp add: socket_ok_def)
  have get: "get_buf ?b ?arr = Inr (take (length bs - k) bs @ drop (length bs - k) ?arr, ?len)"
    using ok assms nz len by (simp add: get_buf_def memcpy_def buffer_ok_def)
  have "recv_buf K s w = Some (Inr (s\<lparr>m_send_pos := 0, m_recv_buf := ?b\<rparr>, 0, w'))"
    using bs get put by (simp add: recv_buf_def loop Let_def)
  moreover have "contents ?b = take (length bs - k) bs"
    using len by (simp add: contents_def)
  moreover have "socket_ok (s\<lparr>m_send_pos := 0, m_recv_buf := ?b\<rparr>)"
    using ok assms(1) by (simp add: socket_ok_def)
  ultimately show ?thesis by auto
qed

definition demo_socket :: tcp_socket where
  "demo_socket =
     (let b = \<lparr>m_buf = 0x31 # replicate 10239 0, m_length = 1\<rparr> in
      \<lparr>m_socket = 7, m_task_id = -1, m_send_pos = 6, m_reference_count = 1, m_flag = False,
       m_send_buf = b, m_recv_buf = b\<rparr>)"

lemma demo_socket_ok: "socket_ok demo_socket"
  by (simp add: demo_socket_def socket_ok_def buffer_ok_def Let_def)

theorem recv_buf_stores_witness:
  "\<exists>s' w'. recv_buf script_kernel demo_socket
      \<lparr>s_in = [1, 2, 3], s_out = [], s_sizes = [0, 3], s_flags = 0\<rparr> = Some (Inr (s', 0, w')) \<and>
    contents (m_recv_buf s') = [1, 2]"
proof -
  have "reads_after script_kernel (m_socket demo_socket) (Suc 0)
      \<lparr>s_in = [1, 2, 3], s_out = [], s_sizes = [0, 3], s_flags = 0\<rparr> [1, 2, 3]
      \<lparr>s_in = [], s_out = [], s_sizes = [], s_flags = 0\<rparr>"
    by (simp add: script_kernel_def script_read_def errno_defs)
  from recv_buf_stores [OF demo_socket_ok this] show ?thesis
    by (simp, blast)
qed

text \<open>
  A read that would block corrupts memory: when the first read fails with \<open>EAGAIN\<close>, the
  length is -1, which becomes the unsigned length 4294967295 of a copy between two arrays of
  10240 bytes.
\<close>

theorem recv_buf_would_block:
  assumes "socket_ok s" and "k_read K w (m_socket s) (BUFFER_SIZE - 1) = (RdErr EAGAIN, w')"
  shows "recv_buf K s w = Some (Inl OutOfBounds)"
proof -
  have "recv_loop K (m_socket s) 0 w = Some (-1, -1, [], w')"
    using assms(2) by (simp add: recv_loop.simps)
  moreover have "unat (word_of_int (-1) :: u32) = 4294967295"
    by simp
  ultimately show ?thesis
    using assms(1)
    by (simp add: recv_buf_def Let_def put_buf_def memcpy_def socket_ok_def buffer_ok_def)
qed

theorem recv_buf_would_block_witness:
  "recv_buf (script_kernel\<lparr>k_read := \<lambda>s fd n. (RdErr EAGAIN, s)\<rparr>) demo_socket
     \<lparr>s_in = [], s_out = [], s_sizes = [], s_flags = 0\<rparr> = Some (Inl OutOfBounds)"
proof -
  let ?K = "script_kernel\<lparr>k_read := \<lambda>s fd n. (RdErr EAGAIN, s)\<rparr>"
  let ?w = "\<lparr>s_in = [], s_out = [], s_sizes = [], s_flags = 0\<rparr> :: script"
  have "k_read ?K ?w (m_socket demo_socket) (BUFFER_SIZE - 1) = (RdErr EAGAIN, ?w)"
    by simp
  from recv_buf_would_block [OF demo_socket_ok this] show ?thesis .
qed

section \<open>Sending\<close>

text \<open>
  A peer that takes what it is offered: every write of a non-empty buffer takes at least one
  byte and never fails; \<open>got\<close> is what the peer has received.
\<close>

definition accepts :: "'w kernel \<Rightarrow> int \<Rightarrow> ('w \<Rightarrow> bytes) \<Rightarrow> bool" where
  "accepts K fd got \<longleftrightarrow>
     (\<forall>w bs. \<exists>n w'. k_write K w fd bs = (WrOk n, w') \<and> n \<le> length bs \<and>
        (bs \<noteq> [] \<longrightarrow> 0 < n) \<and> got w' = got w @ take n bs)"

lemma send_loop_accepts:
  assumes "accepts K fd got"
  shows "0 \<le> pos \<Longrightarrow> 0 \<le> left \<Longrightarrow> pos + left \<le> int (length buf) \<Longrightarrow>
     \<exists>w'. send_loop K fd buf pos left w = Some (Inr (0, 0, 0, w')) \<and>
       got w' = got w @ take (nat left) (drop (nat pos) buf)"
proof (induction "nat left" arbitrary: pos left w rule: less_induct)
  case less
  let ?out = "take (nat left) (drop (nat pos) buf)"
  have len: "length ?out = nat left" using less.prems by simp
  from assms obtain n w1 where wr: "k_write K w fd ?out = (WrOk n, w1)" and n: "n \<le> length ?out"
    and pos: "?out \<noteq> [] \<longrightarrow> 0 < n" and got: "got w1 = got w @ take n ?out"
    unfolding accepts_def by metis
  show ?case
  proof (cases "left = 0")
    case True
    with wr n got less.prems show ?thesis by (simp add: send_loop.simps [of K fd buf pos])
  next
    case False
    then have "?out \<noteq> []" using len less.prems by auto
    then have "0 < n" using pos by simp
    with n len less.prems have "nat (left - int n) < nat left" and "0 \<le> left - int n" by auto
    from less.hyps [of "left - int n" "pos + int n" w1] this less.prems
    obtain w2 where rec: "send_loop K fd buf (pos + int n) (left - int n) w1 = Some (Inr (0, 0, 0, w2))"
      and got2: "got w2 = got w1 @ take (nat (left - int n)) (drop (nat (pos + int n)) buf)"
      by auto
    have eqs: "nat (pos + int n) = n + nat pos" "nat (left - int n) = nat left - n"
      using less.prems by auto
    have "?out = take (n + (nat left - n)) (drop (nat pos) buf)"
      using n len by simp
    also have "\<dots> = take n ?out @ take (nat left - n) (drop (n + nat pos) buf)"
      using n len by (simp only: take_add drop_drop take_take min.absorb1)
    finally have out: "?out = take n ?out @ take (nat left - n) (drop (n + nat pos) buf)" .
    have "got w2 = got w @ (take n ?out @ take (nat left - n) (drop (n + nat pos) buf))"
      by (simp only: got got2 eqs append_assoc)
    then have "got w2 = got w @ ?out" by (simp only: out [symmetric])
    with rec wr \<open>0 < n\<close> less.prems show ?thesis by (simp add: send_loop.simps [of K fd buf pos])
  qed
qed

lemma get_size_contents:
  "buffer_ok b \<Longrightarrow> get_size b = int (length (contents b))"
  by (simp add: get_size_def contents_length sint_u32_small buffer_ok_def)

lemma get_buf_zeroed:
  assumes "buffer_ok b" "contents b \<noteq> []"
  shows "get_buf b (replicate BUFFER_SIZE 0) =
     Inr (contents b @ replicate (BUFFER_SIZE - length (contents b)) 0, m_length b)"
    and "m_length b \<noteq> 0"
proof -
  show nz: "m_length b \<noteq> 0" using assms by (auto simp: contents_def)
  show "get_buf b (replicate BUFFER_SIZE 0) =
     Inr (contents b @ replicate (BUFFER_SIZE - length (contents b)) 0, m_length b)"
    using assms(1) nz by (simp add: get_buf_def memcpy_def buffer_ok_def contents_def)
qed

text \<open>What one call hands to the peer, in terms of the length it has computed.\<close>

lemma send_buf_accepted:
  assumes "socket_ok s" and "accepts K (m_socket s) got"
    and "contents (m_send_buf s) \<noteq> []" and "length (contents (m_send_buf s)) < BUFFER_SIZE"
    and "0 < m_send_pos (send_begin s)" and "m_send_pos (send_begin s) \<le> int BUFFER_SIZE"
  shows "\<exists>w'. send_buf K s w = Some (Inr (send_begin s, 0, w')) \<and>
     got w' = got w @ take (nat (m_send_pos (send_begin s)))
       (contents (m_send_buf s) @ replicate (BUFFER_SIZE - length (contents (m_send_buf s))) 0)"
proof -
  let ?c = "contents (m_send_buf s)"
  let ?buf = "?c @ replicate (BUFFER_SIZE - length ?c) 0"
  have same: "m_send_buf (send_begin s) = m_send_buf s" "m_socket (send_begin s) = m_socket s"
    by (simp_all add: send_begin_def)
  note g = get_buf_zeroed [OF _ assms(3)]
  have ok: "buffer_ok (m_send_buf s)" using assms(1) by (simp add: socket_ok_def)
  from send_loop_accepts [OF assms(2), of 0 "m_send_pos (send_begin s)" ?buf w] assms(4-6)
  obtain w' where "send_loop K (m_socket s) ?buf 0 (m_send_pos (send_begin s)) w =
      Some (Inr (0, 0, 0, w'))"
    and "got w' = got w @ take (nat (m_send_pos (send_begin s))) ?buf"
    by auto
  moreover have "0 \<in> set ?buf" using assms(4) by simp
  ultimately show ?thesis
    using g(1,2) [OF ok] assms(5) same by (auto simp: send_buf_def Let_def)
qed

text \<open>
  C21. Replying: a socket that has a send request pending, handed to a peer that takes
  everything, sends the whole reply, in order, followed by as many zero bytes as the previous
  value of \<open>m_send_pos\<close>, and adds the reply's length to \<open>m_send_pos\<close>. So the reply is exact
  when a receive has just reset the position to 0, and a second reply without a receive in
  between carries trailing zeros.
\<close>

theorem send_buf_reply:
  assumes "socket_ok s" and "accepts K (m_socket s) got"
    and "reply = contents (m_send_buf s)" and "reply \<noteq> []" and "0 < m_reference_count s"
    and "m_send_pos s = int p" and "length reply + p \<le> BUFFER_SIZE" and "length reply < BUFFER_SIZE"
  shows "\<exists>s' w'. send_buf K s w = Some (Inr (s', 0, w')) \<and>
     got w' = got w @ reply @ replicate p 0 \<and>
     m_send_pos s' = int (p + length reply) \<and> m_reference_count s' = m_reference_count s - 1"
proof -
  have ok: "buffer_ok (m_send_buf s)" using assms(1) by (simp add: socket_ok_def)
  have pos: "m_send_pos (send_begin s) = int (p + length reply)"
    using assms(3,5,6) get_size_contents [OF ok] by (simp add: send_begin_def)
  moreover have "m_reference_count (send_begin s) = m_reference_count s - 1"
    using assms(5) by (simp add: send_begin_def)
  moreover have "take (p + length reply) (reply @ replicate (BUFFER_SIZE - length reply) 0) =
      reply @ replicate p 0"
    using assms(7) by (simp add: min_def)
  moreover have "nat (m_send_pos (send_begin s)) = p + length reply" using pos by simp
  ultimately show ?thesis
    using send_buf_accepted [OF assms(1,2), of w] assms(3,4,7,8) by fastforce
qed

lemma script_accepts: "accepts (script_kernel\<lparr>k_write := \<lambda>s fd bs.
    (WrOk (length bs), s\<lparr>s_out := s_out s @ bs\<rparr>)\<rparr>) fd s_out"
  by (auto simp: accepts_def)

theorem send_buf_reply_witness:
  "\<exists>s' w'. send_buf (script_kernel\<lparr>k_write := \<lambda>s fd bs.
      (WrOk (length bs), s\<lparr>s_out := s_out s @ bs\<rparr>)\<rparr>) demo_socket
      \<lparr>s_in = [], s_out = [], s_sizes = [], s_flags = 0\<rparr> = Some (Inr (s', 0, w')) \<and>
    s_out w' = [0x31, 0, 0, 0, 0, 0, 0]"
proof -
  have c: "contents (m_send_buf demo_socket) = [0x31]"
    and r: "m_reference_count demo_socket = 1" and p: "m_send_pos demo_socket = int 6"
    by (simp_all add: demo_socket_def contents_def Let_def)
  have *: "replicate 6 (0 :: byte) = [0, 0, 0, 0, 0, 0]" by (simp add: numeral_eq_Suc)
  from send_buf_reply [OF demo_socket_ok script_accepts c [symmetric] _ _ p,
      of "\<lparr>s_in = [], s_out = [], s_sizes = [], s_flags = 0\<rparr>"] r
  show ?thesis by (simp add: *) blast
qed

text \<open>
  A partial write is not resumed: when the peer takes \<open>m\<close> bytes of the reply and then would
  block, the call fails and the position becomes the whole length plus one (the code subtracts
  the return value -1, not the bytes sent). The next call, with a peer that takes everything,
  sends the whole reply again from its first byte and one zero byte after it.
\<close>

theorem send_buf_blocked:
  assumes "socket_ok s" and "reply = contents (m_send_buf s)" and "length reply < BUFFER_SIZE"
    and "m_reference_count s = 1" and "m_send_pos s = 0" and "0 < m" and "m < length reply"
    and "k_write K w (m_socket s) reply = (WrOk m, w1)"
    and "k_write K w1 (m_socket s) (drop m reply) = (WrErr EAGAIN, w2)"
    and "accepts K' (m_socket s) got"
  shows "\<exists>s' s'' w3. send_buf K s w = Some (Inr (s', -1, w2)) \<and>
     m_send_pos s' = int (length reply) + 1 \<and>
     send_buf K' s' w2 = Some (Inr (s'', 0, w3)) \<and> got w3 = got w2 @ reply @ [0]"
proof -
  let ?n = "length reply"
  let ?buf = "reply @ replicate (BUFFER_SIZE - ?n) 0"
  let ?s1 = "s\<lparr>m_send_pos := int ?n, m_reference_count := 0\<rparr>"
  let ?s2 = "?s1\<lparr>m_send_pos := int ?n + 1\<rparr>"
  have ok: "buffer_ok (m_send_buf s)" using assms(1) by (simp add: socket_ok_def)
  have ne: "contents (m_send_buf s) \<noteq> []" using assms(2,7) by auto
  have sb: "send_begin s = ?s1"
    using assms(2,4,5) get_size_contents [OF ok] by (simp add: send_begin_def)
  have "send_loop K (m_socket s) ?buf 0 (int ?n) w =
      send_loop K (m_socket s) ?buf (int m) (int ?n - int m) w1"
    using assms(3,6,7,8) by (simp add: send_loop.simps [of K _ _ 0])
  also have "\<dots> = Some (Inr (int ?n - int m, -1, EAGAIN, w2))"
    using assms(3,7,9) by (simp add: send_loop.simps [of K _ _ "int m"] nat_diff_distrib')
  finally have loop: "send_loop K (m_socket s) ?buf 0 (int ?n) w =
      Some (Inr (int ?n - int m, -1, EAGAIN, w2))" .
  have "0 \<in> set ?buf" using assms(3) by simp
  then have first: "send_buf K s w = Some (Inr (?s2, -1, w2))"
    using get_buf_zeroed [OF ok ne] loop assms(2,7)
    by (auto simp: send_buf_def sb Let_def)
  have sb2: "send_begin ?s2 = ?s2" by (simp add: send_begin_def)
  have take: "take (nat (int ?n + 1)) ?buf = reply @ [0]"
  proof -
    have "nat (int ?n + 1) = Suc ?n" by simp
    moreover have "min (Suc 0) (BUFFER_SIZE - ?n) = Suc 0" using assms(3) by simp
    ultimately show ?thesis by (simp add: min_def)
  qed
  have "socket_ok ?s2" using assms(1) by simp
  from send_buf_accepted [OF this, of K' got w2, unfolded sb2] assms(2,3,10) ne take
  obtain w3 where "send_buf K' ?s2 w2 = Some (Inr (?s2, 0, w3))" and "got w3 = got w2 @ reply @ [0]"
    by auto
  with first show ?thesis by auto
qed

definition blocking_kernel :: "script kernel" where
  "blocking_kernel = script_kernel\<lparr>k_write := \<lambda>s fd bs.
     if s_out s = [] then (WrOk 1, s\<lparr>s_out := take 1 bs\<rparr>) else (WrErr EAGAIN, s)\<rparr>"

theorem send_buf_blocked_witness:
  "\<exists>s' s'' w2 w3. send_buf blocking_kernel
      (demo_socket\<lparr>m_send_pos := 0, m_send_buf := \<lparr>m_buf = [5, 6] @ replicate 10238 0, m_length = 2\<rparr>\<rparr>)
      \<lparr>s_in = [], s_out = [], s_sizes = [], s_flags = 0\<rparr> = Some (Inr (s', -1, w2)) \<and>
    send_buf (script_kernel\<lparr>k_write := \<lambda>s fd bs. (WrOk (length bs), s\<lparr>s_out := s_out s @ bs\<rparr>)\<rparr>)
      s' w2 = Some (Inr (s'', 0, w3)) \<and> s_out w3 = [5, 5, 6, 0]"
proof -
  let ?b = "\<lparr>m_buf = [5, 6] @ replicate 10238 0, m_length = 2\<rparr>"
  let ?s = "demo_socket\<lparr>m_send_pos := 0, m_send_buf := ?b\<rparr>"
  let ?w = "\<lparr>s_in = [], s_out = [], s_sizes = [], s_flags = 0\<rparr> :: script"
  let ?w1 = "\<lparr>s_in = [], s_out = [5], s_sizes = [], s_flags = 0\<rparr> :: script"
  have ok: "socket_ok ?s"
    using demo_socket_ok by (simp add: socket_ok_def buffer_ok_def)
  have c: "[5, 6] = contents (m_send_buf ?s)" by (simp add: contents_def)
  have r: "m_reference_count ?s = 1" by (simp add: demo_socket_def Let_def)
  have k1: "k_write blocking_kernel ?w (m_socket ?s) [5, 6] = (WrOk 1, ?w1)"
    and k2: "k_write blocking_kernel ?w1 (m_socket ?s) (drop 1 [5, 6]) = (WrErr EAGAIN, ?w1)"
    by (simp_all add: blocking_kernel_def)
  from send_buf_blocked [OF ok c _ r _ _ _ k1 k2 script_accepts]
  show ?thesis by (simp, blast)
qed

end
