(* ===== verification/Net_Socket_Util.thy ===== *)
theory Net_Socket_Util
  imports Net_Sys
begin

text \<open>
  The socket helpers of \<^verbatim>\<open>src/base/socket_util.cpp\<close>: time-outs with \<open>select\<close>, blocking
  modes, and the loops that read or write a fixed number of bytes. The loops may run for
  ever when the kernel keeps failing with \<open>EINTR\<close>, so they are partial functions into
  \<open>option\<close> and their termination is part of what is proved.
\<close>

section \<open>Model\<close>

text \<open>The \<open>do ... while (ret < 0 \<and> errno == EINTR)\<close> loop around \<open>select\<close>.\<close>

partial_function (option) select_loop ::
  "'w kernel \<Rightarrow> int \<Rightarrow> bool \<Rightarrow> u32 \<Rightarrow> 'w \<Rightarrow> (int \<times> int \<times> 'w) option" where
  "select_loop K fd wr secs w =
     (case k_select K w fd wr secs of
        (ret, err, w') \<Rightarrow>
          if ret < 0 \<and> err = EINTR then select_loop K fd wr secs w' else Some (ret, err, w'))"

definition wait_timeout ::
  "'w kernel \<Rightarrow> bool \<Rightarrow> int \<Rightarrow> u32 \<Rightarrow> int \<Rightarrow> 'w \<Rightarrow> (int \<times> int \<times> 'w) option" where
  "wait_timeout K wr fd wait_seconds err0 w =
     (if 0 < wait_seconds
      then (case select_loop K fd wr wait_seconds w of
              None \<Rightarrow> None
            | Some (ret, err, w') \<Rightarrow>
                if ret = 0 then Some (-1, ETIMEDOUT, w')
                else if ret = 1 then Some (0, err, w')
                else Some (ret, err, w'))
      else Some (0, err0, w))"

definition read_timeout :: "'w kernel \<Rightarrow> int \<Rightarrow> u32 \<Rightarrow> int \<Rightarrow> 'w \<Rightarrow> (int \<times> int \<times> 'w) option" where
  "read_timeout K fd wait_seconds err0 w = wait_timeout K False fd wait_seconds err0 w"

definition write_timeout :: "'w kernel \<Rightarrow> int \<Rightarrow> u32 \<Rightarrow> int \<Rightarrow> 'w \<Rightarrow> (int \<times> int \<times> 'w) option" where
  "write_timeout K fd wait_seconds err0 w = wait_timeout K True fd wait_seconds err0 w"

definition accept_timeout :: "'w kernel \<Rightarrow> int \<Rightarrow> u32 \<Rightarrow> 'w \<Rightarrow> (int \<times> int \<times> 'w) option" where
  "accept_timeout K fd wait_seconds w =
     (if 0 < wait_seconds
      then (case select_loop K fd False wait_seconds w of
              None \<Rightarrow> None
            | Some (ret, err, w') \<Rightarrow>
                if ret = -1 then Some (-1, err, w')
                else if ret = 0 then Some (-1, ETIMEDOUT, w')
                else Some (k_accept K w' fd))
      else Some (k_accept K w fd))"

definition set_nonblocking :: "'w kernel \<Rightarrow> int \<Rightarrow> 'w \<Rightarrow> u32 \<times> 'w" where
  "set_nonblocking K fd w =
     (let old_option = k_getfl K w fd; new_option = old_option OR O_NONBLOCK
      in (old_option, k_setfl K w fd new_option))"

definition set_blocking :: "'w kernel \<Rightarrow> int \<Rightarrow> 'w \<Rightarrow> u32 \<times> 'w" where
  "set_blocking K fd w =
     (let old_option = k_getfl K w fd; new_option = old_option AND NOT O_NONBLOCK
      in (old_option, k_setfl K w fd new_option))"

text \<open>
  \<open>connect_timeout\<close>: the flag tells the early returns (which skip \<open>set_blocking\<close>) from the
  paths that fall through to the end of the function.
\<close>

definition connect_wait :: "'w kernel \<Rightarrow> int \<Rightarrow> u32 \<Rightarrow> 'w \<Rightarrow> (bool \<times> int \<times> int \<times> 'w) option" where
  "connect_wait K fd wait_seconds w =
     (case select_loop K fd True wait_seconds w of
        None \<Rightarrow> None
      | Some (ret, err, w') \<Rightarrow>
          if ret = 0 then Some (False, -1, ETIMEDOUT, w')
          else if ret < 0 then Some (True, -1, err, w')
          else if ret = 1
          then (case k_getsockopt K w' fd of
                  (sockoptret, soerr, w'') \<Rightarrow>
                    if sockoptret = -1 then Some (True, -1, soerr, w'')
                    else if soerr = 0 then Some (False, 0, err, w'')
                    else Some (False, -1, soerr, w''))
          else Some (False, ret, err, w'))"

definition connect_timeout :: "'w kernel \<Rightarrow> int \<Rightarrow> u32 \<Rightarrow> 'w \<Rightarrow> (int \<times> int \<times> 'w) option" where
  "connect_timeout K fd wait_seconds w =
     (let w1 = (if 0 < wait_seconds then snd (set_nonblocking K fd w) else w);
          restore = (\<lambda>w'. if 0 < wait_seconds then snd (set_blocking K fd w') else w')
      in case k_connect K w1 fd of
           (ret, err, w2) \<Rightarrow>
             if ret < 0 \<and> err = EINPROGRESS
             then (case connect_wait K fd wait_seconds w2 of
                     None \<Rightarrow> None
                   | Some (early, ret', err', w3) \<Rightarrow>
                       Some (ret', err', if early then w3 else restore w3))
             else Some (ret, err, restore w2))"

text \<open>
  \<open>readn\<close> returns its result, the bytes stored at the front of the caller's buffer, and the
  kernel's state; \<open>writen\<close> its result and the kernel's state.
\<close>

partial_function (option) readn_loop ::
  "'w kernel \<Rightarrow> int \<Rightarrow> nat \<Rightarrow> nat \<Rightarrow> bytes \<Rightarrow> 'w \<Rightarrow> (int \<times> bytes \<times> 'w) option" where
  "readn_loop K fd count nleft acc w =
     (if nleft = 0 then Some (int count, acc, w)
      else (case k_read K w fd nleft of
              (RdErr e, w') \<Rightarrow>
                if e = EINTR then readn_loop K fd count nleft acc w' else Some (-1, acc, w')
            | (RdData bs, w') \<Rightarrow>
                if bs = [] then Some (int (count - nleft), acc, w')
                else readn_loop K fd count (nleft - length bs) (acc @ bs) w'))"

definition readn :: "'w kernel \<Rightarrow> int \<Rightarrow> nat \<Rightarrow> 'w \<Rightarrow> (int \<times> bytes \<times> 'w) option" where
  "readn K fd count w = readn_loop K fd count count [] w"

partial_function (option) writen_loop ::
  "'w kernel \<Rightarrow> int \<Rightarrow> nat \<Rightarrow> bytes \<Rightarrow> 'w \<Rightarrow> (int \<times> 'w) option" where
  "writen_loop K fd count rest w =
     (if rest = [] then Some (int count, w)
      else (case k_write K w fd rest of
              (WrErr e, w') \<Rightarrow>
                if e = EINTR then writen_loop K fd count rest w' else Some (-1, w')
            | (WrOk n, w') \<Rightarrow>
                if n = 0 then writen_loop K fd count rest w'
                else writen_loop K fd count (drop n rest) w'))"

definition writen :: "'w kernel \<Rightarrow> int \<Rightarrow> bytes \<Rightarrow> 'w \<Rightarrow> (int \<times> 'w) option" where
  "writen K fd buf w = writen_loop K fd (length buf) buf w"

partial_function (option) recv_peek :: "'w kernel \<Rightarrow> int \<Rightarrow> nat \<Rightarrow> 'w \<Rightarrow> (rd_reply \<times> 'w) option" where
  "recv_peek K fd len w =
     (case k_peek K w fd len of
        (RdErr e, w') \<Rightarrow> if e = EINTR then recv_peek K fd len w' else Some (RdErr e, w')
      | (RdData bs, w') \<Rightarrow> Some (RdData bs, w'))"

text \<open>
  \<open>readline\<close>: \<open>store\<close> writes received bytes into the caller's buffer at the current position;
  \<open>readline_scan\<close> is the \<open>for\<close> loop over the peeked bytes, \<open>k\<close> of them still to look at,
  whose early return carries the short count; \<open>RetErrno\<close> stands for \<open>return errno\<close>.
\<close>

datatype rl_result = Ret int | RetErrno

definition store :: "bytes \<Rightarrow> nat \<Rightarrow> bytes \<Rightarrow> bytes" where
  "store buf pos bs = take pos buf @ bs @ drop (pos + length bs) buf"

fun readline_scan ::
  "'w kernel \<Rightarrow> int \<Rightarrow> nat \<Rightarrow> nat \<Rightarrow> nat \<Rightarrow> bytes \<Rightarrow> 'w \<Rightarrow> (int option \<times> bytes \<times> 'w) option" where
  "readline_scan K fd pos nread 0 buf w = Some (None, buf, w)"
| "readline_scan K fd pos nread (Suc k) buf w =
     (let i = nread - Suc k in
      if buf ! (pos + i) = 0x0A
      then (case readn K fd (i + 1) w of
              None \<Rightarrow> None
            | Some (ret, bs, w') \<Rightarrow>
                if ret \<noteq> int (i + 1) then Some (Some ret, store buf pos bs, w')
                else readline_scan K fd pos nread k (store buf pos bs) w')
      else readline_scan K fd pos nread k buf w)"

partial_function (option) readline_loop ::
  "'w kernel \<Rightarrow> int \<Rightarrow> nat \<Rightarrow> nat \<Rightarrow> bytes \<Rightarrow> 'w \<Rightarrow> (rl_result \<times> bytes \<times> 'w) option" where
  "readline_loop K fd pos nleft buf w =
     (case recv_peek K fd nleft w of
        None \<Rightarrow> None
      | Some (RdErr e, w1) \<Rightarrow> Some (Ret (-1), buf, w1)
      | Some (RdData bs, w1) \<Rightarrow>
          if bs = [] then Some (Ret 0, buf, w1)
          else (case readline_scan K fd pos (length bs) (length bs) (store buf pos bs) w1 of
                  None \<Rightarrow> None
                | Some (Some ret, buf2, w2) \<Rightarrow> Some (Ret ret, buf2, w2)
                | Some (None, buf2, w2) \<Rightarrow>
                    if nleft < length bs then Some (RetErrno, buf2, w2)
                    else (case readn K fd (length bs) w2 of
                            None \<Rightarrow> None
                          | Some (ret, bs', w3) \<Rightarrow>
                              if ret \<noteq> int (length bs) then Some (RetErrno, store buf2 pos bs', w3)
                              else readline_loop K fd (pos + length bs) (nleft - length bs)
                                     (store buf2 pos bs') w3)))"

definition readline :: "'w kernel \<Rightarrow> int \<Rightarrow> nat \<Rightarrow> bytes \<Rightarrow> 'w \<Rightarrow> (rl_result \<times> bytes \<times> 'w) option" where
  "readline K fd maxline buf w = readline_loop K fd 0 maxline buf w"

section \<open>Reading and writing a fixed number of bytes\<close>

lemma deliversD_data:
  assumes "delivers K fd avail pending" "k_read K w fd n = (RdData bs, w')"
  shows "length bs \<le> n" "avail w = bs @ avail w'" "pending w' \<le> pending w"
    "bs = [] \<Longrightarrow> n = 0 \<or> avail w = []"
  using assms unfolding delivers_def by (auto dest!: spec [where x = w] spec [where x = n])

lemma deliversD_err:
  assumes "delivers K fd avail pending" "k_read K w fd n = (RdErr e, w')"
  shows "e = EINTR" "avail w' = avail w" "pending w' < pending w"
  using assms unfolding delivers_def by (auto dest!: spec [where x = w] spec [where x = n])

lemma takesD_ok:
  assumes "takes K fd got pending" "k_write K w fd bs = (WrOk n, w')"
  shows "n \<le> length bs" "got w' = got w @ take n bs"
    "n \<noteq> 0 \<Longrightarrow> pending w' \<le> pending w" "n = 0 \<Longrightarrow> bs \<noteq> [] \<Longrightarrow> pending w' < pending w"
  using assms unfolding takes_def
  by (auto dest!: spec [where x = w] spec [where x = bs] split: if_splits)

lemma takesD_err:
  assumes "takes K fd got pending" "k_write K w fd bs = (WrErr e, w')"
  shows "e = EINTR" "got w' = got w" "pending w' < pending w"
  using assms unfolding takes_def by (auto dest!: spec [where x = w] spec [where x = bs])

text \<open>
  The loop invariant of \<open>readn\<close>, with its termination: by induction on the bytes still
  wanted plus the interruptions still to come.
\<close>

lemma readn_loop_delivers:
  assumes "delivers K fd avail pending" and "nleft \<le> count"
  shows "\<exists>w'. readn_loop K fd count nleft acc w =
      Some (int (count - nleft + length (take nleft (avail w))), acc @ take nleft (avail w), w') \<and>
    avail w' = drop nleft (avail w)"
  using assms(2)
proof (induction "nleft + pending w" arbitrary: nleft acc w rule: less_induct)
  case less
  show ?case
  proof (cases "nleft = 0")
    case True
    then show ?thesis by (simp add: readn_loop.simps)
  next
    case nz: False
    obtain r w1 where rd: "k_read K w fd nleft = (r, w1)" by force
    show ?thesis
    proof (cases r)
      case (RdErr e)
      note E = deliversD_err [OF assms(1) rd [unfolded RdErr]]
      from less(1) [of nleft w1 acc] E less(2) show ?thesis
        using nz by (simp add: readn_loop.simps [of K fd count nleft] rd RdErr)
    next
      case (RdData bs)
      note D = deliversD_data [OF assms(1) rd [unfolded RdData]]
      show ?thesis
      proof (cases "bs = []")
        case True
        then show ?thesis
          using D nz by (simp add: readn_loop.simps [of K fd count nleft] rd RdData)
      next
        case False
        then have "nleft - length bs + pending w1 < nleft + pending w"
          using D nz by (cases bs) auto
        from less(1) [OF this, of "acc @ bs"] less(2) D False show ?thesis
          using nz by (simp add: readn_loop.simps [of K fd count nleft] rd RdData add.assoc)
      qed
    qed
  qed
qed

lemma writen_loop_takes:
  assumes "takes K fd got pending"
  shows "\<exists>w'. writen_loop K fd count rest w = Some (int count, w') \<and> got w' = got w @ rest"
proof (induction "length rest + pending w" arbitrary: rest w rule: less_induct)
  case less
  show ?case
  proof (cases "rest = []")
    case True
    then show ?thesis by (simp add: writen_loop.simps)
  next
    case nz: False
    obtain r w1 where wr: "k_write K w fd rest = (r, w1)" by force
    show ?thesis
    proof (cases r)
      case (WrErr e)
      note E = takesD_err [OF assms wr [unfolded WrErr]]
      from less [of rest w1] E show ?thesis
        using nz by (simp add: writen_loop.simps [of K fd count rest] wr WrErr)
    next
      case (WrOk n)
      note D = takesD_ok [OF assms wr [unfolded WrOk]]
      from less [of "if n = 0 then rest else drop n rest" w1] D show ?thesis
        using nz by (auto simp: writen_loop.simps [of K fd count rest] wr WrOk)
    qed
  qed
qed

text \<open>
  C16. \<open>readn\<close> returns, on any descriptor that delivers a byte stream in pieces of any size
  with finitely many interruptions: it stores exactly the first \<open>count\<close> bytes of the stream,
  or all of it when the stream ends earlier, returns their number, and leaves the rest of
  the stream unread.
\<close>

theorem readn_exact:
  assumes "delivers K fd avail pending"
  shows "\<exists>w'. readn K fd count w =
      Some (int (length (take count (avail w))), take count (avail w), w') \<and>
    avail w' = drop count (avail w)"
  using readn_loop_delivers [OF assms, of count count "[]" w] by (simp add: readn_def)

theorem readn_exact_witness:
  "\<exists>w'. readn script_kernel 3 4
       \<lparr>s_in = [1, 2, 3, 4, 5, 6], s_out = [], s_sizes = [2, 0, 1], s_flags = 0\<rparr> =
     Some (4, [1, 2, 3, 4], w') \<and> s_in w' = [5, 6]"
  using readn_exact [OF script_delivers, of 3 4
      "\<lparr>s_in = [1, 2, 3, 4, 5, 6], s_out = [], s_sizes = [2, 0, 1], s_flags = 0\<rparr>"]
  by simp

text \<open>
  C18. \<open>writen\<close> returns the requested count on any descriptor that takes a byte stream in
  pieces with finitely many interruptions and empty writes, and the descriptor has then taken
  the whole buffer, once and in order.
\<close>

theorem writen_exact:
  assumes "takes K fd got pending"
  shows "\<exists>w'. writen K fd buf w = Some (int (length buf), w') \<and> got w' = got w @ buf"
  using writen_loop_takes [OF assms] by (simp add: writen_def)

theorem writen_exact_witness:
  "\<exists>w'. writen script_kernel 3 [1, 2, 3]
       \<lparr>s_in = [], s_out = [9], s_sizes = [1, 0], s_flags = 0\<rparr> = Some (3, w') \<and>
     s_out w' = [9, 1, 2, 3]"
  using writen_exact [OF script_takes, of 3 "[1, 2, 3]"
      "\<lparr>s_in = [], s_out = [9], s_sizes = [1, 0], s_flags = 0\<rparr>"]
  by simp

section \<open>Blocking mode around a timed connect\<close>

text \<open>
  What the code relies on about file flags: they are what was last set, and connecting,
  waiting and asking for the socket's error do not change them.
\<close>

definition flag_laws :: "'w kernel \<Rightarrow> int \<Rightarrow> bool" where
  "flag_laws K fd \<longleftrightarrow>
     (\<forall>w f. k_getfl K (k_setfl K w fd f) fd = f) \<and>
     (\<forall>w. k_getfl K (snd (snd (k_connect K w fd))) fd = k_getfl K w fd) \<and>
     (\<forall>w wr s. k_getfl K (snd (snd (k_select K w fd wr s))) fd = k_getfl K w fd) \<and>
     (\<forall>w. k_getfl K (snd (snd (k_getsockopt K w fd))) fd = k_getfl K w fd)"

lemma select_loop_flags:
  assumes "flag_laws K fd" and ret: "select_loop K fd wr s w = Some r"
  shows "k_getfl K (snd (snd r)) fd = k_getfl K w fd"
proof -
  have "K = K \<longrightarrow> fd = fd \<longrightarrow> k_getfl K (snd (snd r)) fd = k_getfl K w fd"
  proof (rule select_loop.raw_induct [where P = "\<lambda>K' fd' wr s w r.
        K' = K \<longrightarrow> fd' = fd \<longrightarrow> k_getfl K (snd (snd r)) fd = k_getfl K w fd", OF _ ret], intro impI)
    fix f K' fd' wr s w r
    assume IH: "\<And>K' fd' wr s w r. f K' fd' wr s w = Some r \<Longrightarrow>
        K' = K \<longrightarrow> fd' = fd \<longrightarrow> k_getfl K (snd (snd r)) fd = k_getfl K w fd"
      and eq: "(case k_select K' w fd' wr s of (ret, err, w') \<Rightarrow>
          if ret < 0 \<and> err = EINTR then f K' fd' wr s w' else Some (ret, err, w')) = Some r"
      and K: "K' = K" "fd' = fd"
    obtain a b w1 where s: "k_select K w fd wr s = (a, b, w1)" by (cases "k_select K w fd wr s")
    have w1: "k_getfl K w1 fd = k_getfl K w fd"
      using assms(1) s by (metis flag_laws_def snd_conv)
    from eq K s have "(if a < 0 \<and> b = EINTR then f K fd wr s w1 else Some (a, b, w1)) = Some r"
      by (simp only: K s prod.case)
    with w1 IH [of K fd wr s w1 r] show "k_getfl K (snd (snd r)) fd = k_getfl K w fd"
      by (auto split: if_splits)
  qed
  then show ?thesis by simp
qed

lemma connect_wait_flags:
  assumes L: "flag_laws K fd" and "connect_wait K fd s w = Some (early, ret, err, w')"
  shows "k_getfl K w' fd = k_getfl K w fd \<and> (early \<longrightarrow> ret = -1)"
proof -
  from assms(2) obtain a b w1 where sl: "select_loop K fd True s w = Some (a, b, w1)"
    by (auto simp: connect_wait_def split: option.splits)
  note f = select_loop_flags [OF L sl, simplified]
  obtain c d w2 where g: "k_getsockopt K w1 fd = (c, d, w2)" by (cases "k_getsockopt K w1 fd")
  have "k_getfl K w2 fd = k_getfl K w1 fd"
    using L g by (metis flag_laws_def snd_conv)
  with assms(2) f show ?thesis
    by (auto simp: connect_wait_def sl g split: if_splits)
qed

text \<open>
  The blocking mode after \<open>connect_timeout\<close> with a time limit: whenever it succeeds the
  descriptor is in blocking mode, and in every case its flags are the original ones with
  \<open>O_NONBLOCK\<close> either cleared or still set, the latter only when the call failed.
\<close>

theorem connect_timeout_mode:
  assumes "flag_laws K fd" and "0 < secs"
    and "connect_timeout K fd secs w = Some (ret, err, w')"
  shows "k_getfl K w' fd = k_getfl K w fd AND NOT O_NONBLOCK \<or>
     ret = -1 \<and> k_getfl K w' fd = k_getfl K w fd OR O_NONBLOCK"
proof -
  let ?f = "k_getfl K w fd"
  let ?w1 = "snd (set_nonblocking K fd w)"
  obtain a b w2 where c: "k_connect K ?w1 fd = (a, b, w2)" by (cases "k_connect K ?w1 fd")
  have set: "k_getfl K (k_setfl K v fd g) fd = g" for v g
    using assms(1) by (simp add: flag_laws_def)
  have "k_getfl K w2 fd = k_getfl K ?w1 fd"
    using assms(1) c by (metis flag_laws_def snd_conv)
  then have w2: "k_getfl K w2 fd = ?f OR O_NONBLOCK"
    by (simp add: set_nonblocking_def Let_def set)
  have clear: "(?f OR O_NONBLOCK) AND NOT O_NONBLOCK = ?f AND NOT O_NONBLOCK"
    by (simp add: bit_eq_iff bit_simps) blast
  have rest: "k_getfl K v fd = ?f OR O_NONBLOCK \<Longrightarrow>
      k_getfl K (snd (set_blocking K fd v)) fd = ?f AND NOT O_NONBLOCK" for v
    by (simp add: set_blocking_def Let_def set clear)
  show ?thesis
  proof (cases "a < 0 \<and> b = EINPROGRESS")
    case True
    with assms(2,3) c obtain early e w3 where
      cw: "connect_wait K fd secs w2 = Some (early, ret, e, w3)"
      and w': "w' = (if early then w3 else snd (set_blocking K fd w3))"
      by (auto simp: connect_timeout_def Let_def split: option.splits)
    from connect_wait_flags [OF assms(1) cw] w2 w' rest show ?thesis by auto
  next
    case False
    with assms(2,3) c have "w' = snd (set_blocking K fd w2)"
      by (auto simp: connect_timeout_def Let_def split: if_splits)
    with rest w2 show ?thesis by simp
  qed
qed

theorem connect_timeout_mode_witness:
  "\<exists>w'. connect_timeout script_kernel 3 5 \<lparr>s_in = [], s_out = [], s_sizes = [], s_flags = 2050\<rparr> =
      Some (0, 0, w') \<and> s_flags w' = 2"
proof -
  let ?w = "\<lparr>s_in = [], s_out = [], s_sizes = [], s_flags = 2050 :: u32\<rparr>"
  have L: "flag_laws script_kernel 3"
    by (simp add: flag_laws_def script_kernel_def)
  have run: "connect_timeout script_kernel 3 5 ?w = Some (0, 0, ?w\<lparr>s_flags := 2\<rparr>)"
    by (simp add: connect_timeout_def connect_wait_def select_loop.simps script_kernel_def
        set_nonblocking_def set_blocking_def Let_def O_NONBLOCK_def EINPROGRESS_def)
  from connect_timeout_mode [OF L _ run] run show ?thesis by simp
qed

text \<open>
  The early returns leave the descriptor non-blocking: a \<open>select\<close> that fails is enough.
\<close>

lemma connect_timeout_leaves_nonblocking:
  "connect_timeout (script_kernel\<lparr>k_select := \<lambda>s fd wr t. (-1, 22, s)\<rparr>) 3 5
      \<lparr>s_in = [], s_out = [], s_sizes = [], s_flags = 2\<rparr> =
   Some (-1, 22, \<lparr>s_in = [], s_out = [], s_sizes = [], s_flags = 2050\<rparr>)"
  by (simp add: connect_timeout_def connect_wait_def select_loop.simps script_kernel_def
      set_nonblocking_def set_blocking_def Let_def O_NONBLOCK_def EINPROGRESS_def EINTR_def)

section \<open>readline\<close>

lemma script_readn:
  assumes "s_sizes s = []"
  shows "readn script_kernel fd n s =
    Some (int (length (take n (s_in s))), take n (s_in s), s\<lparr>s_in := drop n (s_in s)\<rparr>)"
proof -
  have "readn_loop script_kernel fd count m acc s =
      Some (int (count - m + length (take m (s_in s))), acc @ take m (s_in s),
        s\<lparr>s_in := drop m (s_in s)\<rparr>)" if "m \<le> count" "s_sizes s = []" for count m acc and s :: script
    using that
  proof (induction "m + length (s_in s)" arbitrary: m acc s rule: less_induct)
    case less
    have k: "k_read script_kernel s fd m = (RdData (take m (s_in s)), s\<lparr>s_in := drop m (s_in s)\<rparr>)"
      using less(3) by (simp add: script_kernel_def script_read_def)
    show ?case
    proof (cases "m = 0 \<or> s_in s = []")
      case True
      then show ?thesis by (auto simp: readn_loop.simps [of _ _ _ m] k)
    next
      case False
      then have "m - length (take m (s_in s)) + length (drop m (s_in s)) < m + length (s_in s)"
        by (cases "s_in s") (auto simp: min_def)
      from less(1) [of "m - length (take m (s_in s))" "s\<lparr>s_in := drop m (s_in s)\<rparr>"
          "acc @ take m (s_in s)"] this less(2,3) False
      show ?thesis
        by (auto simp: readn_loop.simps [of _ _ _ m] k min_def split: if_splits)
    qed
  qed
  from this [where m = n and count = n and acc = "[]"] assms show ?thesis by (simp add: readn_def)
qed

lemma readline_scan_skip:
  assumes "Suc k \<le> nread" "\<forall>i. nread - Suc k \<le> i \<and> i < nread - 1 \<longrightarrow> buf ! (pos + i) \<noteq> 0x0A"
  shows "readline_scan K fd pos nread (Suc k) buf w = readline_scan K fd pos nread (Suc 0) buf w"
  using assms
proof (induction k)
  case (Suc k)
  have "buf ! (pos + (nread - Suc (Suc k))) \<noteq> 0x0A"
    using Suc.prems by auto
  moreover have "readline_scan K fd pos nread (Suc k) buf w = readline_scan K fd pos nread (Suc 0) buf w"
    by (rule Suc.IH) (use Suc.prems in auto)
  ultimately show ?case by (simp only: readline_scan.simps(2) [of K fd pos nread "Suc k"] Let_def if_False)
qed simp



end
