(* ===== verification/Net_Thread_Pool.thy ===== *)
theory Net_Thread_Pool
  imports Net_Prelude "HOL-Library.Multiset"
begin

text \<open>
  The thread pool of \<^verbatim>\<open>src/base/thread_pool.h\<close> over the semaphore and the mutex of
  \<^verbatim>\<open>src/base/locker.h\<close>. The pool's fields and the sequential effect of \<open>append\<close> come first;
  then the producers running \<open>append\<close> and the workers running \<open>run\<close> are a step relation
  whose states carry every thread's program counter, so that interleavings, the mutex, the
  semaphore and interrupted waits are all visible.
\<close>

section \<open>The semaphore and the mutex of locker.h\<close>

text \<open>
  \<open>sem_init\<close> starts at 0; \<open>wait\<close> blocks at 0 (no successor value) and takes one unit
  otherwise; \<open>post\<close> adds one. A mutex is free or has an owner; \<open>lock\<close> blocks while it
  is owned.
\<close>

definition Sem_new :: nat where
  "Sem_new = 0"

definition sem_wait :: "nat \<Rightarrow> nat option" where
  "sem_wait c = (if c = 0 then None else Some (c - 1))"

definition sem_post :: "nat \<Rightarrow> nat" where
  "sem_post c = c + 1"

datatype thread = Producer nat | Worker nat

definition Locker_new :: "thread option" where
  "Locker_new = None"

definition lock :: "thread \<Rightarrow> thread option \<Rightarrow> thread option option" where
  "lock t owner = (if owner = None then Some (Some t) else None)"

definition unlock :: "thread option \<Rightarrow> thread option" where
  "unlock owner = None"

section \<open>The pool and the sequential effect of append\<close>

record 'r thread_pool =
  m_thread_number :: int
  m_max_requests :: int
  m_workqueue :: "'r option list"
  m_queuestat :: nat
  m_stop :: bool

text \<open>
  The constructor throws when an argument is not positive or when a thread cannot be
  created or detached (\<open>created\<close> says for each index whether \<open>pthread_create\<close> and
  \<open>pthread_detach\<close> both succeeded).
\<close>

definition ThreadPool_new :: "(nat \<Rightarrow> bool) \<Rightarrow> int \<Rightarrow> int \<Rightarrow> 'r thread_pool option" where
  "ThreadPool_new created thread_number max_requests =
     (if thread_number \<le> 0 \<or> max_requests \<le> 0 then None
      else if \<forall>i \<in> set [0..<nat thread_number]. created i
      then Some \<lparr>m_thread_number = thread_number, m_max_requests = max_requests,
                 m_workqueue = [], m_queuestat = Sem_new, m_stop = False\<rparr>
      else None)"

definition ThreadPool_delete :: "'r thread_pool \<Rightarrow> 'r thread_pool" where
  "ThreadPool_delete p = p\<lparr>m_stop := True\<rparr>"

text \<open>
  \<open>append\<close> compares the unsigned queue size with the signed limit, which converts the limit
  to \<open>size_t\<close>; the requests are pointers, so a null request can be queued.
\<close>

definition queue_over_limit :: "'r thread_pool \<Rightarrow> bool" where
  "queue_over_limit p \<longleftrightarrow>
     unat (word_of_int (m_max_requests p) :: u64) < length (m_workqueue p)"

definition append_push :: "'r option \<Rightarrow> 'r thread_pool \<Rightarrow> 'r thread_pool" where
  "append_push request p = p\<lparr>m_workqueue := m_workqueue p @ [request]\<rparr>"

definition append_post :: "'r thread_pool \<Rightarrow> 'r thread_pool" where
  "append_post p = p\<lparr>m_queuestat := sem_post (m_queuestat p)\<rparr>"

definition append_req :: "'r option \<Rightarrow> 'r thread_pool \<Rightarrow> 'r thread_pool \<times> bool" where
  "append_req request p =
     (if queue_over_limit p then (p, False)
      else (append_post (append_push request p), True))"

section \<open>Threads\<close>

text \<open>
  A worker's program counter in \<open>run\<close>: the loop test, the semaphore wait, the mutex, the
  emptiness test with the mutex held, a request in hand. A producer's in \<open>append\<close>: outside,
  mutex held before the size test, pushed but not yet posted, posted but still holding the
  mutex. A producer may be called with any request.
\<close>

datatype 'r worker_pc = WTest | WWait | WAcquire | WLocked | WGot "'r option" | WExited

datatype 'r prod_pc = PIdle | PCalled "'r option" | PLocked "'r option" | PPushed | PPosted

record 'r pool_state =
  pool :: "'r thread_pool"
  owner :: "thread option"
  wpc :: "nat \<Rightarrow> 'r worker_pc"
  ppc :: "nat \<Rightarrow> 'r prod_pc"
  accepted :: "'r option list"
  handled :: "'r option list"

text \<open>
  \<open>accepted\<close> records the requests \<open>append\<close> took and \<open>handled\<close> the requests workers are done
  with; the code has no such fields, they are read by the properties only.
\<close>

definition pool_start :: "'r thread_pool \<Rightarrow> 'r pool_state" where
  "pool_start p = \<lparr>pool = p, owner = Locker_new, wpc = (\<lambda>_. WTest), ppc = (\<lambda>_. PIdle),
     accepted = [], handled = []\<rparr>"

inductive pool_step :: "'r pool_state \<Rightarrow> 'r pool_state \<Rightarrow> bool" where
  p_call: "ppc s i = PIdle \<Longrightarrow>
    pool_step s (s\<lparr>ppc := (ppc s)(i := PCalled r)\<rparr>)"
| p_lock: "ppc s i = PCalled r \<Longrightarrow> lock (Producer i) (owner s) = Some ow \<Longrightarrow>
    pool_step s (s\<lparr>owner := ow, ppc := (ppc s)(i := PLocked r)\<rparr>)"
| p_reject: "ppc s i = PLocked r \<Longrightarrow> queue_over_limit (pool s) \<Longrightarrow>
    pool_step s (s\<lparr>owner := unlock (owner s), ppc := (ppc s)(i := PIdle)\<rparr>)"
| p_push: "ppc s i = PLocked r \<Longrightarrow> \<not> queue_over_limit (pool s) \<Longrightarrow>
    pool_step s (s\<lparr>pool := append_push r (pool s), ppc := (ppc s)(i := PPushed),
      accepted := accepted s @ [r]\<rparr>)"
| p_post: "ppc s i = PPushed \<Longrightarrow>
    pool_step s (s\<lparr>pool := append_post (pool s), ppc := (ppc s)(i := PPosted)\<rparr>)"
| p_unlock: "ppc s i = PPosted \<Longrightarrow>
    pool_step s (s\<lparr>owner := unlock (owner s), ppc := (ppc s)(i := PIdle)\<rparr>)"
| w_enter: "int t < m_thread_number (pool s) \<Longrightarrow> wpc s t = WTest \<Longrightarrow> \<not> m_stop (pool s) \<Longrightarrow>
    pool_step s (s\<lparr>wpc := (wpc s)(t := WWait)\<rparr>)"
| w_exit: "int t < m_thread_number (pool s) \<Longrightarrow> wpc s t = WTest \<Longrightarrow> m_stop (pool s) \<Longrightarrow>
    pool_step s (s\<lparr>wpc := (wpc s)(t := WExited)\<rparr>)"
| w_wait: "wpc s t = WWait \<Longrightarrow> sem_wait (m_queuestat (pool s)) = Some c \<Longrightarrow>
    pool_step s (s\<lparr>pool := (pool s)\<lparr>m_queuestat := c\<rparr>, wpc := (wpc s)(t := WAcquire)\<rparr>)"
| w_intr: "wpc s t = WWait \<Longrightarrow>
    pool_step s (s\<lparr>wpc := (wpc s)(t := WAcquire)\<rparr>)"
| w_lock: "wpc s t = WAcquire \<Longrightarrow> lock (Worker t) (owner s) = Some ow \<Longrightarrow>
    pool_step s (s\<lparr>owner := ow, wpc := (wpc s)(t := WLocked)\<rparr>)"
| w_empty: "wpc s t = WLocked \<Longrightarrow> m_workqueue (pool s) = [] \<Longrightarrow>
    pool_step s (s\<lparr>owner := unlock (owner s), wpc := (wpc s)(t := WTest)\<rparr>)"
| w_take: "wpc s t = WLocked \<Longrightarrow> m_workqueue (pool s) = r # q \<Longrightarrow>
    pool_step s (s\<lparr>pool := (pool s)\<lparr>m_workqueue := q\<rparr>, owner := unlock (owner s),
      wpc := (wpc s)(t := WGot r)\<rparr>)"
| w_process: "wpc s t = WGot r \<Longrightarrow>
    pool_step s (s\<lparr>wpc := (wpc s)(t := WTest), handled := handled s @ [r]\<rparr>)"
| stop: "pool_step s (s\<lparr>pool := ThreadPool_delete (pool s)\<rparr>)"

inductive pool_reach :: "'r thread_pool \<Rightarrow> 'r pool_state \<Rightarrow> bool" for p where
  pr_start: "pool_reach p (pool_start p)"
| pr_step: "pool_reach p s \<Longrightarrow> pool_step s t \<Longrightarrow> pool_reach p t"

section \<open>Invariants\<close>

text \<open>
  What the pool keeps true: the mutex owner is the one thread inside a critical section;
  only the created workers ever move; the accepted requests are the taken ones followed by
  the queue, and every taken request is either in one worker's hands or handled; every
  queued request has a semaphore unit, or a worker on its way to the queue, or a producer
  about to post.
\<close>

fun in_hand :: "'r worker_pc \<Rightarrow> 'r option multiset" where
  "in_hand (WGot r) = {#r#}"
| "in_hand _ = {#}"

fun heading :: "'r worker_pc \<Rightarrow> nat" where
  "heading WAcquire = 1"
| "heading WLocked = 1"
| "heading _ = 0"

fun holds :: "'r prod_pc \<Rightarrow> bool" where
  "holds (PLocked r) = True"
| "holds PPushed = True"
| "holds PPosted = True"
| "holds _ = False"

definition workers :: "'r pool_state \<Rightarrow> nat" where
  "workers s = nat (m_thread_number (pool s))"

definition hands :: "nat \<Rightarrow> (nat \<Rightarrow> 'r worker_pc) \<Rightarrow> 'r option multiset" where
  "hands n f = (\<Sum>t<n. in_hand (f t))"

definition heads :: "nat \<Rightarrow> (nat \<Rightarrow> 'r worker_pc) \<Rightarrow> nat" where
  "heads n f = (\<Sum>t<n. heading (f t))"

definition mutex_inv :: "'r pool_state \<Rightarrow> bool" where
  "mutex_inv s \<longleftrightarrow>
     (\<forall>t. wpc s t = WLocked \<longleftrightarrow> owner s = Some (Worker t)) \<and>
     (\<forall>i. holds (ppc s i) \<longleftrightarrow> owner s = Some (Producer i))"

definition idle_inv :: "'r pool_state \<Rightarrow> bool" where
  "idle_inv s \<longleftrightarrow> (\<forall>t. workers s \<le> t \<longrightarrow> wpc s t = WTest)"

definition fifo_inv :: "'r pool_state \<Rightarrow> bool" where
  "fifo_inv s \<longleftrightarrow>
     (\<exists>taken. accepted s = taken @ m_workqueue (pool s) \<and>
        mset taken = hands (workers s) (wpc s) + mset (handled s))"

definition pushed :: "(nat \<Rightarrow> 'r prod_pc) \<Rightarrow> nat" where
  "pushed f = of_bool (\<exists>i. f i = PPushed)"

definition sem_inv :: "'r pool_state \<Rightarrow> bool" where
  "sem_inv s \<longleftrightarrow>
     length (m_workqueue (pool s)) \<le>
       m_queuestat (pool s) + heads (workers s) (wpc s) + pushed (ppc s)"

definition bound_inv :: "'r pool_state \<Rightarrow> bool" where
  "bound_inv s \<longleftrightarrow>
     length (m_workqueue (pool s)) \<le> Suc (unat (word_of_int (m_max_requests (pool s)) :: u64))"

lemmas pool_prims = lock_def unlock_def append_push_def append_post_def sem_wait_def
  sem_post_def ThreadPool_delete_def Locker_new_def Sem_new_def

lemma sum_fun_upd:
  fixes g :: "'a \<Rightarrow> 'b::comm_monoid_add" and n :: nat
  assumes "t < n"
  shows "(\<Sum>x<n. g ((f(t := v)) x)) + g (f t) = (\<Sum>x<n. g (f x)) + g v"
proof -
  have "(\<Sum>x<n. g ((f(t := v)) x)) = g v + (\<Sum>x\<in>{..<n} - {t}. g (f x))"
    using assms by (subst sum.remove [of _ t]) (auto intro: sum.cong)
  moreover have "(\<Sum>x<n. g (f x)) = g (f t) + (\<Sum>x\<in>{..<n} - {t}. g (f x))"
    using assms by (subst sum.remove [of _ t]) auto
  ultimately show ?thesis by (simp add: ac_simps)
qed

lemma workers_step: "pool_step s s' \<Longrightarrow> workers s' = workers s"
  by (induction rule: pool_step.induct) (auto simp: workers_def pool_prims)

lemma mutex_step: "pool_step s s' \<Longrightarrow> mutex_inv s \<Longrightarrow> mutex_inv s'"
proof (induction rule: pool_step.induct)
qed (auto simp: mutex_inv_def pool_prims split: if_splits;
     metis holds.simps worker_pc.distinct)+

lemma idle_step: "pool_step s s' \<Longrightarrow> idle_inv s \<Longrightarrow> idle_inv s'"
proof (induction rule: pool_step.induct)
qed (auto simp: idle_inv_def workers_def pool_prims split: if_splits)

text \<open>Only a created worker can be away from the loop test.\<close>

lemma idle_moving: "idle_inv s \<Longrightarrow> wpc s t \<noteq> WTest \<Longrightarrow> t < workers s"
  by (auto simp: idle_inv_def not_le [symmetric])

lemma bound_step: "pool_step s s' \<Longrightarrow> bound_inv s \<Longrightarrow> bound_inv s'"
proof (induction rule: pool_step.induct)
qed (auto simp: bound_inv_def queue_over_limit_def pool_prims split: if_splits)

text \<open>A step of a worker changes the sums over the workers at one place.\<close>

lemma hands_upd:
  "t < n \<Longrightarrow> hands n (f(t := v)) + in_hand (f t) = hands n f + in_hand v"
  unfolding hands_def by (rule sum_fun_upd)

lemma heads_upd:
  "t < n \<Longrightarrow> heads n (f(t := v)) + heading (f t) = heads n f + heading v"
  unfolding heads_def by (rule sum_fun_upd)

lemma hands_same:
  "t < n \<Longrightarrow> in_hand v = in_hand (f t) \<Longrightarrow> hands n (f(t := v)) = hands n f"
  using hands_upd [of t n f v] by simp

lemma heads_same:
  "t < n \<Longrightarrow> heading v = heading (f t) \<Longrightarrow> heads n (f(t := v)) = heads n f"
  using heads_upd [of t n f v] by simp

lemma heads_gain:
  "t < n \<Longrightarrow> heading (f t) = 0 \<Longrightarrow> heading v = 1 \<Longrightarrow> heads n (f(t := v)) = Suc (heads n f)"
  using heads_upd [of t n f v] by simp

lemma heads_lose:
  "t < n \<Longrightarrow> heading (f t) = 1 \<Longrightarrow> heading v = 0 \<Longrightarrow> heads n f = Suc (heads n (f(t := v)))"
  using heads_upd [of t n f v] by simp

lemmas heads_simps = heads_gain heads_same heads_gain [unfolded fun_upd_def]
  heads_same [unfolded fun_upd_def]

lemma fifo_step:
  assumes "pool_step s s'" "idle_inv s" "fifo_inv s"
  shows "fifo_inv s'"
  using assms
proof (induction rule: pool_step.induct)
  case (w_take s t r q)
  have t: "t < workers s" using w_take idle_moving by fastforce
  obtain tk where "accepted s = tk @ r # q"
    and "mset tk = hands (workers s) (wpc s) + mset (handled s)"
    using w_take by (auto simp: fifo_inv_def)
  then show ?case
    using hands_upd [OF t, of "wpc s" "WGot r"] w_take
    by (auto simp: fifo_inv_def workers_def pool_prims intro!: exI [of _ "tk @ [r]"])
next
  case (w_process s t r)
  have t: "t < workers s" using w_process idle_moving by fastforce
  show ?case
    using hands_upd [OF t, of "wpc s" WTest] w_process
    by (auto simp: fifo_inv_def workers_def ac_simps)
next
  case (w_wait s t c)
  then have "t < workers s" using idle_moving by fastforce
  with w_wait show ?case by (auto simp: fifo_inv_def workers_def hands_same)
next
  case (w_intr s t)
  then have "t < workers s" using idle_moving by fastforce
  with w_intr show ?case by (auto simp: fifo_inv_def workers_def hands_same)
next
  case (w_lock s t ow)
  then have "t < workers s" using idle_moving by fastforce
  with w_lock show ?case by (auto simp: fifo_inv_def workers_def hands_same)
next
  case (w_empty s t)
  then have "t < workers s" using idle_moving by fastforce
  with w_empty show ?case by (auto simp: fifo_inv_def workers_def hands_same)
qed (auto simp: fifo_inv_def workers_def pool_prims hands_same)


lemma pushed_upd:
  "f i \<noteq> PPushed \<Longrightarrow> x \<noteq> PPushed \<Longrightarrow> pushed (f(i := x)) = pushed f"
  by (auto simp: pushed_def split: if_splits)

lemmas pushed_simps = pushed_upd pushed_upd [unfolded fun_upd_def]

lemma one_pushing:
  assumes "mutex_inv s" "holds (ppc s i)" "ppc s j = PPushed"
  shows "j = i"
proof -
  from assms(3) have "holds (ppc s j)" by simp
  with assms(1,2) have "owner s = Some (Producer i)" "owner s = Some (Producer j)"
    by (auto simp: mutex_inv_def)
  then show ?thesis by simp
qed

lemma sem_invI:
  assumes "sem_inv s" "workers s' = workers s"
    and "m_workqueue (pool s') = [] \<or>
      length (m_workqueue (pool s')) + m_queuestat (pool s) + heads (workers s) (wpc s) + pushed (ppc s)
       \<le> length (m_workqueue (pool s)) + m_queuestat (pool s') + heads (workers s) (wpc s') + pushed (ppc s')"
  shows "sem_inv s'"
  using assms unfolding sem_inv_def by (auto simp: assms(2))

lemma sem_step:
  assumes step: "pool_step s s'" and "idle_inv s" "mutex_inv s" "sem_inv s"
  shows "sem_inv s'"
proof (rule sem_invI [OF assms(4) workers_step [OF step]])
  have moving: "t < workers s" if "wpc s t \<noteq> WTest" for t
    using idle_moving [OF assms(2) that] .
  from step assms(2,3) moving
  show "m_workqueue (pool s') = [] \<or>
      length (m_workqueue (pool s')) + m_queuestat (pool s) + heads (workers s) (wpc s) + pushed (ppc s)
       \<le> length (m_workqueue (pool s)) + m_queuestat (pool s') + heads (workers s) (wpc s') + pushed (ppc s')"
  proof (induction rule: pool_step.induct)
    case (p_push s i r)
    then have "pushed (ppc s) = 0" using one_pushing [of s i] by (fastforce simp: pushed_def)
    moreover have "pushed ((ppc s)(i := PPushed)) = 1"
      by (auto simp: pushed_def)
    ultimately show ?case by (simp add: append_push_def fun_upd_def)
  next
    case (p_post s i)
    then have "pushed (ppc s) = 1" by (auto simp: pushed_def)
    then show ?case by (simp add: append_post_def sem_post_def)
  next
    case (w_wait s t c)
    then have "heads (workers s) ((wpc s)(t := WAcquire)) = Suc (heads (workers s) (wpc s))"
      and "m_queuestat (pool s) = Suc c"
      by (auto intro!: heads_gain simp: sem_wait_def split: if_splits)
    then show ?case by (simp add: fun_upd_def)
  next
    case (w_intr s t)
    then show ?case by (simp add: heads_simps)
  next
    case (w_lock s t ow)
    then show ?case by (simp add: heads_simps)
  next
    case (w_take s t r q)
    then have "t < workers s" by simp
    with w_take show ?case
      using heads_lose [of t "workers s" "wpc s" "WGot r"] by (simp add: fun_upd_def)
  next
    case (w_empty s t)
    then show ?case by simp
  qed (simp_all add: pushed_simps heads_simps ThreadPool_delete_def workers_def)
qed

section \<open>Reachable states\<close>

definition pool_inv :: "'r pool_state \<Rightarrow> bool" where
  "pool_inv s \<longleftrightarrow> mutex_inv s \<and> idle_inv s \<and> fifo_inv s \<and> sem_inv s \<and> bound_inv s"

lemma pool_inv_start: "m_workqueue p = [] \<Longrightarrow> pool_inv (pool_start p)"
  by (auto simp: pool_inv_def pool_start_def mutex_inv_def idle_inv_def fifo_inv_def sem_inv_def
      bound_inv_def hands_def Locker_new_def)

lemma pool_inv_step: "pool_step s s' \<Longrightarrow> pool_inv s \<Longrightarrow> pool_inv s'"
  unfolding pool_inv_def
  using mutex_step idle_step fifo_step sem_step bound_step by blast

interpretation workers: inv_system pool_step "\<lambda>s. \<exists>p. m_workqueue p = [] \<and> s = pool_start p" pool_inv
  by unfold_locales (auto intro: pool_inv_start pool_inv_step)

lemma pool_reach_steps: "pool_reach p s \<Longrightarrow> pool_step\<^sup>*\<^sup>* (pool_start p) s"
  by (induction rule: pool_reach.induct) (auto intro: rtranclp.rtrancl_into_rtrancl)

lemma pool_inv_reach:
  "pool_reach p s \<Longrightarrow> m_workqueue p = [] \<Longrightarrow> pool_inv s"
  using workers.reach_inv [OF _ pool_reach_steps] by blast

lemma max_requests_reach:
  "pool_reach p s \<Longrightarrow> m_max_requests (pool s) = m_max_requests p"
proof (induction rule: pool_reach.induct)
  case (pr_step s t)
  from pr_step(2) have "m_max_requests (pool t) = m_max_requests (pool s)"
    by (induction rule: pool_step.induct) (auto simp: pool_prims)
  with pr_step show ?case by simp
qed (simp add: pool_start_def)

lemma ThreadPool_new_fields:
  "ThreadPool_new created n m = Some p \<Longrightarrow>
     0 < n \<and> 0 < m \<and> m_workqueue p = [] \<and> m_max_requests p = m \<and> m_thread_number p = n"
  by (auto simp: ThreadPool_new_def split: if_splits)

text \<open>A run used by the witnesses: one producer appends one request and posts it.\<close>

definition demo_pool :: "nat thread_pool" where
  "demo_pool = \<lparr>m_thread_number = 1, m_max_requests = 10000, m_workqueue = [],
     m_queuestat = 0, m_stop = False\<rparr>"

definition demo_state :: "nat pool_state" where
  "demo_state = \<lparr>pool = demo_pool\<lparr>m_workqueue := [Some 5], m_queuestat := 1\<rparr>,
     owner = Some (Producer 0), wpc = (\<lambda>_. WTest), ppc = (\<lambda>_. PIdle)(0 := PPosted),
     accepted = [Some 5], handled = []\<rparr>"

lemma demo_new: "ThreadPool_new (\<lambda>_. True) 1 10000 = Some demo_pool"
  by (simp add: ThreadPool_new_def demo_pool_def Sem_new_def)

lemma demo_reach: "pool_reach demo_pool demo_state"
proof -
  let ?s0 = "pool_start demo_pool"
  let ?s1 = "?s0\<lparr>ppc := (ppc ?s0)(0 := PCalled (Some 5))\<rparr>"
  let ?s2 = "?s1\<lparr>owner := Some (Producer 0), ppc := (ppc ?s1)(0 := PLocked (Some 5))\<rparr>"
  let ?s3 = "?s2\<lparr>pool := append_push (Some 5) (pool ?s2), ppc := (ppc ?s2)(0 := PPushed),
      accepted := accepted ?s2 @ [Some 5]\<rparr>"
  let ?s4 = "?s3\<lparr>pool := append_post (pool ?s3), ppc := (ppc ?s3)(0 := PPosted)\<rparr>"
  have "pool_step ?s0 ?s1" by (rule p_call) (simp add: pool_start_def)
  moreover have "pool_step ?s1 ?s2"
    by (rule p_lock) (simp_all add: pool_start_def lock_def Locker_new_def)
  moreover have "pool_step ?s2 ?s3"
    by (rule p_push) (simp_all add: pool_start_def queue_over_limit_def demo_pool_def)
  moreover have "pool_step ?s3 ?s4" by (rule p_post) simp
  ultimately have "pool_reach demo_pool ?s4"
    by (meson pr_start pr_step)
  moreover have "?s4 = demo_state"
    by (simp add: demo_state_def pool_start_def demo_pool_def pool_prims)
  ultimately show ?thesis by simp
qed

section \<open>Properties\<close>

text \<open>
  C6. Every request that append accepted is dispatched exactly once and in the order of
  acceptance: in every reachable interleaving of producers and workers, including interrupted
  semaphore waits, the accepted requests are the ones taken so far followed by the queue, and
  each taken request is in the hands of exactly one worker or has been processed once.
\<close>

theorem requests_exactly_once:
  assumes "ThreadPool_new created n m = Some p" and "pool_reach p s"
  shows "\<exists>taken. accepted s = taken @ m_workqueue (pool s) \<and>
     mset taken = (\<Sum>t<nat n. in_hand (wpc s t)) + mset (handled s)"
proof -
  from assms have "pool_inv s" using pool_inv_reach ThreadPool_new_fields by blast
  moreover have "workers s = nat n"
  proof -
    from assms(2) have "m_thread_number (pool s) = m_thread_number p"
    proof (induction rule: pool_reach.induct)
      case (pr_step s t)
      from pr_step(2) have "m_thread_number (pool t) = m_thread_number (pool s)"
        by (induction rule: pool_step.induct) (auto simp: pool_prims)
      with pr_step show ?case by simp
    qed (simp add: pool_start_def)
    with assms(1) show ?thesis by (simp add: workers_def ThreadPool_new_fields)
  qed
  ultimately show ?thesis by (auto simp: pool_inv_def fifo_inv_def hands_def)
qed

theorem requests_exactly_once_witness:
  "\<exists>taken. accepted demo_state = taken @ m_workqueue (pool demo_state) \<and>
     mset taken = (\<Sum>t<1. in_hand (wpc demo_state t)) + mset (handled demo_state)"
  using requests_exactly_once [OF demo_new demo_reach] by simp

text \<open>
  C8. No wake-up is lost and no two threads are in the critical section: in every reachable
  state with a queued request, unless a producer is just about to post, the semaphore is
  positive or a worker has already passed its wait and is on its way to the queue; and the
  queue is only ever examined by the owner of the mutex.
\<close>

theorem no_lost_wakeup:
  assumes "ThreadPool_new created n m = Some p" and "pool_reach p s"
    and "m_workqueue (pool s) \<noteq> []" and "\<forall>i. ppc s i \<noteq> PPushed"
  shows "(0 < m_queuestat (pool s) \<or> (\<exists>t. wpc s t = WAcquire \<or> wpc s t = WLocked)) \<and>
     (\<forall>t t'. wpc s t = WLocked \<longrightarrow> wpc s t' = WLocked \<longrightarrow> t = t') \<and>
     (\<forall>t i. wpc s t = WLocked \<longrightarrow> \<not> holds (ppc s i))"
proof -
  from assms have inv: "pool_inv s" using pool_inv_reach ThreadPool_new_fields by blast
  have "0 < m_queuestat (pool s) \<or> 0 < heads (workers s) (wpc s)"
    using inv assms(3,4) by (auto simp: pool_inv_def sem_inv_def pushed_def simp flip: length_greater_0_conv)
  moreover have "0 < heads (workers s) (wpc s) \<Longrightarrow> \<exists>t. wpc s t = WAcquire \<or> wpc s t = WLocked"
  proof -
    assume "0 < heads (workers s) (wpc s)"
    then obtain t where "0 < heading (wpc s t)"
      unfolding heads_def by (metis gr0I less_irrefl sum.neutral)
    then show ?thesis by (cases "wpc s t") auto
  qed
  ultimately show ?thesis using inv by (auto simp: pool_inv_def mutex_inv_def)
qed

theorem no_lost_wakeup_witness:
  "0 < m_queuestat (pool demo_state) \<or> (\<exists>t. wpc demo_state t = WAcquire \<or> wpc demo_state t = WLocked)"
  using no_lost_wakeup [OF demo_new demo_reach] by (simp add: demo_state_def)

text \<open>
  The request limit is exceeded by one: append refuses a request only when the queue is
  already longer than \<open>m_max_requests\<close>, so the queue of a reachable pool can hold
  \<open>m_max_requests + 1\<close> requests and never more, and a queue of exactly \<open>m_max_requests\<close>
  requests still accepts one.
\<close>

theorem queue_bound:
  assumes "ThreadPool_new created n m = Some p" and "m < 2 ^ 31" and "pool_reach p s"
  shows "int (length (m_workqueue (pool s))) \<le> m + 1 \<and>
     (int (length (m_workqueue (pool s))) = m \<longrightarrow>
        snd (append_req r (pool s)) \<and>
        int (length (m_workqueue (fst (append_req r (pool s))))) = m + 1)"
proof -
  note f = ThreadPool_new_fields [OF assms(1)]
  from f assms(3) have inv: "bound_inv s"
    using pool_inv_reach by (auto simp: pool_inv_def)
  from f have m: "m_max_requests (pool s) = m" "0 < m"
    using max_requests_reach [OF assms(3)] by auto
  have u: "unat (word_of_int m :: u64) = nat m"
    using m(2) assms(2) by (simp add: unat_eq_nat_uint uint_word_of_int_eq take_bit_int_eq_self)
  from inv have le: "length (m_workqueue (pool s)) \<le> Suc (nat m)"
    by (simp add: bound_inv_def m u)
  have "int (length (m_workqueue (pool s))) = m \<Longrightarrow> \<not> queue_over_limit (pool s)"
    by (auto simp: queue_over_limit_def m u)
  with le m(2) show ?thesis
    by (auto simp: append_req_def append_push_def append_post_def)
qed

theorem queue_bound_witness:
  "int (length (m_workqueue (pool demo_state))) \<le> 10000 + 1"
  using queue_bound [OF demo_new _ demo_reach] by simp

end
