(* ===== verification/Net_Task_Pool.thy ===== *)
theory Net_Task_Pool
  imports Net_Tcp_Socket Net_Socket_Util Net_Thread_Pool
begin

text \<open>
  The connection table of \<^verbatim>\<open>src/net/tcp_task_pool.cpp\<close> and \<^verbatim>\<open>src/net/tcp_task_pool.h\<close>:
  \<open>MAX_TASK\<close> connection objects, the stack of free ones, the table from descriptors to
  connection objects, and the list of messages waiting for the application. Array accesses are
  checked (an index outside the array is \<open>OutOfBounds\<close>, an array that was never allocated is
  \<open>NullDeref\<close>), \<open>exit(EXIT_FAILURE)\<close> is the error \<open>ExitFailure\<close>. Every handler is one step;
  the mutexes make it so for the queues they protect.
\<close>

section \<open>Data\<close>

definition MAX_TASK :: nat where "MAX_TASK = 100"
definition MAX_EVENTS :: nat where "MAX_EVENTS = 100"
definition RECV_MSG_SIZE :: nat where "RECV_MSG_SIZE = 128"

text \<open>
  A message points into the send buffer of a connection: one of the table's objects, or an
  object of its own on the heap (the close event), named by a number.
\<close>

datatype buf_ref = SlotBuf nat | HeapBuf nat

record message =
  task_id :: int
  recv_msg_data :: bytes
  recv_msg_length :: u32
  send_msg_ref :: buf_ref

datatype pool_error = Mem mem_error | ExitFailure

record task_pool =
  m_tcp_tasks :: "tcp_socket list option"
  m_ready_list :: "int list option"
  m_free_tasks :: "int list"
  m_undo_tasks :: "message list"
  m_recv_tasks :: "int list"
  m_listen_fd :: int
  m_epoll_fd :: int
  m_thread_pool :: "nat thread_pool"
  heap_next :: nat
  heap_freed :: "nat list"

text \<open>Lifting memory errors, and the two arrays with their bounds.\<close>

fun lift_mem :: "mem_error + 'a \<Rightarrow> pool_error + 'a" where
  "lift_mem (Inl e) = Inl (Mem e)"
| "lift_mem (Inr x) = Inr x"

definition array_get :: "'a list option \<Rightarrow> int \<Rightarrow> mem_error + 'a" where
  "array_get a i =
     (case a of
        None \<Rightarrow> Inl NullDeref
      | Some xs \<Rightarrow> if 0 \<le> i \<and> i < int (length xs) then Inr (xs ! nat i) else Inl OutOfBounds)"

definition array_set :: "'a list option \<Rightarrow> int \<Rightarrow> 'a \<Rightarrow> mem_error + 'a list option" where
  "array_set a i v =
     (case a of
        None \<Rightarrow> Inl NullDeref
      | Some xs \<Rightarrow>
          if 0 \<le> i \<and> i < int (length xs) then Inr (Some (xs[nat i := v])) else Inl OutOfBounds)"

definition put_task :: "task_pool \<Rightarrow> int \<Rightarrow> tcp_socket \<Rightarrow> pool_error + task_pool" where
  "put_task p i s = lift_mem (bind_res (array_set (m_tcp_tasks p) i s) (\<lambda>a. Inr (p\<lparr>m_tcp_tasks := a\<rparr>)))"

definition get_task :: "task_pool \<Rightarrow> int \<Rightarrow> pool_error + tcp_socket" where
  "get_task p i = lift_mem (array_get (m_tcp_tasks p) i)"

definition get_ready :: "task_pool \<Rightarrow> int \<Rightarrow> pool_error + int" where
  "get_ready p fd = lift_mem (array_get (m_ready_list p) fd)"

definition put_ready :: "task_pool \<Rightarrow> int \<Rightarrow> int \<Rightarrow> pool_error + task_pool" where
  "put_ready p fd v = lift_mem (bind_res (array_set (m_ready_list p) fd v) (\<lambda>a. Inr (p\<lparr>m_ready_list := a\<rparr>)))"

section \<open>Start-up\<close>

text \<open>
  The replies of the system calls of \<open>init\<close>, and the memory blocks the connection objects get.
\<close>

record init_env =
  e_socket :: int
  e_setsockopt :: int
  e_bind :: int
  e_listen :: int
  e_epoll_create :: int
  e_epoll_ctl :: int
  e_mem :: "nat \<Rightarrow> bytes"

fun new_tasks :: "(nat \<Rightarrow> bytes) \<Rightarrow> nat \<Rightarrow> mem_error + tcp_socket list" where
  "new_tasks mem 0 = Inr []"
| "new_tasks mem (Suc n) =
     bind_res (new_tasks mem n) (\<lambda>ts.
       bind_res (TcpSocket_new (mem (2 * n)) (mem (2 * n + 1))) (\<lambda>t. Inr (ts @ [t])))"

definition TcpTaskPool_new :: "nat thread_pool \<Rightarrow> task_pool" where
  "TcpTaskPool_new tp =
     \<lparr>m_tcp_tasks = None, m_ready_list = None, m_free_tasks = [], m_undo_tasks = [],
      m_recv_tasks = [], m_listen_fd = -1, m_epoll_fd = -1, m_thread_pool = tp,
      heap_next = 0, heap_freed = []\<rparr>"

definition init :: "init_env \<Rightarrow> task_pool \<Rightarrow> pool_error + (task_pool \<times> bool)" where
  "init env p =
     (let p1 = p\<lparr>m_listen_fd := e_socket env\<rparr>;
          p2 = p1\<lparr>m_epoll_fd := e_epoll_create env\<rparr>
      in if e_socket env < 0 then Inr (p1, False)
      else if e_setsockopt env < 0 then Inr (p1, False)
      else if e_bind env < 0 then Inr (p1, False)
      else if e_listen env < 0 then Inr (p1, False)
      else if e_epoll_create env = -1 then Inl ExitFailure
      else if e_epoll_ctl env = -1 then Inl ExitFailure
      else bind_res (lift_mem (new_tasks (e_mem env) MAX_TASK)) (\<lambda>ts.
        Inr (p2\<lparr>m_tcp_tasks := Some ts,
               m_free_tasks := rev (map int [0..<MAX_TASK]) @ m_free_tasks p,
               m_ready_list := Some (replicate MAX_TASK (-1))\<rparr>, True)))"

section \<open>The queues\<close>

definition get_epoll :: "task_pool \<Rightarrow> int" where "get_epoll p = m_epoll_fd p"
definition get_listen :: "task_pool \<Rightarrow> int" where "get_listen p = m_listen_fd p"

definition push_free_task :: "int \<Rightarrow> task_pool \<Rightarrow> task_pool" where
  "push_free_task i p = p\<lparr>m_free_tasks := i # m_free_tasks p\<rparr>"

definition get_free_task :: "task_pool \<Rightarrow> int \<times> task_pool" where
  "get_free_task p =
     (case m_free_tasks p of
        [] \<Rightarrow> (-1, p)
      | i # is \<Rightarrow> (i, p\<lparr>m_free_tasks := is\<rparr>))"

definition is_free_tasks_empty :: "task_pool \<Rightarrow> bool" where
  "is_free_tasks_empty p \<longleftrightarrow> m_free_tasks p = []"

definition is_recv_tasks_empty :: "task_pool \<Rightarrow> bool" where
  "is_recv_tasks_empty p \<longleftrightarrow> m_recv_tasks p = []"

definition is_undo_tasks_empty :: "task_pool \<Rightarrow> bool" where
  "is_undo_tasks_empty p \<longleftrightarrow> m_undo_tasks p = []"

text \<open>
  \<open>add_undo_task\<close> copies the connection's received bytes into the 128 bytes of a message, points
  the message at the connection's send buffer and counts one more send request on the
  connection, which is returned updated for the caller to store back.
\<close>

definition add_undo_task ::
  "int \<Rightarrow> buf_ref \<Rightarrow> tcp_socket \<Rightarrow> task_pool \<Rightarrow> pool_error + (tcp_socket \<times> task_pool)" where
  "add_undo_task tid ref s p =
     bind_res (lift_mem (get_msg s (replicate RECV_MSG_SIZE 0))) (\<lambda>(msg, len).
       Inr (get_send_buf_len_addr s,
            p\<lparr>m_undo_tasks := m_undo_tasks p @
               [\<lparr>task_id = tid, recv_msg_data = msg, recv_msg_length = len, send_msg_ref = ref\<rparr>]\<rparr>))"

definition get_undo_task :: "task_pool \<Rightarrow> message option \<times> task_pool" where
  "get_undo_task p =
     (case m_undo_tasks p of
        [] \<Rightarrow> (None, p)
      | m # ms \<Rightarrow> (Some m, p\<lparr>m_undo_tasks := ms\<rparr>))"

definition get_recv_task :: "task_pool \<Rightarrow> pool_error + (int option \<times> task_pool)" where
  "get_recv_task p =
     (case m_recv_tasks p of
        [] \<Rightarrow> Inr (None, p)
      | i # is \<Rightarrow> bind_res (get_task p i) (\<lambda>_. Inr (Some i, p\<lparr>m_recv_tasks := is\<rparr>)))"

definition add_recv_task :: "int \<Rightarrow> task_pool \<Rightarrow> pool_error + task_pool" where
  "add_recv_task tid p =
     bind_res (get_recv_task (p\<lparr>m_recv_tasks := m_recv_tasks p @ [tid]\<rparr>)) (\<lambda>(r, p1).
       case r of
         None \<Rightarrow> Inl (Mem NullDeref)
       | Some i \<Rightarrow>
           bind_res (get_task p1 i) (\<lambda>s.
           bind_res (add_undo_task tid (SlotBuf (nat i)) s p1) (\<lambda>(s', p2).
           put_task p2 i s')))"

section \<open>Connections\<close>

definition add_connect :: "'w kernel \<Rightarrow> task_pool \<Rightarrow> 'w \<Rightarrow> pool_error + (task_pool \<times> bool \<times> 'w)" where
  "add_connect K p w =
     (case k_accept K w (m_listen_fd p) of
        (conn_fd, err, w1) \<Rightarrow>
          if conn_fd < 0 then Inr (p, False, w1)
          else
            (case k_epoll_ctl K (snd (set_nonblocking K conn_fd w1)) CtlAdd conn_fd of
               (r, w2) \<Rightarrow>
                 if r = -1 then Inl ExitFailure
                 else if is_free_tasks_empty p then Inr (p, False, w2)
                 else
                   (let (free_subscript, p1) = get_free_task p in
                    bind_res (put_ready p1 conn_fd free_subscript) (\<lambda>p2.
                      if free_subscript = -1 then Inr (p2, False, w2)
                      else bind_res (get_task p2 free_subscript) (\<lambda>s.
                           bind_res (put_task p2 free_subscript (set_fd conn_fd s)) (\<lambda>p3.
                           Inr (p3, True, w2)))))))"

text \<open>
  \<open>close_connect\<close>: \<open>reset\<close> always reports success, so the first failure branch is dead code but
  kept. The close event is a message about a fresh connection object, built in the memory
  \<open>mem1\<close>, \<open>mem2\<close>, which is deleted at the end of the function.
\<close>

definition close_connect ::
  "'w kernel \<Rightarrow> bytes \<Rightarrow> bytes \<Rightarrow> int \<Rightarrow> task_pool \<Rightarrow> 'w \<Rightarrow> pool_error + (task_pool \<times> bool \<times> 'w)" where
  "close_connect K mem1 mem2 conn_fd p w =
     bind_res (get_ready p conn_fd) (\<lambda>del_subscript.
     bind_res (get_task p del_subscript) (\<lambda>s.
     bind_res (lift_mem (reset s)) (\<lambda>(s', ok).
     bind_res (put_task p del_subscript s') (\<lambda>p1.
       case k_epoll_ctl K w CtlDel conn_fd of
         (r, w1) \<Rightarrow>
           if r = -1 then Inl ExitFailure
           else if \<not> ok then Inr (p1, False, k_close K w1 conn_fd)
           else
             bind_res (lift_mem (TcpSocket_new mem1 mem2)) (\<lambda>undo_task.
             bind_res (add_undo_task del_subscript (HeapBuf (heap_next p1)) undo_task
                         (p1\<lparr>heap_next := heap_next p1 + 1\<rparr>)) (\<lambda>(_, p2).
               Inr ((push_free_task del_subscript p2)
                      \<lparr>heap_freed := heap_next p1 # heap_freed p2\<rparr>, True, k_close K w1 conn_fd)))))))"

definition recv_msg :: "int \<Rightarrow> task_pool \<Rightarrow> pool_error + (task_pool \<times> int)" where
  "recv_msg fd p =
     bind_res (get_ready p fd) (\<lambda>ready_subscript.
     bind_res (get_task p ready_subscript) (\<lambda>s.
     bind_res (put_task p ready_subscript (set_wr_flag READ_OP s)) (\<lambda>p1.
     bind_res (add_recv_task ready_subscript p1) (\<lambda>p2.
       Inr (p2\<lparr>m_thread_pool := fst (append_req (Some (nat ready_subscript)) (m_thread_pool p2))\<rparr>, 0)))))"

text \<open>\<open>None\<close> stands for a send loop that never ends.\<close>

definition send_now :: "'w kernel \<Rightarrow> int \<Rightarrow> task_pool \<Rightarrow> 'w \<Rightarrow> (pool_error + (task_pool \<times> int \<times> 'w)) option" where
  "send_now K tid p w =
     (case get_task p tid of
        Inl e \<Rightarrow> Some (Inl e)
      | Inr s \<Rightarrow>
          map_option (\<lambda>r. bind_res (lift_mem r) (\<lambda>(s', ret, w').
            bind_res (put_task p tid s') (\<lambda>p'. Inr (p', ret, w')))) (send_buf K s w))"

definition send_msg :: "'w kernel \<Rightarrow> int \<Rightarrow> task_pool \<Rightarrow> 'w \<Rightarrow> (pool_error + (task_pool \<times> bool \<times> 'w)) option" where
  "send_msg K fd p w =
     (case get_ready p fd of
        Inl e \<Rightarrow> Some (Inl e)
      | Inr i \<Rightarrow>
          map_option (\<lambda>r. bind_res r (\<lambda>(p', ret, w'). Inr (p', ret = 0, w'))) (send_now K i p w))"

text \<open>A pool thread running \<open>process\<close> on the connection object \<open>i\<close>.\<close>

definition run_task :: "'w kernel \<Rightarrow> nat \<Rightarrow> task_pool \<Rightarrow> 'w \<Rightarrow> (pool_error + (task_pool \<times> 'w)) option" where
  "run_task K i p w =
     (case get_task p (int i) of
        Inl e \<Rightarrow> Some (Inl e)
      | Inr s \<Rightarrow>
          map_option (\<lambda>r. bind_res (lift_mem r) (\<lambda>(s', w').
            bind_res (put_task p (int i) s') (\<lambda>p'. Inr (p', w')))) (process K (get_wr_flag s) s w))"

section \<open>The table's invariant\<close>

text \<open>
  For the set \<open>live\<close> of open connections: the arrays have their size and hold well-formed
  objects; the free stack has no duplicates; each open connection has a slot of its own that is
  not free and that knows its descriptor; free and used slots together are all slots.
\<close>

definition slot :: "task_pool \<Rightarrow> int \<Rightarrow> int" where
  "slot p fd = (case m_ready_list p of None \<Rightarrow> -1 | Some rl \<Rightarrow> rl ! nat fd)"

definition task :: "task_pool \<Rightarrow> int \<Rightarrow> tcp_socket" where
  "task p i = (case m_tcp_tasks p of None \<Rightarrow> undefined | Some ts \<Rightarrow> ts ! nat i)"

definition arrays_ok :: "task_pool \<Rightarrow> bool" where
  "arrays_ok p \<longleftrightarrow>
     (case m_tcp_tasks p of None \<Rightarrow> False
      | Some ts \<Rightarrow> length ts = MAX_TASK \<and> (\<forall>s \<in> set ts. socket_ok s)) \<and>
     (case m_ready_list p of None \<Rightarrow> False | Some rl \<Rightarrow> length rl = MAX_TASK)"

definition slots_ok :: "int set \<Rightarrow> task_pool \<Rightarrow> bool" where
  "slots_ok live p \<longleftrightarrow>
     live \<subseteq> {0..<int MAX_TASK} \<and> distinct (m_free_tasks p) \<and>
     set (m_free_tasks p) \<subseteq> {0..<int MAX_TASK} \<and>
     inj_on (slot p) live \<and>
     (\<forall>fd \<in> live. slot p fd \<in> {0..<int MAX_TASK} - set (m_free_tasks p)) \<and>
     (\<forall>fd \<in> live. m_socket (task p (slot p fd)) = fd) \<and>
     length (m_free_tasks p) + card live = MAX_TASK"

definition pool_ok :: "int set \<Rightarrow> task_pool \<Rightarrow> bool" where
  "pool_ok live p \<longleftrightarrow> arrays_ok p \<and> slots_ok live p \<and> m_recv_tasks p = []"

lemma MAX_TASK_eq [simp]: "MAX_TASK = 100"
  by (simp add: MAX_TASK_def)

lemma lift_mem_eq_Inr [simp]: "lift_mem r = Inr x \<longleftrightarrow> r = Inr x"
  by (cases r) auto

lemma lift_mem_eq_Inl: "lift_mem r = Inl e \<longleftrightarrow> (\<exists>m. r = Inl m \<and> e = Mem m)"
  by (cases r) auto

lemma get_task_Inr:
  "arrays_ok p \<Longrightarrow> get_task p i = Inr s \<longleftrightarrow> 0 \<le> i \<and> i < 100 \<and> s = task p i"
  by (auto simp: get_task_def array_get_def arrays_ok_def task_def split: option.splits)

lemma get_ready_Inr:
  "arrays_ok p \<Longrightarrow> get_ready p fd = Inr i \<longleftrightarrow> 0 \<le> fd \<and> fd < 100 \<and> i = slot p fd"
  by (auto simp: get_ready_def array_get_def arrays_ok_def slot_def split: option.splits)

lemma task_ok: "arrays_ok p \<Longrightarrow> 0 \<le> i \<Longrightarrow> i < 100 \<Longrightarrow> socket_ok (task p i)"
  by (auto simp: arrays_ok_def task_def split: option.splits)

text \<open>Storing a connection object changes that object and nothing else.\<close>

lemma put_task_Inr:
  assumes "arrays_ok p" "put_task p i s = Inr p'"
  shows "0 \<le> i" "i < 100" "task p' j = (if nat j = nat i then s else task p j)"
    "slot p' = slot p" "m_free_tasks p' = m_free_tasks p" "m_undo_tasks p' = m_undo_tasks p"
    "m_recv_tasks p' = m_recv_tasks p" "m_thread_pool p' = m_thread_pool p"
    "heap_next p' = heap_next p" "heap_freed p' = heap_freed p" "m_listen_fd p' = m_listen_fd p"
    "socket_ok s \<Longrightarrow> arrays_ok p'"
  using assms
  by (auto simp: put_task_def array_set_def arrays_ok_def task_def slot_def fun_eq_iff
      nth_list_update set_update_subset_insert [THEN subsetD] split: option.splits if_splits)
    (use set_update_subset_insert in fastforce)?

lemma put_task_ex:
  assumes "arrays_ok p" "0 \<le> i" "i < 100"
  shows "\<exists>p'. put_task p i s = Inr p'"
  using assms by (auto simp: put_task_def array_set_def arrays_ok_def split: option.splits)

lemma put_ready_Inr:
  assumes "arrays_ok p" "put_ready p fd v = Inr p'"
  shows "0 \<le> fd" "fd < 100" "0 \<le> x \<Longrightarrow> slot p' x = (if x = fd then v else slot p x)"
    "task p' = task p" "m_free_tasks p' = m_free_tasks p" "m_undo_tasks p' = m_undo_tasks p"
    "m_recv_tasks p' = m_recv_tasks p" "arrays_ok p'"
  using assms
  by (auto simp: put_ready_def array_set_def arrays_ok_def task_def slot_def fun_eq_iff
      nth_list_update nat_eq_iff split: option.splits if_splits)

lemma slots_ok_frame:
  assumes "slots_ok live p" "slot p' = slot p" "m_free_tasks p' = m_free_tasks p"
    and "\<And>i. m_socket (task p' i) = m_socket (task p i)"
  shows "slots_ok live p'"
  using assms by (simp add: slots_ok_def)

lemma live_slot:
  assumes "pool_ok live p" "fd \<in> live"
  shows "0 \<le> fd" "fd < 100" "0 \<le> slot p fd" "slot p fd < 100" "slot p fd \<notin> set (m_free_tasks p)"
    "get_ready p fd = Inr (slot p fd)" "get_task p (slot p fd) = Inr (task p (slot p fd))"
    "socket_ok (task p (slot p fd))"
proof -
  show b: "0 \<le> fd" "fd < 100" "0 \<le> slot p fd" "slot p fd < 100" "slot p fd \<notin> set (m_free_tasks p)"
    using assms by (auto simp: pool_ok_def slots_ok_def)
  have a: "arrays_ok p" using assms by (simp add: pool_ok_def)
  show "get_ready p fd = Inr (slot p fd)" "get_task p (slot p fd) = Inr (task p (slot p fd))"
    "socket_ok (task p (slot p fd))"
    using b by (simp_all add: get_ready_Inr [OF a] get_task_Inr [OF a] task_ok [OF a])
qed

text \<open>Operations that do not touch a connection's descriptor.\<close>

lemma put_task_same_fd:
  assumes "pool_ok live p" "put_task p i s = Inr p'" "socket_ok s" "m_socket s = m_socket (task p i)"
  shows "pool_ok live p'"
proof -
  have a: "arrays_ok p" using assms by (simp add: pool_ok_def)
  note P = put_task_Inr [OF a assms(2)]
  have "m_socket (task p' j) = m_socket (task p j)" for j
    using P(3) [of j] assms(4) by (auto simp: task_def split: option.splits)
  then show ?thesis
    using assms P(4,5,7,12) slots_ok_frame [of live p p'] by (simp add: pool_ok_def)
qed

lemma send_buf_socket:
  "send_buf K s w = Some (Inr (s', r, w')) \<Longrightarrow> m_socket s' = m_socket s"
  by (auto simp: send_buf_def send_begin_def Let_def split: sum.splits prod.splits option.splits if_splits)

lemma recv_buf_socket:
  "recv_buf K s w = Some (Inr (s', r, w')) \<Longrightarrow> m_socket s' = m_socket s"
  by (auto simp: recv_buf_def Let_def split: option.splits if_splits)

lemma process_socket:
  "process K b s w = Some (Inr (s', w')) \<Longrightarrow> m_socket s' = m_socket s \<and> (socket_ok s \<longrightarrow> socket_ok s')"
  by (auto simp: process_def Let_def split: if_splits
      dest: send_buf_socket recv_buf_socket intro: send_buf_ok recv_buf_ok)

lemma send_now_ok:
  assumes "pool_ok live p" "send_now K tid p w = Some (Inr (p', r, w'))"
  shows "pool_ok live p'"
proof -
  have a: "arrays_ok p" using assms by (simp add: pool_ok_def)
  from assms(2) obtain s s' where "get_task p tid = Inr s" "send_buf K s w = Some (Inr (s', r, w'))"
    "put_task p tid s' = Inr p'"
    by (auto simp: send_now_def split: sum.splits)
  then show ?thesis
    using put_task_same_fd [OF assms(1)] get_task_Inr [OF a] task_ok [OF a] send_buf_ok send_buf_socket
    by metis
qed

lemma run_task_ok:
  assumes "pool_ok live p" "run_task K i p w = Some (Inr (p', w'))"
  shows "pool_ok live p'"
proof -
  have a: "arrays_ok p" using assms by (simp add: pool_ok_def)
  from assms(2) obtain s s' where "get_task p (int i) = Inr s"
    "process K (get_wr_flag s) s w = Some (Inr (s', w'))" "put_task p (int i) s' = Inr p'"
    by (auto simp: run_task_def split: sum.splits)
  then show ?thesis
    using put_task_same_fd [OF assms(1)] get_task_Inr [OF a] task_ok [OF a] process_socket
    by metis
qed

lemma get_undo_task_ok: "pool_ok live p \<Longrightarrow> pool_ok live (snd (get_undo_task p))"
  by (auto simp: get_undo_task_def pool_ok_def arrays_ok_def slots_ok_def slot_def task_def
      inj_on_def split: list.splits option.splits)

lemma pool_ok_undo [simp]:
  "pool_ok live (p\<lparr>m_undo_tasks := us\<rparr>) = pool_ok live p"
  "pool_ok live (p\<lparr>m_thread_pool := tp\<rparr>) = pool_ok live p"
  "pool_ok live (p\<lparr>heap_next := n\<rparr>) = pool_ok live p"
  "pool_ok live (p\<lparr>heap_freed := hs\<rparr>) = pool_ok live p"
  by (simp_all add: pool_ok_def arrays_ok_def slots_ok_def slot_def [abs_def] task_def [abs_def])

lemma get_task_undo [simp]: "get_task (p\<lparr>m_undo_tasks := us\<rparr>) i = get_task p i"
  by (simp add: get_task_def)

text \<open>A message holds at most 128 bytes; longer contents run over the end of its array.\<close>

definition pad :: "nat \<Rightarrow> bytes \<Rightarrow> bytes" where
  "pad n xs = xs @ replicate (n - length xs) 0"

lemma get_msg_cases:
  assumes "socket_ok s"
  shows "get_msg s (replicate RECV_MSG_SIZE 0) =
     (if length (contents (m_recv_buf s)) \<le> 128
      then Inr (pad 128 (contents (m_recv_buf s)), m_length (m_recv_buf s)) else Inl OutOfBounds)"
  using assms
  by (auto simp: get_msg_def get_buf_def memcpy_def socket_ok_def buffer_ok_def contents_def pad_def
      RECV_MSG_SIZE_def)

definition undo_message :: "int \<Rightarrow> buf_ref \<Rightarrow> tcp_socket \<Rightarrow> message" where
  "undo_message tid ref s =
     \<lparr>task_id = tid, recv_msg_data = pad 128 (contents (m_recv_buf s)),
      recv_msg_length = m_length (m_recv_buf s), send_msg_ref = ref\<rparr>"

lemma add_undo_task_cases:
  assumes "socket_ok s"
  shows "add_undo_task tid ref s p =
     (if length (contents (m_recv_buf s)) \<le> 128
      then Inr (get_send_buf_len_addr s, p\<lparr>m_undo_tasks := m_undo_tasks p @ [undo_message tid ref s]\<rparr>)
      else Inl (Mem OutOfBounds))"
  by (simp add: add_undo_task_def get_msg_cases [OF assms] undo_message_def)

text \<open>
  \<open>recv_msg\<close> on a used slot, in closed form: the message it queues is made from what the
  receive buffer holds now, before any thread has read from the connection.
\<close>

lemma recv_msg_cases:
  assumes ok: "pool_ok live p" and fd: "fd \<in> live"
  defines "i \<equiv> slot p fd"
  defines "s \<equiv> set_wr_flag READ_OP (task p i)"
  shows "if length (contents (m_recv_buf (task p i))) \<le> 128
    then \<exists>p1 p'. put_task p i s = Inr p1 \<and>
       put_task (p1\<lparr>m_undo_tasks := m_undo_tasks p @ [undo_message i (SlotBuf (nat i)) (task p i)]\<rparr>) i
         (get_send_buf_len_addr s) = Inr p' \<and>
       recv_msg fd p = Inr (p'\<lparr>m_thread_pool := fst (append_req (Some (nat i)) (m_thread_pool p))\<rparr>, 0)
    else recv_msg fd p = Inl (Mem OutOfBounds)"
proof -
  note L = live_slot [OF ok fd, folded i_def]
  have a: "arrays_ok p" using ok by (simp add: pool_ok_def)
  obtain p1 where p1: "put_task p i s = Inr p1" using put_task_ex [OF a L(3,4)] by blast
  have sok: "socket_ok s" using L(8) by (simp add: s_def)
  note P = put_task_Inr [OF a p1]
  have a1: "arrays_ok p1" using P(12) [OF sok] .
  have rt: "m_recv_tasks p1 = []" using P(7) ok by (simp add: pool_ok_def)
  have t1: "get_task p1 i = Inr s"
    using get_task_Inr [OF a1] L(3,4) P(3) [of i] by auto
  have same: "contents (m_recv_buf s) = contents (m_recv_buf (task p i))"
    "undo_message i r s = undo_message i r (task p i)" for r
    by (simp_all add: s_def set_wr_flag_def undo_message_def)
  have g: "get_task (p1\<lparr>m_recv_tasks := [i]\<rparr>) i = Inr s" using t1 by (simp add: get_task_def)
  have gr: "get_recv_task (p1\<lparr>m_recv_tasks := m_recv_tasks p1 @ [i]\<rparr>) = Inr (Some i, p1)"
    using rt g by (simp add: get_recv_task_def)
  have ar: "add_recv_task i p1 = bind_res (add_undo_task i (SlotBuf (nat i)) s p1) (\<lambda>(s', p2). put_task p2 i s')"
    by (simp add: add_recv_task_def gr t1)
  have rm: "recv_msg fd p = bind_res (add_recv_task i p1) (\<lambda>p2.
       Inr (p2\<lparr>m_thread_pool := fst (append_req (Some (nat i)) (m_thread_pool p2))\<rparr>, 0))"
    using L(6,7) p1 by (simp add: recv_msg_def i_def s_def)
  show ?thesis
  proof (cases "length (contents (m_recv_buf (task p i))) \<le> 128")
    case True
    let ?p2 = "p1\<lparr>m_undo_tasks := m_undo_tasks p1 @ [undo_message i (SlotBuf (nat i)) (task p i)]\<rparr>"
    have a2: "arrays_ok ?p2" using a1 by (simp add: arrays_ok_def)
    obtain p3 where p3: "put_task ?p2 i (get_send_buf_len_addr s) = Inr p3"
      using put_task_ex [OF a2 L(3,4)] by blast
    have "m_thread_pool p3 = m_thread_pool p"
      using put_task_Inr(8) [OF a2 p3] P(8) by simp
    then show ?thesis
      using True p1 p3 rm ar P(6) by (simp add: add_undo_task_cases [OF sok] same)
  next
    case False
    then show ?thesis
      using rm ar by (simp add: add_undo_task_cases [OF sok] same)
  qed
qed

lemma recv_msg_ok:
  assumes "pool_ok live p" "fd \<in> live" "recv_msg fd p = Inr (p', r)"
  shows "pool_ok live p' \<and> r = 0"
proof -
  let ?i = "slot p fd"
  have a: "arrays_ok p" using assms by (simp add: pool_ok_def)
  note L = live_slot [OF assms(1,2)]
  from recv_msg_cases [OF assms(1,2)] assms(3) obtain p1 p2 us tp where
    p1: "put_task p ?i (set_wr_flag READ_OP (task p ?i)) = Inr p1" and
    p2: "put_task (p1\<lparr>m_undo_tasks := us\<rparr>) ?i
        (get_send_buf_len_addr (set_wr_flag READ_OP (task p ?i))) = Inr p2" and
    eq: "p' = p2\<lparr>m_thread_pool := tp\<rparr>" "r = 0"
    by (auto split: if_splits)
  have ok1: "pool_ok live p1"
    by (rule put_task_same_fd [OF assms(1) p1]) (use L(8) in \<open>simp_all add: set_wr_flag_def socket_ok_def\<close>)
  have t1: "task p1 ?i = set_wr_flag READ_OP (task p ?i)"
    using put_task_Inr(3) [OF a p1, of ?i] by simp
  have "pool_ok live p2"
    by (rule put_task_same_fd [OF _ p2])
      (use L(8) ok1 t1 in \<open>simp_all add: task_def get_send_buf_len_addr_def\<close>)
  with eq show ?thesis by simp
qed

text \<open>Opening a connection takes one free slot, whatever the descriptor table held before.\<close>

lemma take_slot_ok:
  assumes ok: "pool_ok live p" and fresh: "fd \<notin> live" and free: "m_free_tasks p = i # is"
    and p2: "put_ready (p\<lparr>m_free_tasks := is\<rparr>) fd i = Inr p2"
    and p3: "put_task p2 i (set_fd fd (task p2 i)) = Inr p3"
  shows "pool_ok (insert fd live) p3 \<and> slot p3 fd = i \<and> i \<in> set (m_free_tasks p)"
proof -
  let ?p1 = "p\<lparr>m_free_tasks := is\<rparr>"
  have a1: "arrays_ok ?p1" using ok by (simp add: pool_ok_def arrays_ok_def)
  note R = put_ready_Inr [OF a1 p2]
  note T = put_task_Inr [OF R(8) p3]
  have s1: "slot ?p1 = slot p" "task ?p1 = task p" by (simp_all add: slot_def [abs_def] task_def [abs_def])
  have S: "slots_ok live p" using ok by (simp add: pool_ok_def)
  have fin: "finite live" using S by (meson finite_atLeastLessThan_int finite_subset slots_ok_def)
  have slot3: "slot p3 x = (if x = fd then i else slot p x)" if "0 \<le> x" for x
    using R(3) [OF that] T(4) s1 by simp
  have pos: "0 \<le> x" if "x \<in> insert fd live" for x
    using that S R(1) by (auto simp: slots_ok_def)
  have ib: "0 \<le> i" "i < 100" "i \<notin> set is" "distinct is" "set is \<subseteq> {0..<100}"
    using S free by (auto simp: slots_ok_def)
  have used: "slot p x \<noteq> i" "slot p x \<notin> set is" "0 \<le> slot p x" "slot p x < 100" if "x \<in> live" for x
    using S free that by (auto simp: slots_ok_def)
  have "inj_on (slot p3) (insert fd live)"
    using S used slot3 pos fresh by (auto simp: slots_ok_def inj_on_def)
  moreover have "m_socket (task p3 (slot p3 x)) = x" if "x \<in> insert fd live" for x
  proof (cases "x = fd")
    case True
    then show ?thesis using T(3) slot3 [of fd] R(1) by (simp add: set_fd_def)
  next
    case False
    then have "x \<in> live" using that by simp
    then have "nat (slot p x) \<noteq> nat i" using used [of x] ib by (simp add: eq_nat_nat_iff)
    then show ?thesis
      using False that T(3) slot3 [OF pos [OF that]] R(4) s1 S by (auto simp: slots_ok_def)
  qed
  moreover have "slot p3 x \<in> {0..<100} - set is" if "x \<in> insert fd live" for x
    using that slot3 [OF pos [OF that]] used ib by auto
  moreover have "length is + card (insert fd live) = 100"
    using S free fin fresh by (simp add: slots_ok_def)
  moreover have "socket_ok (set_fd fd (task p2 i))"
    using task_ok [OF R(8) ib(1,2)] by simp
  ultimately have "pool_ok (insert fd live) p3"
    using T(5,7,12) R(1,2,5,7) S ib ok by (auto simp: pool_ok_def slots_ok_def)
  then show ?thesis using slot3 [of fd] R(1) free by simp
qed

lemma add_connect_ok:
  assumes "pool_ok live p" "add_connect K p w = Inr (p', b, w')"
    and fd: "fd = fst (k_accept K w (m_listen_fd p))" "fd \<notin> live"
  shows "if b then pool_ok (insert fd live) p' \<and> slot p' fd = hd (m_free_tasks p) \<and> m_free_tasks p \<noteq> []
         else p' = p"
proof -
  obtain err w1 where acc: "k_accept K w (m_listen_fd p) = (fd, err, w1)"
    using fd(1) by (metis fst_conv surj_pair)
  have a: "arrays_ok p" using assms by (simp add: pool_ok_def)
  show ?thesis
  proof (cases "b")
    case False
    then show ?thesis
      using assms(1,2) acc
      by (auto simp: add_connect_def is_free_tasks_empty_def get_free_task_def pool_ok_def slots_ok_def
          Let_def split: prod.splits if_splits list.splits)
  next
    case True
    then obtain i "is" p2 s where free: "m_free_tasks p = i # is"
      and p2: "put_ready (p\<lparr>m_free_tasks := is\<rparr>) fd i = Inr p2" and gt: "get_task p2 i = Inr s"
      and p3: "put_task p2 i (set_fd fd s) = Inr p'"
      using assms(2) acc
      by (auto simp: add_connect_def is_free_tasks_empty_def get_free_task_def Let_def
          split: prod.splits if_splits list.splits)
    have "arrays_ok (p\<lparr>m_free_tasks := is\<rparr>)" using a by (simp add: arrays_ok_def)
    then have "arrays_ok p2" using put_ready_Inr(8) p2 by blast
    then have "s = task p2 i" using gt by (simp add: get_task_Inr)
    then show ?thesis using take_slot_ok [OF assms(1) fd(2) free p2] p3 free True by simp
  qed
qed

text \<open>Closing a connection gives its slot back.\<close>

lemma close_connect_ok:
  assumes ok: "pool_ok live p" and fd: "fd \<in> live"
    and cc: "close_connect K mem1 mem2 fd p w = Inr (p', b, w')"
  shows "b \<and> pool_ok (live - {fd}) p' \<and> m_free_tasks p' = slot p fd # m_free_tasks p \<and>
     (\<exists>u. m_undo_tasks p' = m_undo_tasks p @ [u] \<and> send_msg_ref u = HeapBuf (heap_next p) \<and>
        task_id u = slot p fd) \<and> heap_next p \<in> set (heap_freed p')"
proof -
  let ?i = "slot p fd"
  note L = live_slot [OF ok fd]
  have a: "arrays_ok p" and S: "slots_ok live p" using ok by (simp_all add: pool_ok_def)
  obtain s' where rs: "reset (task p ?i) = Inr (s', True)" and sok: "socket_ok s'"
    using reset_ok [OF L(8)] by blast
  obtain r w1 where ctl: "k_epoll_ctl K w CtlDel fd = (r, w1)" by (cases "k_epoll_ctl K w CtlDel fd")
  from cc ctl L(6,7) rs obtain p1 d n where p1: "put_task p ?i s' = Inr p1" and b: "b"
    and p': "p' = p1\<lparr>heap_next := heap_next p1 + 1,
        m_undo_tasks := m_undo_tasks p1 @ [\<lparr>task_id = ?i, recv_msg_data = d, recv_msg_length = n,
          send_msg_ref = HeapBuf (heap_next p1)\<rparr>],
        m_free_tasks := ?i # m_free_tasks p1, heap_freed := heap_next p1 # heap_freed p1\<rparr>"
    by (auto simp: close_connect_def add_undo_task_def push_free_task_def split: prod.splits if_splits)
  note P = put_task_Inr [OF a p1]
  have slot': "slot p' = slot p" and task': "task p' = task p1"
    and free': "m_free_tasks p' = ?i # m_free_tasks p"
    using p' P(4,5) by (simp_all add: slot_def [abs_def] task_def [abs_def])
  have fin: "finite live" using S by (meson finite_atLeastLessThan_int finite_subset slots_ok_def)
  have card: "card live = Suc (card (live - {fd}))" using fin fd by (rule card.remove)
  have other: "slot p x \<noteq> ?i" if "x \<in> live - {fd}" for x
    using S fd that by (auto simp: slots_ok_def inj_on_def)
  have "m_socket (task p' (slot p' x)) = x" if "x \<in> live - {fd}" for x
  proof -
    have "nat (slot p x) \<noteq> nat ?i" using other [OF that] L(3) S that by (auto simp: slots_ok_def)
    then show ?thesis using that S P(3) task' slot' by (auto simp: slots_ok_def)
  qed
  moreover have "slot p' x \<in> {0..<100} - set (m_free_tasks p')" if "x \<in> live - {fd}" for x
    using that other [OF that] S free' slot' by (auto simp: slots_ok_def)
  moreover have "inj_on (slot p') (live - {fd})"
    using S slot' by (auto simp: slots_ok_def intro: inj_on_subset)
  moreover have "distinct (m_free_tasks p')" "set (m_free_tasks p') \<subseteq> {0..<100}"
    using S L(3-5) free' by (auto simp: slots_ok_def)
  moreover have "length (m_free_tasks p') + card (live - {fd}) = 100"
    using S card free' by (simp add: slots_ok_def)
  ultimately have "slots_ok (live - {fd}) p'"
    using S by (auto simp: slots_ok_def)
  moreover have "arrays_ok p'" using P(12) [OF sok] p' by (simp add: arrays_ok_def)
  moreover have "m_recv_tasks p' = []" using P(7) p' ok by (simp add: pool_ok_def)
  ultimately have "pool_ok (live - {fd}) p'" by (simp add: pool_ok_def)
  then show ?thesis using b free' p' P(6,9) by auto
qed

section \<open>A running server\<close>

text \<open>
  One operation on the table by the main thread or a pool thread, with the set of open
  connections. \<open>accept\<close> hands out a descriptor that no open connection has. Only runs without a
  fault appear: a fault ends the program.
\<close>

inductive serve :: "'w kernel \<Rightarrow> int set \<times> task_pool \<Rightarrow> int set \<times> task_pool \<Rightarrow> bool" for K where
  serve_connect: "fst (k_accept K w (m_listen_fd p)) = fd \<Longrightarrow> fd \<notin> live \<Longrightarrow>
    add_connect K p w = Inr (p', b, w') \<Longrightarrow> serve K (live, p) (if b then insert fd live else live, p')"
| serve_close: "fd \<in> live \<Longrightarrow> close_connect K mem1 mem2 fd p w = Inr (p', b, w') \<Longrightarrow>
    serve K (live, p) (live - {fd}, p')"
| serve_recv: "fd \<in> live \<Longrightarrow> recv_msg fd p = Inr (p', r) \<Longrightarrow> serve K (live, p) (live, p')"
| serve_run: "run_task K i p w = Some (Inr (p', w')) \<Longrightarrow> serve K (live, p) (live, p')"
| serve_send: "send_now K tid p w = Some (Inr (p', r, w')) \<Longrightarrow> serve K (live, p) (live, p')"
| serve_pull: "get_undo_task p = (m, p') \<Longrightarrow> serve K (live, p) (live, p')"

lemma new_tasks_ok:
  assumes "\<And>k. length (mem k) = BUFFER_SIZE"
  shows "\<exists>ts. new_tasks mem n = Inr ts \<and> length ts = n \<and> (\<forall>s \<in> set ts. socket_ok s)"
proof (induction n)
  case (Suc n)
  then show ?case
    using TcpSocket_new_ok [of "mem (2 * n)" "mem (2 * n + 1)"] assms by force
qed simp

definition booted :: "init_env \<Rightarrow> nat thread_pool \<Rightarrow> task_pool \<Rightarrow> bool" where
  "booted env tp p \<longleftrightarrow> (\<forall>k. length (e_mem env k) = BUFFER_SIZE) \<and> init env (TcpTaskPool_new tp) = Inr (p, True)"

lemma booted_ok:
  assumes "booted env tp p"
  shows "pool_ok {} p"
proof -
  obtain ts where "new_tasks (e_mem env) 100 = Inr ts" "length ts = 100" "\<forall>s \<in> set ts. socket_ok s"
    using new_tasks_ok [of "e_mem env" 100] assms by (auto simp: booted_def)
  then show ?thesis
    using assms
    by (auto simp: booted_def init_def TcpTaskPool_new_def pool_ok_def arrays_ok_def slots_ok_def Let_def
        distinct_map split: if_splits)
qed

lemma serve_inv: "serve K x y \<Longrightarrow> pool_ok (fst x) (snd x) \<Longrightarrow> pool_ok (fst y) (snd y)"
proof (induction rule: serve.induct)
  case (serve_connect w p fd live p' b w')
  then show ?case using add_connect_ok [of live p K w p' b w' fd] by (auto split: if_splits)
next
  case (serve_close fd live mem1 mem2 p w p' b w')
  then show ?case using close_connect_ok [of live p fd K mem1 mem2 w p' b w'] by auto
next
  case (serve_recv fd live p p' r)
  then show ?case using recv_msg_ok by auto
next
  case (serve_pull p m p' live)
  then show ?case using get_undo_task_ok [of live p] by simp
qed (auto intro: run_task_ok send_now_ok)

interpretation tasks: inv_system "serve K" "\<lambda>x. fst x = {} \<and> (\<exists>env tp. booted env tp (snd x))"
  "\<lambda>x. pool_ok (fst x) (snd x)"
  by unfold_locales (auto intro: booted_ok dest: serve_inv)

section \<open>Properties\<close>

text \<open>
  A server that was just started with blank memory and has accepted one connection on
  descriptor 7.
\<close>

definition blank_mem :: bytes where "blank_mem = replicate BUFFER_SIZE 0"

definition blank_buffer :: buffer where
  "blank_buffer = \<lparr>m_buf = 0x31 # replicate 10239 0, m_length = 1\<rparr>"

definition blank_socket :: tcp_socket where
  "blank_socket =
     \<lparr>m_socket = 0, m_task_id = -1, m_send_pos = 6, m_reference_count = 1, m_flag = READ_OP,
      m_send_buf = blank_buffer, m_recv_buf = blank_buffer\<rparr>"

definition demo_env :: init_env where
  "demo_env = \<lparr>e_socket = 3, e_setsockopt = 0, e_bind = 0, e_listen = 0, e_epoll_create = 4,
     e_epoll_ctl = 0, e_mem = (\<lambda>_. blank_mem)\<rparr>"

definition demo_threads :: "nat thread_pool" where
  "demo_threads = \<lparr>m_thread_number = 9, m_max_requests = 10000, m_workqueue = [], m_queuestat = 0,
     m_stop = False\<rparr>"

definition demo_tasks :: task_pool where
  "demo_tasks =
     \<lparr>m_tcp_tasks = Some (replicate 100 blank_socket), m_ready_list = Some (replicate 100 (-1)),
      m_free_tasks = rev (map int [0..<100]), m_undo_tasks = [], m_recv_tasks = [], m_listen_fd = 3,
      m_epoll_fd = 4, m_thread_pool = demo_threads, heap_next = 0, heap_freed = []\<rparr>"

definition demo_script :: script where
  "demo_script = \<lparr>s_in = [], s_out = [], s_sizes = [], s_flags = 0\<rparr>"

lemma blank_socket_new: "TcpSocket_new blank_mem blank_mem = Inr blank_socket"
  by (simp add: TcpSocket_new_def Buffer_new_def memcpy_def blank_socket_def blank_buffer_def blank_mem_def)

lemma blank_tasks: "new_tasks (\<lambda>_. blank_mem) n = Inr (replicate n blank_socket)"
  by (induction n) (simp_all add: blank_socket_new replicate_append_same)

lemma demo_booted: "booted demo_env demo_threads demo_tasks"
proof -
  have "length blank_mem = BUFFER_SIZE" by (simp add: blank_mem_def)
  then show ?thesis
    by (simp add: booted_def init_def demo_env_def TcpTaskPool_new_def blank_tasks demo_tasks_def)
qed

definition demo_connected :: task_pool where
  "demo_connected =
     demo_tasks\<lparr>m_tcp_tasks := Some ((replicate 100 blank_socket)[99 := set_fd 7 blank_socket]),
       m_ready_list := Some ((replicate 100 (-1))[7 := 99]),
       m_free_tasks := rev (map int [0..<99])\<rparr>"

lemma demo_add_connect:
  "add_connect script_kernel demo_tasks demo_script =
     Inr (demo_connected, True, snd (set_nonblocking script_kernel 7 demo_script))"
proof -
  have "rev (map int [0..<100]) = 99 # rev (map int [0..<99])"
    using upt_Suc_append [of 0 99] by simp
  then show ?thesis
    by (simp add: add_connect_def demo_tasks_def script_kernel_def is_free_tasks_empty_def
        get_free_task_def put_ready_def put_task_def get_task_def array_set_def array_get_def demo_connected_def)
qed

lemma demo_serve: "serve script_kernel ({}, demo_tasks) ({7}, demo_connected)"
  using serve_connect [of script_kernel demo_script demo_tasks 7 "{}" demo_connected True]
    demo_add_connect by (simp add: script_kernel_def)

lemma demo_connected_ok: "pool_ok {7} demo_connected"
  using serve_inv [OF demo_serve] booted_ok [OF demo_booted] by simp

text \<open>
  C10. The connection table never mixes connections up. In every state a started server can reach,
  each open connection has its own slot, the slot's connection object has that connection's
  descriptor, no slot is at once free and in use, no slot is twice on the free stack, and free
  slots and open connections together are the 100 slots.
\<close>

theorem slots_exclusive:
  assumes "booted env tp p0" and "(serve K)\<^sup>*\<^sup>* ({}, p0) (live, p)"
  shows "inj_on (slot p) live \<and>
    (\<forall>fd \<in> live. get_ready p fd = Inr (slot p fd) \<and> slot p fd \<notin> set (m_free_tasks p) \<and>
       (\<exists>s. get_task p (slot p fd) = Inr s \<and> m_socket s = fd)) \<and>
    distinct (m_free_tasks p) \<and> length (m_free_tasks p) + card live = MAX_TASK"
proof -
  have ok: "pool_ok live p" using tasks.reach_inv [of "({}, p0)" K "(live, p)"] assms by auto
  then have "slots_ok live p" by (simp add: pool_ok_def)
  then show ?thesis
    using live_slot [OF ok] by (auto simp: slots_ok_def)
qed

theorem slots_exclusive_witness:
  "booted demo_env demo_threads demo_tasks \<and>
   (serve script_kernel)\<^sup>*\<^sup>* ({}, demo_tasks) ({7}, demo_connected) \<and>
   slot demo_connected 7 \<notin> set (m_free_tasks demo_connected) \<and>
   length (m_free_tasks demo_connected) + card {7 :: int} = MAX_TASK"
proof -
  have r: "(serve script_kernel)\<^sup>*\<^sup>* ({}, demo_tasks) ({7}, demo_connected)"
    using demo_serve by (rule r_into_rtranclp)
  show ?thesis using demo_booted r slots_exclusive [OF demo_booted r] by auto
qed

text \<open>
  C24. \<open>recv_msg\<close> queues for the application what the receive buffer held before the pool thread
  reads the connection, not the data that has just arrived; if that is more than the 128 bytes of
  a message, the copy overruns the message.
\<close>

theorem recv_msg_stale:
  assumes "pool_ok live p" and "fd \<in> live"
  shows "if length (contents (m_recv_buf (task p (slot p fd)))) \<le> RECV_MSG_SIZE
    then \<exists>p' m. recv_msg fd p = Inr (p', 0) \<and> m_undo_tasks p' = m_undo_tasks p @ [m] \<and>
      task_id m = slot p fd \<and> send_msg_ref m = SlotBuf (nat (slot p fd)) \<and>
      take (unat (recv_msg_length m)) (recv_msg_data m) = contents (m_recv_buf (task p (slot p fd)))
    else recv_msg fd p = Inl (Mem OutOfBounds)"
proof (cases "length (contents (m_recv_buf (task p (slot p fd)))) \<le> 128")
  case True
  let ?i = "slot p fd"
  let ?m = "undo_message ?i (SlotBuf (nat ?i)) (task p ?i)"
  have a: "arrays_ok p" using assms by (simp add: pool_ok_def)
  have sok: "socket_ok (task p ?i)" using live_slot(8) [OF assms] .
  obtain p1 p2 where p1: "put_task p ?i (set_wr_flag READ_OP (task p ?i)) = Inr p1"
    and p2: "put_task (p1\<lparr>m_undo_tasks := m_undo_tasks p @ [?m]\<rparr>) ?i
        (get_send_buf_len_addr (set_wr_flag READ_OP (task p ?i))) = Inr p2"
    and r: "recv_msg fd p = Inr (p2\<lparr>m_thread_pool := fst (append_req (Some (nat ?i)) (m_thread_pool p))\<rparr>, 0)"
    using recv_msg_cases [OF assms] True by auto
  have "arrays_ok p1" using put_task_Inr(12) [OF a p1] sok by simp
  then have "arrays_ok (p1\<lparr>m_undo_tasks := m_undo_tasks p @ [?m]\<rparr>)" by (simp add: arrays_ok_def)
  then have "m_undo_tasks p2 = m_undo_tasks p @ [?m]" using put_task_Inr(6) p2 by fastforce
  moreover have "take (unat (recv_msg_length ?m)) (recv_msg_data ?m) = contents (m_recv_buf (task p ?i))"
    using True sok by (simp add: undo_message_def socket_ok_def buffer_ok_def contents_def pad_def)
  moreover have "task_id ?m = ?i" "send_msg_ref ?m = SlotBuf (nat ?i)"
    by (simp_all add: undo_message_def)
  ultimately show ?thesis using r True by (auto simp: RECV_MSG_SIZE_def)
next
  case False
  then show ?thesis using recv_msg_cases [OF assms] by (simp add: RECV_MSG_SIZE_def)
qed
lemma demo_slot: "slot demo_connected 7 = 99" "task demo_connected 99 = set_fd 7 blank_socket"
  by (simp_all add: slot_def task_def demo_connected_def)

lemma demo_recv_contents: "contents (m_recv_buf (set_fd fd blank_socket)) = [0x31]"
  by (simp add: set_fd_def blank_socket_def blank_buffer_def contents_def)

theorem recv_msg_stale_witness:
  "pool_ok {7} demo_connected \<and> (7 :: int) \<in> {7} \<and>
   (\<exists>p' m. recv_msg 7 demo_connected = Inr (p', 0) \<and> m_undo_tasks p' = m_undo_tasks demo_connected @ [m] \<and>
      take (unat (recv_msg_length m)) (recv_msg_data m) = [0x31])"
  using demo_connected_ok recv_msg_stale [OF demo_connected_ok, of 7]
  by (auto simp: demo_slot demo_recv_contents RECV_MSG_SIZE_def)

text \<open>
  The table of slots is indexed by descriptor but has only 100 entries: a connection whose
  descriptor is 100 or more is stored outside the table, although a slot is free.
\<close>

theorem add_connect_high_fd:
  assumes "pool_ok live p" and "m_free_tasks p \<noteq> []"
    and "k_accept K w (m_listen_fd p) = (fd, err, w1)" and "int MAX_TASK \<le> fd"
    and "fst (k_epoll_ctl K (snd (set_nonblocking K fd w1)) CtlAdd fd) = 0"
  shows "add_connect K p w = Inl (Mem OutOfBounds)"
proof -
  obtain w2 where "k_epoll_ctl K (snd (set_nonblocking K fd w1)) CtlAdd fd = (0, w2)"
    using assms(5) by (metis prod.collapse)
  moreover have "put_ready (snd (get_free_task p)) fd i = Inl (Mem OutOfBounds)" for i
    using assms(1,2,4)
    by (auto simp: put_ready_def array_set_def pool_ok_def arrays_ok_def get_free_task_def
        split: option.splits list.splits)
  ultimately show ?thesis
    using assms(2-4) by (simp add: add_connect_def is_free_tasks_empty_def split_beta)
qed

definition high_kernel :: "script kernel" where
  "high_kernel = script_kernel\<lparr>k_accept := (\<lambda>s fd. (100, 0, s))\<rparr>"

theorem add_connect_high_fd_witness:
  "pool_ok {7} demo_connected \<and> length (m_free_tasks demo_connected) = 99 \<and>
   add_connect high_kernel demo_connected demo_script = Inl (Mem OutOfBounds)"
proof -
  have n: "length (m_free_tasks demo_connected) = 99" by (simp add: demo_connected_def)
  then have "m_free_tasks demo_connected \<noteq> []" by (metis list.size(3) zero_neq_numeral)
  then show ?thesis
    using n demo_connected_ok
      add_connect_high_fd [of "{7}" demo_connected high_kernel demo_script 100 0 demo_script]
    by (simp add: high_kernel_def script_kernel_def)
qed

lemma close_connect_runs:
  assumes ok: "pool_ok live p" and fd: "fd \<in> live"
    and mem: "length mem1 = BUFFER_SIZE" "length mem2 = BUFFER_SIZE"
    and ctl: "fst (k_epoll_ctl K w CtlDel fd) \<noteq> -1"
  shows "\<exists>p' w' u. close_connect K mem1 mem2 fd p w = Inr (p', True, w') \<and>
    m_undo_tasks p' = m_undo_tasks p @ [undo_message (slot p fd) (HeapBuf (heap_next p)) u] \<and>
    socket_ok u \<and> contents (m_recv_buf u) = [0x31]"
proof -
  note L = live_slot [OF ok fd]
  obtain s' where rs: "reset (task p (slot p fd)) = Inr (s', True)"
    using reset_ok [OF L(8)] by blast
  have a: "arrays_ok p" using ok by (simp add: pool_ok_def)
  obtain p1 where p1: "put_task p (slot p fd) s' = Inr p1" using put_task_ex [OF a L(3,4)] by blast
  obtain u where u: "TcpSocket_new mem1 mem2 = Inr u" "socket_ok u" "contents (m_recv_buf u) = [0x31]"
    using TcpSocket_new_ok [OF mem] by blast
  obtain r w1 where "k_epoll_ctl K w CtlDel fd = (r, w1)" by (cases "k_epoll_ctl K w CtlDel fd")
  then show ?thesis
    using L(6,7) rs p1 u ctl put_task_Inr(6,9) [OF a p1]
    by (auto simp: close_connect_def add_undo_task_cases push_free_task_def)
qed

text \<open>
  C22. Closing an open connection always succeeds, gives the connection's slot back exactly once,
  and queues for the application a close event that points at the send buffer of an object
  that is already deleted.
\<close>

theorem close_connect_event:
  assumes "pool_ok live p" and "fd \<in> live"
    and "length mem1 = BUFFER_SIZE" and "length mem2 = BUFFER_SIZE"
    and "fst (k_epoll_ctl K w CtlDel fd) \<noteq> -1"
  shows "\<exists>p' w'. close_connect K mem1 mem2 fd p w = Inr (p', True, w') \<and>
    pool_ok (live - {fd}) p' \<and> m_free_tasks p' = slot p fd # m_free_tasks p \<and>
    (\<exists>m h. m_undo_tasks p' = m_undo_tasks p @ [m] \<and> task_id m = slot p fd \<and>
       send_msg_ref m = HeapBuf h \<and> h \<in> set (heap_freed p'))"
proof -
  obtain p' w' where c: "close_connect K mem1 mem2 fd p w = Inr (p', True, w')"
    using close_connect_runs [OF assms] by blast
  show ?thesis using c close_connect_ok [OF assms(1,2) c] by blast
qed

theorem close_connect_event_witness:
  "\<exists>p' w'. close_connect script_kernel blank_mem blank_mem 7 demo_connected demo_script = Inr (p', True, w') \<and>
     pool_ok {} p' \<and> m_free_tasks p' = 99 # m_free_tasks demo_connected"
proof -
  have "length blank_mem = BUFFER_SIZE" by (simp add: blank_mem_def)
  then show ?thesis
    using close_connect_event [OF demo_connected_ok, of 7 blank_mem blank_mem script_kernel demo_script]
    by (auto simp: script_kernel_def demo_slot)
qed

end
