(* ===== verification/Net_Work.thy ===== *)
theory Net_Work
  imports Net_Task_Pool
begin

unbundle bit_operations_syntax

text \<open>
  The network front end (net/net_work.h, net/net_work.cpp) and the echo server that uses it
  (net/main.cpp): the epoll event loop, the two calls of the application and its main loop.
\<close>

section \<open>The event loop\<close>

definition EPOLLIN :: u32 where "EPOLLIN = 0x001"
definition EPOLLOUT :: u32 where "EPOLLOUT = 0x004"
definition EPOLLERR :: u32 where "EPOLLERR = 0x008"
definition EPOLLHUP :: u32 where "EPOLLHUP = 0x010"
definition EPOLLRDHUP :: u32 where "EPOLLRDHUP = 0x2000"

record epoll_event =
  events :: u32
  data_fd :: int

definition failed :: "epoll_event \<Rightarrow> bool" where
  "failed ev \<longleftrightarrow> events ev AND (EPOLLRDHUP OR EPOLLERR OR EPOLLHUP) \<noteq> 0"

text \<open>
  The body of the inner loop. \<open>heap\<close> gives the memory of the objects that \<open>close_connect\<close>
  allocates. Output events and other events change nothing.
\<close>

definition handle_event ::
  "'w kernel \<Rightarrow> (nat \<Rightarrow> bytes \<times> bytes) \<Rightarrow> epoll_event \<Rightarrow> task_pool \<Rightarrow> 'w \<Rightarrow> pool_error + (task_pool \<times> 'w)" where
  "handle_event K heap ev p w =
     (let close = (\<lambda>p. bind_res (case heap (heap_next p) of (m1, m2) \<Rightarrow> close_connect K m1 m2 (data_fd ev) p w)
                     (\<lambda>(p', _, w'). Inr (p', w')))
      in if failed ev then close p
      else if events ev AND EPOLLIN \<noteq> 0 then
        (if data_fd ev = get_listen p
         then bind_res (add_connect K p w) (\<lambda>(p', _, w'). Inr (p', w'))
         else bind_res (recv_msg (data_fd ev) p) (\<lambda>(p', r). if r = -1 then close p' else Inr (p', w)))
      else Inr (p, w))"

fun handle_events ::
  "'w kernel \<Rightarrow> (nat \<Rightarrow> bytes \<times> bytes) \<Rightarrow> epoll_event list \<Rightarrow> task_pool \<Rightarrow> 'w \<Rightarrow> pool_error + (task_pool \<times> 'w)" where
  "handle_events K heap [] p w = Inr (p, w)"
| "handle_events K heap (ev # evs) p w =
     bind_res (handle_event K heap ev p w) (\<lambda>(p', w'). handle_events K heap evs p' w')"

text \<open>
  One turn of the outer loop: \<open>epoll_wait\<close> returns the number of events, \<open>errno\<close> and the events.
  \<open>run\<close> never returns normally; \<open>run_turns\<close> is its state after a number of turns.
\<close>

type_synonym 'w epoll_wait = "'w \<Rightarrow> int \<Rightarrow> nat \<Rightarrow> int \<times> int \<times> epoll_event list \<times> 'w"

definition run_turn ::
  "'w kernel \<Rightarrow> 'w epoll_wait \<Rightarrow> (nat \<Rightarrow> bytes \<times> bytes) \<Rightarrow> task_pool \<Rightarrow> 'w \<Rightarrow> pool_error + (task_pool \<times> 'w)" where
  "run_turn K wait heap p w =
     (case wait w (get_epoll p) MAX_EVENTS of
        (nfds, err, evs, w') \<Rightarrow>
          if nfds = -1 \<and> err \<noteq> EINTR then Inl ExitFailure
          else handle_events K heap (take (nat nfds) evs) p w')"

fun run_turns ::
  "'w kernel \<Rightarrow> 'w epoll_wait \<Rightarrow> (nat \<Rightarrow> bytes \<times> bytes) \<Rightarrow> nat \<Rightarrow> task_pool \<Rightarrow> 'w \<Rightarrow> pool_error + (task_pool \<times> 'w)" where
  "run_turns K wait heap 0 p w =
     (if get_epoll p = -1 \<or> get_listen p = -1 then Inl ExitFailure else Inr (p, w))"
| "run_turns K wait heap (Suc n) p w =
     bind_res (run_turns K wait heap n p w) (\<lambda>(p', w'). run_turn K wait heap p' w')"

section \<open>The calls of the application\<close>

text \<open>
  \<open>pull_msg\<close> returns the task id, the caller's memory with the received bytes and its length,
  and the reference to the reply buffer; \<open>None\<close> stands for the result -1. \<open>push_msg\<close> sends the
  reply and always returns -1.
\<close>

definition pull_msg ::
  "bytes \<Rightarrow> task_pool \<Rightarrow> pool_error + ((int \<times> bytes \<times> u32 \<times> buf_ref) option \<times> task_pool)" where
  "pull_msg undo_msg p =
     (case get_undo_task p of
        (None, p') \<Rightarrow> Inr (None, p')
      | (Some m, p') \<Rightarrow>
          bind_res (lift_mem (memcpy undo_msg 0 (recv_msg_data m) 0 (unat (recv_msg_length m)))) (\<lambda>undo_msg'.
            Inr (Some (task_id m, undo_msg', recv_msg_length m, send_msg_ref m), p')))"

definition push_msg ::
  "'w kernel \<Rightarrow> int \<Rightarrow> task_pool \<Rightarrow> 'w \<Rightarrow> (pool_error + (task_pool \<times> int \<times> 'w)) option" where
  "push_msg K tid p w =
     map_option (\<lambda>r. bind_res r (\<lambda>(p', _, w'). Inr (p', -1, w'))) (send_now K tid p w)"

section \<open>The echo server\<close>

text \<open>
  Writing a reply through the pointers of a message. The buffer belongs to a connection object of
  the table, which lives as long as the program, or to an object of \<open>close_connect\<close>, which
  nothing else refers to: a write to it changes nothing the program sees, and is an error once the
  object is deleted.
\<close>

definition store_reply :: "buf_ref \<Rightarrow> bytes \<Rightarrow> u32 \<Rightarrow> task_pool \<Rightarrow> pool_error + task_pool" where
  "store_reply ref msg len p =
     (case ref of
        SlotBuf i \<Rightarrow>
          bind_res (get_task p (int i)) (\<lambda>s.
          bind_res (lift_mem (memcpy (m_buf (m_send_buf s)) 0 msg 0 (unat len))) (\<lambda>b.
          put_task p (int i) (s\<lparr>m_send_buf := \<lparr>m_buf = b, m_length = len\<rparr>\<rparr>)))
      | HeapBuf h \<Rightarrow> if h \<in> set (heap_freed p) then Inl (Mem UseAfterFree) else Inr p)"

text \<open>
  One turn of the loop of \<open>main\<close>, with the 128 bytes of \<open>undo_msg\<close> cleared before it. Printing
  \<open>undo_msg\<close> as a string reads up to the first zero.
\<close>

definition echo_turn :: "'w kernel \<Rightarrow> task_pool \<Rightarrow> 'w \<Rightarrow> (pool_error + (task_pool \<times> 'w)) option" where
  "echo_turn K p w =
     (case pull_msg (replicate 128 0) p of
        Inl e \<Rightarrow> Some (Inl e)
      | Inr (None, p1) \<Rightarrow> Some (Inr (p1, w))
      | Inr (Some (tid, undo_msg, len, done_msg), p1) \<Rightarrow>
          if tid = -1 then Some (Inr (p1, w))
          else if 0 \<notin> set undo_msg then Some (Inl (Mem OutOfBounds))
          else (case store_reply done_msg undo_msg len p1 of
             Inl e \<Rightarrow> Some (Inl e)
           | Inr p2 \<Rightarrow> map_option (\<lambda>r. bind_res r (\<lambda>(p', _, w'). Inr (p', w'))) (push_msg K tid p2 w)))"


section \<open>The event loop keeps to the table's protocol\<close>

text \<open>
  What the program relies on of descriptors: \<open>opened\<close> is the set of open descriptors,
  \<open>accept\<close> returns one that was not open and opens it, \<open>close\<close> closes its argument,
  and changing a descriptor's flags or its epoll registration does neither.
\<close>

definition tracks_fds :: "'w kernel \<Rightarrow> ('w \<Rightarrow> int set) \<Rightarrow> bool" where
  "tracks_fds K opened \<longleftrightarrow>
     (\<forall>w fd r e w'. k_accept K w fd = (r, e, w') \<longrightarrow>
        r \<notin> opened w \<and> opened w' = (if r < 0 then opened w else insert r (opened w))) \<and>
     (\<forall>w fd. opened (k_close K w fd) = opened w - {fd}) \<and>
     (\<forall>w fd f. opened (k_setfl K w fd f) = opened w) \<and>
     (\<forall>w op fd r w'. k_epoll_ctl K w op fd = (r, w') \<longrightarrow> opened w' = opened w)"

lemma tracks_fdsD:
  assumes "tracks_fds K opened"
  shows "k_accept K w fd = (r, e, w1) \<Longrightarrow> r \<notin> opened w"
    and "k_accept K w fd = (r, e, w1) \<Longrightarrow> opened w1 = (if r < 0 then opened w else insert r (opened w))"
    and "opened (k_close K w fd) = opened w - {fd}"
    and "opened (snd (set_nonblocking K fd w)) = opened w"
    and "k_epoll_ctl K w op fd = (c, w1) \<Longrightarrow> opened w1 = opened w"
  using assms by (simp_all add: tracks_fds_def set_nonblocking_def Let_def)

lemma add_connect_fds:
  assumes T: "tracks_fds K opened" and "add_connect K p w = Inr (p', b, w')"
    and acc: "k_accept K w (m_listen_fd p) = (fd, e, w1)"
  shows "opened w \<subseteq> opened w' \<and> (b \<longrightarrow> fd \<in> opened w') \<and> m_listen_fd p' = m_listen_fd p"
proof (cases "fd < 0")
  case True
  then show ?thesis using assms tracks_fdsD(2) [OF T acc] by (auto simp: add_connect_def)
next
  case False
  obtain c w2 where ctl: "k_epoll_ctl K (snd (set_nonblocking K fd w1)) CtlAdd fd = (c, w2)"
    by (cases "k_epoll_ctl K (snd (set_nonblocking K fd w1)) CtlAdd fd")
  then have "w' = w2 \<and> m_listen_fd p' = m_listen_fd p"
    using assms(2,3) False
    by (auto simp: add_connect_def get_free_task_def put_ready_def put_task_def
        split: if_splits list.splits)
  then show ?thesis
    using False tracks_fdsD(2) [OF T acc] tracks_fdsD(4) [OF T] tracks_fdsD(5) [OF T ctl] by auto
qed

lemma close_connect_fds:
  assumes T: "tracks_fds K opened" and "close_connect K m1 m2 fd p w = Inr (p', b, w')"
  shows "opened w' = opened w - {fd} \<and> m_listen_fd p' = m_listen_fd p"
proof -
  obtain c w1 where ctl: "k_epoll_ctl K w CtlDel fd = (c, w1)" by (cases "k_epoll_ctl K w CtlDel fd")
  then have "w' = k_close K w1 fd \<and> m_listen_fd p' = m_listen_fd p"
    using assms(2)
    by (auto simp: close_connect_def add_undo_task_def push_free_task_def put_task_def split: if_splits)
  then show ?thesis using tracks_fdsD(3) [OF T] tracks_fdsD(5) [OF T ctl] by simp
qed

lemma get_recv_task_listen: "get_recv_task p = Inr (r, p') \<Longrightarrow> m_listen_fd p' = m_listen_fd p"
  by (auto simp: get_recv_task_def split: list.splits)

lemma recv_msg_listen: "recv_msg fd p = Inr (p', r) \<Longrightarrow> m_listen_fd p' = m_listen_fd p"
  by (auto simp: recv_msg_def add_recv_task_def add_undo_task_def put_task_def
      split: option.splits dest!: get_recv_task_listen)

text \<open>
  A batch of events is proper for the open connections \<open>live\<close> when each connection occurs at
  most once and the listening socket only with incoming connections.
\<close>

definition proper_batch :: "int \<Rightarrow> int set \<Rightarrow> epoll_event list \<Rightarrow> bool" where
  "proper_batch listen live evs \<longleftrightarrow>
     distinct (filter (\<lambda>fd. fd \<noteq> listen) (map data_fd evs)) \<and>
     (\<forall>ev \<in> set evs. if data_fd ev = listen then \<not> failed ev else data_fd ev \<in> live)"

lemma handle_event_serve:
  assumes T: "tracks_fds K opened" and ok: "pool_ok live p" and sub: "live \<subseteq> opened w"
    and fd: "if data_fd ev = m_listen_fd p then \<not> failed ev else data_fd ev \<in> live"
    and run: "handle_event K heap ev p w = Inr (p', w')"
  shows "\<exists>live'. (serve K)\<^sup>*\<^sup>* (live, p) (live', p') \<and> live' \<subseteq> opened w' \<and> pool_ok live' p' \<and>
    m_listen_fd p' = m_listen_fd p \<and> live - {data_fd ev} \<subseteq> live'"
proof -
  have one: ?thesis
    if "serve K (live, p) (live', p')" "live' \<subseteq> opened w'" "m_listen_fd p' = m_listen_fd p"
      "live - {data_fd ev} \<subseteq> live'" for live'
    using that serve_inv [OF that(1)] ok by (metis fst_conv snd_conv r_into_rtranclp)
  consider (close) "failed ev" "data_fd ev \<in> live"
    | (listen) "\<not> failed ev" "events ev AND EPOLLIN \<noteq> 0" "data_fd ev = m_listen_fd p"
    | (recv) "\<not> failed ev" "events ev AND EPOLLIN \<noteq> 0" "data_fd ev \<noteq> m_listen_fd p" "data_fd ev \<in> live"
    | (other) "\<not> failed ev" "events ev AND EPOLLIN = 0"
    using fd by (auto split: if_splits)
  then show ?thesis
  proof cases
    case close
    then obtain m1 m2 b where c: "close_connect K m1 m2 (data_fd ev) p w = Inr (p', b, w')"
      using run by (auto simp: handle_event_def Let_def split: prod.splits)
    then show ?thesis
      using one [OF serve_close [OF close(2) c]] close_connect_fds [OF T c] sub by blast
  next
    case listen
    then obtain b where c: "add_connect K p w = Inr (p', b, w')"
      using run by (auto simp: handle_event_def Let_def get_listen_def)
    obtain n e w1 where acc: "k_accept K w (m_listen_fd p) = (n, e, w1)"
      by (metis prod_cases3)
    then have "n \<notin> live" using tracks_fdsD(1) [OF T acc] sub by blast
    then have "serve K (live, p) (if b then insert n live else live, p')"
      using serve_connect [OF _ _ c, of n live] acc by simp
    moreover have "(if b then insert n live else live) \<subseteq> opened w'" "m_listen_fd p' = m_listen_fd p"
      using add_connect_fds [OF T c acc] sub by auto
    ultimately show ?thesis by (rule one) auto
  next
    case recv
    then obtain r where r: "recv_msg (data_fd ev) p = Inr (p', r)" "w' = w"
      using run recv_msg_ok [OF ok recv(4)] by (fastforce simp: handle_event_def get_listen_def split: if_splits)
    then show ?thesis
      using one [OF serve_recv [OF recv(4) r(1)]] recv_msg_listen [OF r(1)] sub by blast
  next
    case other
    then have "p' = p" "w' = w" using run by (simp_all add: handle_event_def)
    then show ?thesis using ok sub by blast
  qed
qed


lemma handle_events_serve_lemma:
  assumes T: "tracks_fds K opened"
  shows "pool_ok live p \<Longrightarrow> live \<subseteq> opened w \<Longrightarrow> proper_batch (m_listen_fd p) live evs \<Longrightarrow>
    handle_events K heap evs p w = Inr (p', w') \<Longrightarrow>
    \<exists>live'. (serve K)\<^sup>*\<^sup>* (live, p) (live', p') \<and> live' \<subseteq> opened w' \<and> pool_ok live' p'"
proof (induction evs arbitrary: live p w)
  case (Cons ev evs)
  obtain p1 w1 where run: "handle_event K heap ev p w = Inr (p1, w1)"
    and rest: "handle_events K heap evs p1 w1 = Inr (p', w')"
    using Cons.prems(4) by auto
  have "if data_fd ev = m_listen_fd p then \<not> failed ev else data_fd ev \<in> live"
    using Cons.prems(3) by (simp add: proper_batch_def)
  from handle_event_serve [OF T Cons.prems(1,2) this run] obtain live1
    where s1: "(serve K)\<^sup>*\<^sup>* (live, p) (live1, p1)" and l1: "live1 \<subseteq> opened w1" "pool_ok live1 p1"
      "m_listen_fd p1 = m_listen_fd p" "live - {data_fd ev} \<subseteq> live1"
    by blast
  have "data_fd e \<in> live1" if "e \<in> set evs" "data_fd e \<noteq> m_listen_fd p" for e
  proof -
    have "data_fd e \<in> live - {data_fd ev}"
      using that Cons.prems(3) by (auto simp: proper_batch_def split: if_splits) (metis imageI)
    then show ?thesis using l1(4) by blast
  qed
  then have "proper_batch (m_listen_fd p1) live1 evs"
    using Cons.prems(3) l1(3) by (auto simp: proper_batch_def split: if_splits)
  from Cons.IH [OF l1(2,1) this rest] s1 show ?case by (meson rtranclp_trans)
qed auto

section \<open>Replies of the echo server\<close>

lemma pull_msg_head:
  assumes "m_undo_tasks p = m # ms" and "length (recv_msg_data m) = 128" and "unat (recv_msg_length m) \<le> 128"
  shows "pull_msg (replicate 128 0) p =
    Inr (Some (task_id m, pad 128 (take (unat (recv_msg_length m)) (recv_msg_data m)), recv_msg_length m,
      send_msg_ref m), p\<lparr>m_undo_tasks := ms\<rparr>)"
  using assms by (simp add: pull_msg_def get_undo_task_def memcpy_def pad_def)

lemma echo_turn_slot:
  assumes a: "arrays_ok p" and m: "m_undo_tasks p = m # ms" "send_msg_ref m = SlotBuf i" "task_id m = int i" "i < 100"
    and data: "length (recv_msg_data m) = 128" "unat (recv_msg_length m) < 128" "0 < unat (recv_msg_length m)"
    and K: "accepts K (m_socket (task p (int i))) got"
    and cnt: "0 < m_reference_count (task p (int i))" and q: "m_send_pos (task p (int i)) = int q" "q \<le> 10000"
  shows "\<exists>p' w'. echo_turn K p w = Some (Inr (p', w')) \<and>
     got w' = got w @ take (unat (recv_msg_length m)) (recv_msg_data m) @ replicate q 0"
proof -
  let ?n = "unat (recv_msg_length m)" and ?s = "task p (int i)" and ?p = "p\<lparr>m_undo_tasks := ms\<rparr>"
  let ?d = "take ?n (recv_msg_data m)"
  let ?b = "\<lparr>m_buf = ?d @ drop ?n (m_buf (m_send_buf ?s)), m_length = recv_msg_length m\<rparr>"
  let ?s1 = "?s\<lparr>m_send_buf := ?b\<rparr>"
  have sok: "socket_ok ?s" using task_ok [OF a] m(4) by simp
  then have len: "length (m_buf (m_send_buf ?s)) = 10240" by (simp add: socket_ok_def buffer_ok_def)
  have s1: "socket_ok ?s1" "contents (m_send_buf ?s1) = ?d"
    using sok len data by (auto simp: socket_ok_def buffer_ok_def contents_def)
  have a1: "arrays_ok ?p" using a by (simp add: arrays_ok_def)
  obtain p2 where p2: "put_task ?p (int i) ?s1 = Inr p2" using put_task_ex [OF a1, of "int i" ?s1] m(4) by auto
  have a2: "arrays_ok p2" using put_task_Inr(12) [OF a1 p2 s1(1)] .
  have g2: "get_task p2 (int i) = Inr ?s1"
    using get_task_Inr [OF a2] put_task_Inr(3) [OF a1 p2, of "int i"] m(4) by simp
  have "get_task ?p (int i) = Inr ?s" using get_task_Inr [OF a] m(4) by simp
  then have st: "store_reply (SlotBuf i) (pad 128 ?d) (recv_msg_length m) ?p = Inr p2"
    using len data p2 by (simp add: store_reply_def memcpy_def pad_def)
  have nz: "0 \<in> set (pad 128 ?d)" using data by (simp add: pad_def)
  have pos: "m_send_pos (send_begin ?s1) = int q + int ?n"
    using get_size_contents [of ?b] s1 cnt q data
    by (simp add: send_begin_def socket_ok_def)
  have len_d: "length ?d = ?n" "?d \<noteq> []" using data by auto
  have "accepts K (m_socket ?s1) got" using K by simp
  note sends = send_buf_accepted [OF s1(1) this, of w, unfolded s1(2) pos len_d(1)]
  have "\<exists>w'. send_buf K ?s1 w = Some (Inr (send_begin ?s1, 0, w')) \<and>
      got w' = got w @ take (nat (int q + int ?n)) (?d @ replicate (BUFFER_SIZE - ?n) 0)"
    by (rule sends) (use len_d(2) data q in \<open>simp_all add: BUFFER_SIZE_def del: of_nat_unat\<close>)
  then obtain w' where sb: "send_buf K ?s1 w = Some (Inr (send_begin ?s1, 0, w'))"
    and got: "got w' = got w @ take (q + ?n) (?d @ replicate (BUFFER_SIZE - ?n) 0)"
    by (metis nat_int of_nat_add)
  obtain p3 where "put_task p2 (int i) (send_begin ?s1) = Inr p3"
    using put_task_ex [OF a2, of "int i" "send_begin ?s1"] m(4) by auto
  then have "echo_turn K p w = Some (Inr (p3, w'))"
    using pull_msg_head [OF m(1) data(1)] data m st nz g2 sb
    by (simp add: echo_turn_def push_msg_def send_now_def)
  moreover have "got w' = got w @ ?d @ replicate q 0"
    using got len_d q data by (auto simp: min_def)
  ultimately show ?thesis by blast
qed


section \<open>Properties\<close>


text \<open>A kernel that hands out the least descriptor above all open ones.\<close>

definition fd_kernel :: "int list kernel" where
  "fd_kernel =
     \<lparr>k_read = (\<lambda>w fd n. (RdErr EAGAIN, w)), k_write = (\<lambda>w fd bs. (WrErr EAGAIN, w)),
      k_peek = (\<lambda>w fd n. (RdErr EAGAIN, w)), k_select = (\<lambda>w fd wr t. (0, 0, w)),
      k_accept = (\<lambda>w fd. let n = 1 + fold max w 0 in (n, 0, n # w)),
      k_connect = (\<lambda>w fd. (-1, EINPROGRESS, w)), k_getsockopt = (\<lambda>w fd. (0, 0, w)),
      k_getfl = (\<lambda>w fd. 0), k_setfl = (\<lambda>w fd f. w), k_epoll_ctl = (\<lambda>w op fd. (0, w)),
      k_close = (\<lambda>w fd. removeAll fd w)\<rparr>"

lemma fold_max_ge: "x \<in> set w \<Longrightarrow> x \<le> fold max w (a :: int)" "a \<le> fold max w a"
proof (induction w arbitrary: a)
  case (Cons y w)
  {
    case 1
    then show ?case using Cons.IH(1) Cons.IH(2) [of "max y a"] by (auto simp: max_def split: if_splits)
  next
    case 2
    then show ?case using Cons.IH(2) [of "max y a"] by simp
  }
qed auto

lemma fd_kernel_tracks: "tracks_fds fd_kernel set"
proof -
  have "1 + fold max w 0 \<notin> set w" "\<not> 1 + fold max w 0 < 0" for w :: "int list"
    using fold_max_ge(1) [of "1 + fold max w 0" w 0] fold_max_ge(2) [of 0 w] by auto
  then show ?thesis by (simp add: tracks_fds_def fd_kernel_def Let_def)
qed

definition demo_batch :: "epoll_event list" where
  "demo_batch = [\<lparr>events = EPOLLIN, data_fd = 3\<rparr>]"

lemma demo_accept: "\<exists>p' w'. handle_events fd_kernel (\<lambda>_. ([], [])) demo_batch demo_tasks [3, 4] = Inr (p', w')"
proof -
  have "rev (map int [0..<100]) = 99 # rev (map int [0..<99])"
    using upt_Suc_append [of 0 99] by simp
  then show ?thesis
    by (simp add: demo_batch_def handle_event_def failed_def EPOLLIN_def EPOLLERR_def EPOLLHUP_def
        EPOLLRDHUP_def get_listen_def add_connect_def demo_tasks_def fd_kernel_def Let_def
        is_free_tasks_empty_def get_free_task_def put_ready_def put_task_def get_task_def
        array_set_def array_get_def)
qed


text \<open>
  C26. The echo server is one message behind. When data arrives on an open connection, the turn of
  the main loop that follows sends the peer what the receive buffer held before this data was
  read, followed by as many zero bytes as the send position the last reply left behind.
\<close>

theorem echo_one_behind:
  assumes "pool_ok live p" and "fd \<in> live" and "m_undo_tasks p = []"
    and "s = task p (slot p fd)" and "old = contents (m_recv_buf s)"
    and "old \<noteq> []" and "length old < 128"
    and "accepts K fd got" and "0 \<le> m_reference_count s" and "m_send_pos s = int q" and "q \<le> 10000"
  shows "\<exists>p1 p2 w'. recv_msg fd p = Inr (p1, 0) \<and> echo_turn K p1 w = Some (Inr (p2, w')) \<and>
    got w' = got w @ old @ replicate q 0"
proof -
  note L = live_slot [OF assms(1,2)]
  obtain i where i: "slot p fd = int i" "i < 100" using L(3,4) by (metis nonneg_int_cases of_nat_less_numeral_iff)
  let ?s = "set_wr_flag READ_OP (task p (int i))" and ?m = "undo_message (int i) (SlotBuf i) (task p (int i))"
  have a: "arrays_ok p" using assms(1) by (simp add: pool_ok_def)
  from recv_msg_cases [OF assms(1,2)] assms(3-5,7) i
  obtain p1 p2 where p1: "put_task p (int i) ?s = Inr p1"
    and p2: "put_task (p1\<lparr>m_undo_tasks := [?m]\<rparr>) (int i) (get_send_buf_len_addr ?s) = Inr p2"
    and r: "recv_msg fd p = Inr (p2\<lparr>m_thread_pool := fst (append_req (Some i) (m_thread_pool p))\<rparr>, 0)"
    (is "_ = Inr (?p3, 0)")
    by auto
  have sok: "socket_ok (task p (int i))" using L(8) i by simp
  have "arrays_ok p1" using put_task_Inr(12) [OF a p1] sok by simp
  then have a1: "arrays_ok (p1\<lparr>m_undo_tasks := [?m]\<rparr>)" by (simp add: arrays_ok_def)
  note P = put_task_Inr [OF a1 p2]
  have "arrays_ok p2" using P(12) sok by simp
  then have a3: "arrays_ok ?p3" by (simp add: arrays_ok_def)
  have t3: "task ?p3 (int i) = get_send_buf_len_addr ?s" using P(3) [of "int i"] by (simp add: task_def)
  have "m_socket (task p (int i)) = fd" using assms(1,2) i by (auto simp: pool_ok_def slots_ok_def)
  then have s3: "m_socket (get_send_buf_len_addr ?s) = fd" "m_send_pos (get_send_buf_len_addr ?s) = int q"
    "0 < m_reference_count (get_send_buf_len_addr ?s)"
    using assms(4,9,10) i by (simp_all add: get_send_buf_len_addr_def set_wr_flag_def)
  have m: "unat (recv_msg_length ?m) = length old" "recv_msg_data ?m = pad 128 old"
    using sok assms(4,5) i by (simp_all add: undo_message_def socket_ok_def buffer_ok_def contents_def)
  have "\<exists>p' w'. echo_turn K ?p3 w = Some (Inr (p', w')) \<and>
     got w' = got w @ take (unat (recv_msg_length ?m)) (recv_msg_data ?m) @ replicate q 0"
  proof (rule echo_turn_slot [OF a3 _ _ _ i(2) _ _ _ _ _ _ assms(11)])
    show "m_undo_tasks ?p3 = [?m]" using P(6) by simp
    show "send_msg_ref ?m = SlotBuf i" "task_id ?m = int i" by (simp_all add: undo_message_def)
  qed (use m t3 s3 assms(6-8) in \<open>simp_all add: pad_def\<close>)
  then show ?thesis using r m by (fastforce simp: pad_def)
qed

theorem echo_one_behind_witness:
  "\<exists>p1 p2 w'. recv_msg 7 demo_connected = Inr (p1, 0) \<and>
     echo_turn (script_kernel\<lparr>k_write := \<lambda>s fd bs. (WrOk (length bs), s\<lparr>s_out := s_out s @ bs\<rparr>)\<rparr>) p1 demo_script =
       Some (Inr (p2, w')) \<and> s_out w' = [0x31, 0, 0, 0, 0, 0, 0]"
proof -
  have *: "replicate 6 (0 :: byte) = [0, 0, 0, 0, 0, 0]" by (simp add: numeral_eq_Suc)
  show ?thesis
    using echo_one_behind [OF demo_connected_ok _ _ refl refl _ _ script_accepts, of 7 6 demo_script]
    by (simp add: demo_slot demo_recv_contents)
      (simp add: demo_connected_def demo_tasks_def demo_script_def set_fd_def blank_socket_def *)
qed

text \<open>
  C39. After a connection is closed, the main loop that answers the close event writes through a
  dangling pointer.
\<close>

theorem echo_after_close:
  assumes "pool_ok live p" and "fd \<in> live" and "m_undo_tasks p = []"
    and "length mem1 = BUFFER_SIZE" and "length mem2 = BUFFER_SIZE"
    and "fst (k_epoll_ctl K w CtlDel fd) \<noteq> -1"
  shows "\<exists>p' w'. close_connect K mem1 mem2 fd p w = Inr (p', True, w') \<and>
    echo_turn K p' w' = Some (Inl (Mem UseAfterFree))"
proof -
  obtain p' w' u where c: "close_connect K mem1 mem2 fd p w = Inr (p', True, w')"
    and m: "m_undo_tasks p' = [undo_message (slot p fd) (HeapBuf (heap_next p)) u]" (is "_ = [?m]")
    and u: "socket_ok u" "contents (m_recv_buf u) = [0x31]"
    using close_connect_runs [OF assms(1,2,4-6)] assms(3) by auto
  have freed: "heap_next p \<in> set (heap_freed p')" using close_connect_ok [OF assms(1,2) c] by simp
  have "unat (m_length (m_recv_buf u)) = length (contents (m_recv_buf u))"
    using u(1) by (simp add: socket_ok_def buffer_ok_def contents_def)
  then have d: "recv_msg_data ?m = pad 128 [0x31]" "unat (recv_msg_length ?m) = 1"
    "task_id ?m = slot p fd" "send_msg_ref ?m = HeapBuf (heap_next p)"
    using u(2) by (simp_all add: undo_message_def)
  have "pull_msg (replicate 128 0) p' = Inr (Some (slot p fd, pad 128 [0x31], recv_msg_length ?m,
      HeapBuf (heap_next p)), p'\<lparr>m_undo_tasks := []\<rparr>)"
    using pull_msg_head [OF m] d by (simp add: pad_def)
  moreover have "slot p fd \<noteq> -1" using live_slot(3) [OF assms(1,2)] by simp
  ultimately have "echo_turn K p' w' = Some (Inl (Mem UseAfterFree))"
    using freed by (simp add: echo_turn_def store_reply_def pad_def)
  then show ?thesis using c by blast
qed

theorem echo_after_close_witness:
  "\<exists>p' w'. close_connect script_kernel blank_mem blank_mem 7 demo_connected demo_script = Inr (p', True, w') \<and>
     echo_turn script_kernel p' w' = Some (Inl (Mem UseAfterFree))"
proof -
  have "length blank_mem = BUFFER_SIZE" by (simp add: blank_mem_def)
  moreover have "m_undo_tasks demo_connected = []" by (simp add: demo_connected_def demo_tasks_def)
  ultimately show ?thesis
    using echo_after_close [OF demo_connected_ok, of 7 blank_mem blank_mem script_kernel demo_script]
    by (simp add: script_kernel_def)
qed

end
