(* ===== verification/My_DB.thy ===== *)
theory My_DB
  imports Net_Prelude
begin

text \<open>
  The database client (db/mysql/db_mysql.h, db/mysql/db_mysql.cpp): dispatch of SQL statements,
  extraction of the table name and the JSON text of a result. The MySQL client library is not
  part of the repository; its calls are the fields of a \<open>mysql\<close> record that the operations take
  as an argument. C strings are HOL strings without their terminating zero.
\<close>

section \<open>The client library\<close>

record my_result =
  r_fields :: "string list"
  r_rows :: "string option list list"

text \<open>\<open>'c\<close> is the type of connections and \<open>'d\<close> the state of the library and the server.\<close>

record ('c, 'd) mysql =
  mysql_connect :: "'d \<Rightarrow> string \<Rightarrow> string \<Rightarrow> string \<Rightarrow> string \<Rightarrow> 'c option \<times> 'd"
  mysql_close :: "'d \<Rightarrow> 'c \<Rightarrow> 'd"
  mysql_query :: "'d \<Rightarrow> 'c option \<Rightarrow> string \<Rightarrow> int \<times> 'd"
  mysql_store_result :: "'d \<Rightarrow> 'c option \<Rightarrow> my_result option \<times> 'd"

record 'c my_db =
  m_connection :: "'c option"
  m_pResult :: "string option"

section \<open>Connections and statements without a result\<close>

definition exec_db :: "('c, 'd) mysql \<Rightarrow> string \<Rightarrow> 'c my_db \<Rightarrow> 'd \<Rightarrow> int \<times> 'd" where
  "exec_db M sql db d =
     (case mysql_query M d (m_connection db) sql of (state, d') \<Rightarrow> (if state \<noteq> 0 then -1 else 0, d'))"

definition conn_db ::
  "('c, 'd) mysql \<Rightarrow> string \<Rightarrow> string \<Rightarrow> string \<Rightarrow> string \<Rightarrow> 'c my_db \<Rightarrow> 'd \<Rightarrow> int \<times> 'c my_db \<times> 'd" where
  "conn_db M host user password name db d =
     (let d1 = (case m_connection db of None \<Rightarrow> d | Some c \<Rightarrow> mysql_close M d c) in
      case mysql_connect M d1 host user password name of
        (None, d2) \<Rightarrow> (-1, db\<lparr>m_connection := None\<rparr>, d2)
      | (Some c, d2) \<Rightarrow>
          (let db' = db\<lparr>m_connection := Some c\<rparr> in (0, db', snd (exec_db M ''set names utf8;'' db' d2))))"

definition disconn_db :: "('c, 'd) mysql \<Rightarrow> 'c my_db \<Rightarrow> 'd \<Rightarrow> 'c my_db \<times> 'd" where
  "disconn_db M db d =
     (case m_connection db of
        None \<Rightarrow> (db, d)
      | Some c \<Rightarrow> (db\<lparr>m_connection := None\<rparr>, mysql_close M d c))"

section \<open>The table name of a query\<close>

text \<open>\<open>strtok\<close> with the delimiter blank: the next token, if any, and the text after it.\<close>

definition strtok :: "string \<Rightarrow> string option \<times> string" where
  "strtok s =
     (let t = dropWhile (\<lambda>c. c = CHR '' '') s in
      if t = [] then (None, [])
      else (Some (takeWhile (\<lambda>c. c \<noteq> CHR '' '') t), tl (dropWhile (\<lambda>c. c \<noteq> CHR '' '') t)))"

definition tolower :: "char \<Rightarrow> char" where
  "tolower c = (if 65 \<le> (of_char c :: nat) \<and> (of_char c :: nat) \<le> 90 then char_of (of_char c + 32 :: nat) else c)"

definition strcasecmp_eq :: "string \<Rightarrow> string \<Rightarrow> bool" where
  "strcasecmp_eq a b \<longleftrightarrow> map tolower a = map tolower b"

lemma strtok_shorter:
  assumes "strtok s = (Some t, rest)" shows "length rest < length s"
proof -
  let ?u = "dropWhile (\<lambda>c. c = CHR '' '') s"
  have "?u \<noteq> []" "rest = tl (dropWhile (\<lambda>c. c \<noteq> CHR '' '') ?u)"
    using assms by (auto simp: strtok_def Let_def split: if_splits)
  moreover have "length (tl (dropWhile P xs)) < length xs" if "xs \<noteq> []" for P and xs :: string
    using that length_dropWhile_le [of P xs] by (cases xs) (auto simp: less_Suc_eq_le)
  ultimately show ?thesis using length_dropWhile_le [of "\<lambda>c. c = CHR '' ''" s] by (metis order_less_le_trans)
qed

text \<open>
  The scan for the word \<open>from\<close>: the result is the pointer \<open>table_name\<close> when the loop ends, the
  token after \<open>from\<close> or NULL.
\<close>

function find_table :: "string \<Rightarrow> string option" where
  "find_table s =
     (case strtok s of
        (None, _) \<Rightarrow> None
      | (Some t, rest) \<Rightarrow>
          if strcasecmp_eq t ''from'' \<or> strcasecmp_eq t ''*from'' then fst (strtok rest)
          else find_table rest)"
  by pat_completeness auto
termination by (relation "measure length") (auto dest: strtok_shorter [OF sym])

declare find_table.simps [simp del]

definition table_name :: "string \<Rightarrow> string option" where
  "table_name sql =
     map_option (\<lambda>t. if last t = CHR '';'' then butlast t else t) (find_table sql)"

section \<open>The text of a result\<close>

text \<open>
  \<open>strcat\<close> on a zeroed block of a given size: the characters so far; appending needs room for the
  terminating zero as well.
\<close>

definition strcat :: "int \<Rightarrow> string \<Rightarrow> mem_error + string \<Rightarrow> mem_error + string" where
  "strcat n s b =
     bind_res b (\<lambda>t. if int (length t + length s) + 1 \<le> n then Inr (t @ s) else Inl OutOfBounds)"

definition cell :: "string option \<Rightarrow> string" where
  "cell v = (case v of None \<Rightarrow> ''NULL'' | Some s \<Rightarrow> s)"

text \<open>\<open>quote\<close> is the character of JSON strings.\<close>

definition quote :: string where "quote = [CHR 0x22]"

text \<open>The copies \<open>result_out\<close>: the field names and then the rows.\<close>

definition result_out :: "my_result \<Rightarrow> string list list" where
  "result_out r = r_fields r # map (map cell) (r_rows r)"

definition pResult_length :: "string option \<Rightarrow> my_result \<Rightarrow> int" where
  "pResult_length tn r =
     (let row = int (length (r_rows r)); column = int (length (r_fields r));
          names = (\<Sum>f \<leftarrow> r_fields r. int (length f) * row);
          cells = (\<Sum>cs \<leftarrow> r_rows r. \<Sum>c \<leftarrow> cs. int (length (cell c)));
          len = names + cells + (case tn of None \<Rightarrow> 0 | Some t \<Rightarrow> int (length t))
      in len + 2 + 2 + 1 + 2 + 2 * row + row * (2 * column - 1 + 4 * column) + row - 1)"

fun put_cells :: "int \<Rightarrow> bool \<Rightarrow> (string \<times> string) list \<Rightarrow> mem_error + string \<Rightarrow> mem_error + string" where
  "put_cells n first [] b = b"
| "put_cells n first ((f, v) # cs) b =
     put_cells n False cs
       (strcat n quote (strcat n v (strcat n quote (strcat n '':'' (strcat n quote (strcat n f (strcat n quote
          (if first then b else strcat n '','' b))))))))"

fun put_rows :: "int \<Rightarrow> bool \<Rightarrow> string list \<Rightarrow> string list list \<Rightarrow> mem_error + string \<Rightarrow> mem_error + string" where
  "put_rows n first fs [] b = b"
| "put_rows n first fs (row # rows) b =
     put_rows n False fs rows
       (strcat n ''}'' (put_cells n True (zip fs row)
          (strcat n ''{'' (if first then b else strcat n '','' b))))"

definition put_result :: "int \<Rightarrow> string option \<Rightarrow> string list list \<Rightarrow> mem_error + string" where
  "put_result n tn out =
     strcat n ''}'' (strcat n '']'' (put_rows n True (hd out) (tl out)
       (strcat n ''['' (strcat n '':'' (strcat n quote
          ((case tn of None \<Rightarrow> id | Some t \<Rightarrow> strcat n t)
             (strcat n quote (strcat n ''{'' (Inr [])))))))))"

definition open_db ::
  "('c, 'd) mysql \<Rightarrow> string \<Rightarrow> 'c my_db \<Rightarrow> 'd \<Rightarrow> mem_error + (int \<times> string list list option \<times> 'c my_db \<times> 'd)" where
  "open_db M sql db d =
     (case mysql_query M d (m_connection db) sql of (state, d1) \<Rightarrow>
        if state \<noteq> 0 then Inr (-1, None, db, d1)
        else if 200 \<le> length sql then Inl OutOfBounds
        else
          (case mysql_store_result M d1 (m_connection db) of
             (None, d2) \<Rightarrow> Inr (-1, None, db, d2)
           | (Some r, d2) \<Rightarrow>
               bind_res (put_result (pResult_length (table_name sql) r) (table_name sql) (result_out r))
                 (\<lambda>s. Inr (0, Some (result_out r), db\<lparr>m_pResult := Some s\<rparr>, d2))))"

definition strncmp_eq :: "string \<Rightarrow> string \<Rightarrow> bool" where
  "strncmp_eq src word \<longleftrightarrow> take (length word) src = word"

definition sql_db ::
  "('c, 'd) mysql \<Rightarrow> string \<Rightarrow> 'c my_db \<Rightarrow> 'd \<Rightarrow> mem_error + (int \<times> string list list option \<times> 'c my_db \<times> 'd)" where
  "sql_db M src db d =
     (if strncmp_eq src ''select'' \<or> strncmp_eq src ''SELECT'' \<or> strncmp_eq src ''show'' \<or>
         strncmp_eq src ''SHOW'' \<or> strncmp_eq src ''desc'' \<or> strncmp_eq src ''DESC''
      then open_db M src db d
      else (case exec_db M src db d of (r, d') \<Rightarrow> Inr (r, None, db, d')))"

definition get_string :: "'c my_db \<Rightarrow> mem_error + (string \<times> int)" where
  "get_string db =
     (case m_pResult db of None \<Rightarrow> Inl NullDeref | Some s \<Rightarrow> Inr (s, int (length s)))"


section \<open>What the text is\<close>

text \<open>The JSON text of a table as a specification.\<close>

fun comma_join :: "string list \<Rightarrow> string" where
  "comma_join [] = []"
| "comma_join [x] = x"
| "comma_join (x # y # xs) = x @ '','' @ comma_join (y # xs)"

definition json_pair :: "string \<times> string \<Rightarrow> string" where
  "json_pair p = quote @ fst p @ quote @ '':'' @ quote @ snd p @ quote"

definition json_row :: "string list \<Rightarrow> string list \<Rightarrow> string" where
  "json_row fs row = ''{'' @ comma_join (map json_pair (zip fs row)) @ ''}''"

definition json_text :: "string option \<Rightarrow> string list \<Rightarrow> string list list \<Rightarrow> string" where
  "json_text tn fs rows =
     ''{'' @ quote @ (case tn of None \<Rightarrow> [] | Some t \<Rightarrow> t) @ quote @ '':['' @
     comma_join (map (json_row fs) rows) @ '']}''"

lemma strcat_strcat [simp]: "strcat n s (strcat n t b) = strcat n (t @ s) b"
  by (cases b) (auto simp: strcat_def)

lemma put_cells_text:
  "put_cells n first cs (strcat n s b) =
     strcat n (s @ (if first \<or> cs = [] then [] else '','') @ comma_join (map json_pair cs)) b"
proof (induction cs arbitrary: first s)
  case (Cons c cs)
  then show ?case by (cases c; cases cs) (simp_all add: json_pair_def)
qed simp

lemma put_rows_text:
  "put_rows n first fs rows (strcat n s b) =
     strcat n (s @ (if first \<or> rows = [] then [] else '','') @ comma_join (map (json_row fs) rows)) b"
proof (induction rows arbitrary: first s)
  case (Cons r rows)
  have "put_rows n first fs (r # rows) (strcat n s b) =
      put_rows n False fs rows (strcat n (s @ (if first then [] else '','') @ json_row fs r) b)"
    by (simp add: put_cells_text json_row_def)
  then show ?case unfolding Cons.IH by (cases rows) simp_all
qed simp

lemma put_result_text:
  "put_result n tn out =
     (if int (length (json_text tn (hd out) (tl out))) < n then Inr (json_text tn (hd out) (tl out))
      else Inl OutOfBounds)"
proof -
  have "put_result n tn out = strcat n (json_text tn (hd out) (tl out)) (Inr [])"
    by (cases tn) (simp_all add: put_result_def put_rows_text json_text_def)
  then show ?thesis by (simp add: strcat_def)
qed

lemma length_comma_join:
  "int (length (comma_join xs)) = (\<Sum>x \<leftarrow> xs. int (length x)) + (if xs = [] then 0 else int (length xs) - 1)"
  by (induction xs rule: comma_join.induct) simp_all

lemma length_json_row:
  assumes "length row = length fs" and "fs \<noteq> []"
  shows "int (length (json_row fs row)) =
    (\<Sum>f \<leftarrow> fs. int (length f)) + (\<Sum>c \<leftarrow> row. int (length c)) + 6 * int (length fs) + 1"
proof -
  have "(\<Sum>p \<leftarrow> zip fs row. int (length (json_pair p))) =
      (\<Sum>f \<leftarrow> fs. int (length f)) + (\<Sum>c \<leftarrow> row. int (length c)) + 5 * int (length fs)"
    using assms(1)
    by (induction fs row rule: list_induct2') (simp_all add: json_pair_def quote_def)
  moreover have "zip fs row \<noteq> []" using assms by (cases fs; cases row) simp_all
  ultimately show ?thesis
    using assms by (simp add: json_row_def length_comma_join comp_def)
qed

definition result_ok :: "my_result \<Rightarrow> bool" where
  "result_ok r \<longleftrightarrow> r_fields r \<noteq> [] \<and> (\<forall>row \<in> set (r_rows r). length row = length (r_fields r))"

lemma sum_rows:
  "(\<forall>row \<in> set rows. length row = length fs) \<Longrightarrow> fs \<noteq> [] \<Longrightarrow>
   (\<Sum>row \<leftarrow> rows. int (length (json_row fs (map cell row)))) =
   int (length rows) * (\<Sum>f \<leftarrow> fs. int (length f)) +
   (\<Sum>cs \<leftarrow> rows. \<Sum>c \<leftarrow> cs. int (length (cell c))) + int (length rows) * (6 * int (length fs) + 1)"
  by (induction rows) (simp_all add: length_json_row comp_def algebra_simps)

lemma pResult_length_text:
  assumes "result_ok r"
  shows "pResult_length tn r =
    int (length (json_text tn (r_fields r) (map (map cell) (r_rows r)))) - (if r_rows r = [] then 1 else 0)"
  using assms sum_rows [of "r_rows r" "r_fields r"]
  by (cases tn; cases "r_rows r = []")
    (simp_all add: result_ok_def pResult_length_def Let_def json_text_def length_comma_join comp_def
      quote_def sum_list_mult_const algebra_simps)


lemma strtok_word:
  assumes "w \<noteq> []" and "CHR '' '' \<notin> set w"
  shows "strtok (w @ CHR '' '' # s) = (Some w, s)" and "strtok w = (Some w, [])"
proof -
  have h: "hd w \<noteq> CHR '' ''" using assms hd_in_set by fastforce
  have "dropWhile (\<lambda>c. c = CHR '' '') (w @ u) = w @ u" for u
    using assms(1) h by (cases w) simp_all
  note d = this [of "CHR '' '' # s"] this [of "[]"]
  have p: "x \<in> set w \<Longrightarrow> x \<noteq> CHR '' ''" for x using assms(2) by auto
  then have "takeWhile (\<lambda>c. c \<noteq> CHR '' '') (w @ CHR '' '' # s) = w"
    "dropWhile (\<lambda>c. c \<noteq> CHR '' '') (w @ CHR '' '' # s) = CHR '' '' # s"
    "takeWhile (\<lambda>c. c \<noteq> CHR '' '') w = w" "dropWhile (\<lambda>c. c \<noteq> CHR '' '') w = []"
    by (simp_all add: takeWhile_append2 dropWhile_append2)
  then show "strtok (w @ CHR '' '' # s) = (Some w, s)" "strtok w = (Some w, [])"
    using d assms(1) by (simp_all add: strtok_def del: takeWhile_eq_all_conv dropWhile_eq_Nil_conv)
qed

lemma from_word:
  assumes "strcasecmp_eq f ''from'' \<or> strcasecmp_eq f ''*from''"
  shows "f \<noteq> []" and "CHR '' '' \<notin> set f"
proof -
  have *: "tolower (CHR '' '') = CHR '' ''" by code_simp
  have "map tolower f = ''from'' \<or> map tolower f = ''*from''"
  proof -
    have "map tolower ''from'' = ''from''" "map tolower ''*from'' = ''*from''" by code_simp+
    then show ?thesis using assms by (simp add: strcasecmp_eq_def)
  qed
  then have "tolower (CHR '' '') \<notin> set (map tolower f)" "map tolower f \<noteq> []" using * by auto
  then show "f \<noteq> []" "CHR '' '' \<notin> set f" by auto
qed

definition plain_word :: "string \<Rightarrow> bool" where
  "plain_word w \<longleftrightarrow> w \<noteq> [] \<and> CHR '' '' \<notin> set w \<and> \<not> strcasecmp_eq w ''from'' \<and> \<not> strcasecmp_eq w ''*from''"

lemma find_table_skip: "plain_word w \<Longrightarrow> find_table (w @ CHR '' '' # s) = find_table s"
  by (subst find_table.simps) (simp add: plain_word_def strtok_word)

section \<open>Properties\<close>




definition demo_result :: my_result where
  "demo_result = \<lparr>r_fields = [''id'', ''name''], r_rows = [[Some ''1'', Some ''ann''], [Some ''2'', None]]\<rparr>"

definition demo_mysql :: "(unit, unit) mysql" where
  "demo_mysql =
     \<lparr>mysql_connect = (\<lambda>d h u p n. (Some (), d)), mysql_close = (\<lambda>d c. d),
      mysql_query = (\<lambda>d c q. (0, d)), mysql_store_result = (\<lambda>d c. (Some demo_result, d))\<rparr>"


end
