(* ===== verification/Net_Ipc.thy ===== *)
theory Net_Ipc
  imports Net_Sys
begin

text \<open>
  System V semaphores and shared memory (base/ipc_sem.c, base/ipc_shm.c) and the time stamps of
  base/timex.cpp with the union of base/type.h. The system calls are fields of an \<open>ipc\<close> record.
\<close>

section \<open>Semaphores\<close>

definition SEMERR_PARAM :: int where "SEMERR_PARAM = 101"
definition SEMERR_EEXIST :: int where "SEMERR_EEXIST = 102"

text \<open>
  \<open>i_semget\<close> takes the key, the number of semaphores and whether to create exclusively, and returns
  the identifier or -1, \<open>errno\<close> and the next state; \<open>i_setval\<close>, \<open>i_getval\<close> and \<open>i_semop\<close> are
  \<open>semctl\<close> with \<open>SETVAL\<close> and \<open>GETVAL\<close> and \<open>semop\<close> on one semaphore.
\<close>

record 'w ipc =
  i_semget :: "'w \<Rightarrow> int \<Rightarrow> nat \<Rightarrow> bool \<Rightarrow> int \<times> int \<times> 'w"
  i_setval :: "'w \<Rightarrow> int \<Rightarrow> int \<Rightarrow> int \<times> 'w"
  i_getval :: "'w \<Rightarrow> int \<Rightarrow> int"
  i_semop :: "'w \<Rightarrow> int \<Rightarrow> int \<Rightarrow> int \<times> 'w"
  i_ftok :: "'w \<Rightarrow> string \<Rightarrow> int"
  i_shmget :: "'w \<Rightarrow> int \<Rightarrow> int \<Rightarrow> int \<times> 'w"
  i_shmat :: "'w \<Rightarrow> int \<Rightarrow> u64 \<times> int \<times> 'w"
  i_shmdt :: "'w \<Rightarrow> u64 \<Rightarrow> int \<times> int \<times> 'w"
  i_shmrm :: "'w \<Rightarrow> int \<Rightarrow> int \<times> int \<times> 'w"

definition set_sem_val :: "'w ipc \<Rightarrow> int \<Rightarrow> int \<Rightarrow> 'w \<Rightarrow> int \<times> 'w" where
  "set_sem_val I semid val w = i_setval I w semid val"

text \<open>The output argument is \<open>None\<close> for the null pointer; the second result is what it points to.\<close>

definition create_sem :: "'w ipc \<Rightarrow> int \<Rightarrow> int option \<Rightarrow> 'w \<Rightarrow> int \<times> int option \<times> 'w" where
  "create_sem I key semid w =
     (case semid of
        None \<Rightarrow> (SEMERR_PARAM, None, w)
      | Some old \<Rightarrow>
          (case i_semget I w key 1 True of (r, err, w1) \<Rightarrow>
             if r = -1 \<and> err = EEXIST then (SEMERR_EEXIST, Some old, w1)
             else (let ret = (if r = -1 then err else r) in
                   case set_sem_val I ret 1 w1 of (ret', w2) \<Rightarrow>
                     (if ret' \<noteq> 0 then (ret', Some ret, w2) else (0, Some ret, w2)))))"

definition open_sem :: "'w ipc \<Rightarrow> int \<Rightarrow> int option \<Rightarrow> 'w \<Rightarrow> int \<times> int option \<times> 'w" where
  "open_sem I key semid w =
     (case semid of
        None \<Rightarrow> (SEMERR_PARAM, None, w)
      | Some old \<Rightarrow>
          (case i_semget I w key 0 False of (r, err, w1) \<Rightarrow>
             if r = -1 then (err, Some old, w1) else (0, Some r, w1)))"

definition get_sem_val :: "'w ipc \<Rightarrow> int \<Rightarrow> 'w \<Rightarrow> int \<times> int" where
  "get_sem_val I semid w = (0, i_getval I w semid)"

definition sem_p :: "'w ipc \<Rightarrow> int \<Rightarrow> 'w \<Rightarrow> int \<times> 'w" where "sem_p I semid w = i_semop I w semid (-1)"
definition sem_v :: "'w ipc \<Rightarrow> int \<Rightarrow> 'w \<Rightarrow> int \<times> 'w" where "sem_v I semid w = i_semop I w semid 1"

section \<open>Shared memory\<close>

text \<open>The two static variables of ipc_shm.c.\<close>

record shm_state =
  g_shm_flag :: bool
  g_shm_key :: int

definition create_shm :: "'w ipc \<Rightarrow> string \<Rightarrow> int \<Rightarrow> shm_state \<Rightarrow> 'w \<Rightarrow> int \<times> int option \<times> shm_state \<times> 'w" where
  "create_shm I seed shm_size g w =
     (let g1 = (if \<not> g_shm_flag g then g\<lparr>g_shm_key := i_ftok I w seed\<rparr> else g) in
      if \<not> g_shm_flag g \<and> g_shm_key g1 = -1 then (-1, None, g1, w)
      else (let g2 = g1\<lparr>g_shm_flag := True\<rparr> in
            case i_shmget I w (g_shm_key g2) shm_size of (hdl, w') \<Rightarrow> (0, Some hdl, g2, w')))"

definition map_shm :: "'w ipc \<Rightarrow> int \<Rightarrow> 'w \<Rightarrow> int \<times> u64 option \<times> 'w" where
  "map_shm I hdl w =
     (case i_shmat I w hdl of (p, err, w') \<Rightarrow> if p = 0 then (err, None, w') else (0, Some p, w'))"

definition unmap_shm :: "'w ipc \<Rightarrow> u64 \<Rightarrow> 'w \<Rightarrow> int \<times> 'w" where
  "unmap_shm I p w = (case i_shmdt I w p of (r, err, w') \<Rightarrow> if r = -1 then (err, w') else (0, w'))"

definition del_shm :: "'w ipc \<Rightarrow> int \<Rightarrow> 'w \<Rightarrow> int \<times> 'w" where
  "del_shm I hdl w = (case i_shmrm I w hdl of (r, err, w') \<Rightarrow> if r < 0 then (err, w') else (0, w'))"

section \<open>Time stamps\<close>

text \<open>
  The union of an int, its four bytes in memory order and its 32 one-bit fields, on a
  little-endian machine; a union is its 32 bits.
\<close>

definition str_t :: "u32 \<Rightarrow> bytes" where
  "str_t v = host_bytes True 4 v"

definition b_t :: "u32 \<Rightarrow> nat \<Rightarrow> bool" where "b_t v i = bit v i"

definition get_UTC_E8 :: "int \<Rightarrow> bytes option" where
  "get_UTC_E8 now = (if now = -1 then None else Some (str_t (word_of_int (now + 28800))))"


section \<open>Properties\<close>

text \<open>
  Creating a semaphore: when \<open>semget\<close> fails for another reason than that the semaphore
  exists, \<open>create_sem\<close> uses \<open>errno\<close> as the identifier, sets that semaphore to 1 and reports
  success if there is one; only an existing key is reported as an error.
\<close>

theorem create_sem_errno:
  assumes "i_semget I w key 1 True = (r, err, w1)"
  shows "create_sem I key (Some old) w =
    (if r \<noteq> -1 then (fst (i_setval I w1 r 1), Some r, snd (i_setval I w1 r 1))
     else if err = EEXIST then (SEMERR_EEXIST, Some old, w1)
     else (fst (i_setval I w1 err 1), Some err, snd (i_setval I w1 err 1)))"
  using assms by (auto simp: create_sem_def set_sem_val_def Let_def split: prod.splits)

text \<open>A system with the semaphores 28 and 40 only, which has no room for another one (ENOSPC, 28).\<close>

definition demo_ipc :: "(int \<Rightarrow> int) ipc" where
  "demo_ipc =
     \<lparr>i_semget = (\<lambda>w key n excl. (-1, 28, w)),
      i_setval = (\<lambda>w i v. if i = 28 \<or> i = 40 then (0, w(i := v)) else (-1, w)),
      i_getval = (\<lambda>w i. w i), i_semop = (\<lambda>w i d. (0, w(i := w i + d))),
      i_ftok = (\<lambda>w seed. int (length seed)), i_shmget = (\<lambda>w key n. (key + 1000, w)),
      i_shmat = (\<lambda>w h. (- 1, 13, w)), i_shmdt = (\<lambda>w p. (0, 0, w)), i_shmrm = (\<lambda>w h. (0, 0, w))\<rparr>"

theorem create_sem_errno_witness:
  "create_sem demo_ipc 5 (Some 0) (\<lambda>_. 7) = (0, Some 28, (\<lambda>_. 7)(28 := 1))"
  using create_sem_errno [of demo_ipc "\<lambda>_. 7" 5 "-1" 28 "\<lambda>_. 7" 0] by (simp add: demo_ipc_def EEXIST_def)

text \<open>
  Shared memory: once a segment was created, every later \<open>create_shm\<close> uses the key of the
  first seed file, whatever seed it is given, and reports success even when no segment could be
  created; \<open>map_shm\<close> reports the address \<open>(void *) -1\<close> of a failed \<open>shmat\<close> as a success.
\<close>

theorem shm_first_key:
  assumes "create_shm I seed size1 \<lparr>g_shm_flag = False, g_shm_key = k0\<rparr> w = (0, Some h1, g, w1)"
  shows "create_shm I seed' size2 g w2 =
      (0, Some (fst (i_shmget I w2 (i_ftok I w seed) size2)), g, snd (i_shmget I w2 (i_ftok I w seed) size2)) \<and>
    (i_shmat I w2 h = (- 1, err, w3) \<longrightarrow> map_shm I h w2 = (0, Some (- 1), w3))"
  using assms by (auto simp: create_shm_def map_shm_def Let_def split: prod.splits if_splits)

theorem shm_first_key_witness:
  "create_shm demo_ipc ''abcd'' 64 \<lparr>g_shm_flag = True, g_shm_key = 2\<rparr> (\<lambda>_. 0) =
    (0, Some 1002, \<lparr>g_shm_flag = True, g_shm_key = 2\<rparr>, \<lambda>_. 0)"
  using shm_first_key [of demo_ipc "''ab''" 16 0 "\<lambda>_. 0" 1002 "\<lparr>g_shm_flag = True, g_shm_key = 2\<rparr>" "\<lambda>_. 0" "''abcd''" 64 "\<lambda>_. 0"]
  by (simp add: demo_ipc_def create_shm_def)

text \<open>
  Time stamps: the four bytes of \<open>get_UTC_E8\<close> are the seconds of the zone eight hours east,
  least significant byte first, modulo 4294967296.
\<close>

theorem UTC_E8_bytes:
  assumes "now \<noteq> -1"
  shows "\<exists>bs. get_UTC_E8 now = Some bs \<and> length bs = 4 \<and>
    uint (host_word True bs :: u32) = (now + 28800) mod 2 ^ 32"
proof -
  have "uint (word_of_int (now + 28800) :: u32) = (now + 28800) mod 2 ^ 32"
    by (simp only: uint_word_of_int) simp
  then show ?thesis using assms by (simp add: get_UTC_E8_def str_t_def host_word_bytes del: wi_hom_syms of_int_add)
qed

theorem UTC_E8_bytes_witness:
  "\<exists>bs. get_UTC_E8 4294967296 = Some bs \<and> uint (host_word True bs :: u32) = 28800"
  using UTC_E8_bytes [of 4294967296] by auto

end
