(* ===== verification/Ldb_Arena.thy ===== *)
theory Ldb_Arena
  imports Net_Prelude
begin

text \<open>
  The allocator of db/leveldb/util/arena.h and arena.cc. A pointer is the number of a block and an
  offset in it; \<open>new char[]\<close> returns a new block, aligned for every type, and sizes are far below
  \<open>2 ^ 64\<close>. \<open>memory_usage_\<close> is an atomic pointer that holds a number.
\<close>

section \<open>The allocator\<close>

type_synonym ptr = "nat \<times> nat"

record arena =
  ar_ptr :: "ptr option"
  ar_remaining :: nat
  ar_blocks :: "nat list"
  ar_usage :: nat

definition arena_kBlockSize :: nat where "arena_kBlockSize = 4096"

definition Arena_new :: arena where
  "Arena_new = \<lparr>ar_ptr = None, ar_remaining = 0, ar_blocks = [], ar_usage = 0\<rparr>"

definition MemoryUsage :: "arena \<Rightarrow> nat" where "MemoryUsage a = ar_usage a"

definition AllocateNewBlock :: "nat \<Rightarrow> arena \<Rightarrow> ptr \<times> arena" where
  "AllocateNewBlock block_bytes a =
     ((length (ar_blocks a), 0),
      a\<lparr>ar_blocks := ar_blocks a @ [block_bytes], ar_usage := MemoryUsage a + block_bytes + 8\<rparr>)"

definition AllocateFallback :: "nat \<Rightarrow> arena \<Rightarrow> ptr \<times> arena" where
  "AllocateFallback n a =
     (if arena_kBlockSize div 4 < n then AllocateNewBlock n a
      else (case AllocateNewBlock arena_kBlockSize a of (p, a1) \<Rightarrow>
              (p, a1\<lparr>ar_ptr := Some (fst p, snd p + n), ar_remaining := arena_kBlockSize - n\<rparr>)))"

text \<open>Room is left in the current block only when there is one.\<close>

definition Allocate :: "nat \<Rightarrow> arena \<Rightarrow> mem_error + ptr \<times> arena" where
  "Allocate n a =
     (if n = 0 then Inl AssertionFails
      else if n \<le> ar_remaining a then
        (case ar_ptr a of None \<Rightarrow> Inl NullDeref
         | Some (b, off) \<Rightarrow> Inr ((b, off), a\<lparr>ar_ptr := Some (b, off + n), ar_remaining := ar_remaining a - n\<rparr>))
      else Inr (AllocateFallback n a))"

definition AllocateAligned :: "nat \<Rightarrow> arena \<Rightarrow> mem_error + ptr \<times> arena" where
  "AllocateAligned n a =
     (let current_mod = (case ar_ptr a of None \<Rightarrow> 0 | Some (b, off) \<Rightarrow> off mod 8);
          slop = (if current_mod = 0 then 0 else 8 - current_mod);
          needed = n + slop
      in bind_res
           (if needed \<le> ar_remaining a then
              (case ar_ptr a of None \<Rightarrow> Inl NullDeref
               | Some (b, off) \<Rightarrow>
                   Inr ((b, off + slop), a\<lparr>ar_ptr := Some (b, off + needed), ar_remaining := ar_remaining a - needed\<rparr>))
            else Inr (AllocateFallback n a))
           (\<lambda>(p, a'). if snd p mod 8 = 0 then Inr (p, a') else Inl AssertionFails))"

section \<open>Allocations never overlap\<close>

text \<open>
  A request asks for a number of bytes, aligned or not; an allocation is the pointer returned with
  the number of bytes it is for.
\<close>

datatype request = Plain nat | Aligned nat

fun request_size :: "request \<Rightarrow> nat" where
  "request_size (Plain n) = n"
| "request_size (Aligned n) = n"

fun serve :: "request \<Rightarrow> arena \<Rightarrow> mem_error + ptr \<times> arena" where
  "serve (Plain n) a = Allocate n a"
| "serve (Aligned n) a = AllocateAligned n a"

fun serve_all :: "request list \<Rightarrow> arena \<Rightarrow> mem_error + (ptr \<times> request) list \<times> arena" where
  "serve_all [] a = Inr ([], a)"
| "serve_all (r # rs) a =
     bind_res (serve r a) (\<lambda>(p, a1). bind_res (serve_all rs a1) (\<lambda>(ps, a2). Inr ((p, r) # ps, a2)))"

definition inside :: "arena \<Rightarrow> ptr \<Rightarrow> nat \<Rightarrow> bool" where
  "inside a p n \<longleftrightarrow> fst p < length (ar_blocks a) \<and> snd p + n \<le> ar_blocks a ! fst p"

definition apart :: "ptr \<times> nat \<Rightarrow> ptr \<times> nat \<Rightarrow> bool" where
  "apart x y \<longleftrightarrow> fst (fst x) \<noteq> fst (fst y) \<or> snd (fst x) + snd x \<le> snd (fst y) \<or> snd (fst y) + snd y \<le> snd (fst x)"

text \<open>The unused part of the current block, apart from everything allocated so far.\<close>

definition arena_ok :: "arena \<Rightarrow> (ptr \<times> nat) list \<Rightarrow> bool" where
  "arena_ok a ps \<longleftrightarrow>
     ar_usage a = sum_list (ar_blocks a) + 8 * length (ar_blocks a) \<and>
     (\<forall>x\<in>set ps. inside a (fst x) (snd x)) \<and> sorted_wrt apart ps \<and>
     (case ar_ptr a of None \<Rightarrow> ar_remaining a = 0
      | Some q \<Rightarrow> inside a q (ar_remaining a) \<and> (\<forall>x\<in>set ps. apart x (q, ar_remaining a)))"

lemma apart_sub: "apart x ((b, off), n) \<Longrightarrow> off \<le> off' \<Longrightarrow> off' + n' \<le> off + n \<Longrightarrow> apart x ((b, off'), n')"
  by (auto simp: apart_def)

lemma fallback_ok:
  assumes "arena_ok a ps" "AllocateFallback n a = (p, a')"
  shows "arena_ok a' (ps @ [(p, n)]) \<and> snd p mod 8 = 0"
proof -
  have old: "inside (a\<lparr>ar_blocks := ar_blocks a @ [k], ar_usage := u, ar_ptr := q, ar_remaining := r\<rparr>) x m" 
    if "inside a x m" for x m k u q r
    using that by (auto simp: inside_def nth_append)
  have new: "apart x ((length (ar_blocks a), off), m)" if "inside a (fst x) (snd x)" for x off m
    using that by (auto simp: inside_def apart_def)
  show ?thesis
    using assms old new
    by (auto simp: AllocateFallback_def AllocateNewBlock_def MemoryUsage_def arena_ok_def sorted_wrt_append arena_kBlockSize_def
        nth_append inside_def apart_def split: if_splits option.splits)
qed

lemma bump_ok:
  assumes "arena_ok a ps" "ar_ptr a = Some (b, off)" "s + n \<le> ar_remaining a"
  shows "arena_ok (a\<lparr>ar_ptr := Some (b, off + (n + s)), ar_remaining := ar_remaining a - (n + s)\<rparr>) (ps @ [((b, off + s), n)])"
proof -
  have "apart x ((b, off + s), n)" "apart x ((b, off + (n + s)), ar_remaining a - (n + s))" if "x \<in> set ps" for x
    using assms that by (auto simp: arena_ok_def apart_def)
  then show ?thesis
    using assms by (auto simp: arena_ok_def inside_def sorted_wrt_append apart_def [of "((b, off + s), n)"])
qed

lemma Allocate_ok:
  assumes ok: "arena_ok a ps" and "0 < n"
  obtains p a' where "Allocate n a = Inr (p, a')" "arena_ok a' (ps @ [(p, n)])"
proof (cases "n \<le> ar_remaining a")
  case True
  then obtain b off where q: "ar_ptr a = Some (b, off)"
    using assms by (cases "ar_ptr a") (auto simp: arena_ok_def)
  then show ?thesis using that bump_ok [OF ok q, of 0 n] True assms(2) by (simp add: Allocate_def)
next
  case False
  obtain p a' where f: "AllocateFallback n a = (p, a')" by (cases "AllocateFallback n a")
  then show ?thesis using that fallback_ok [OF ok f] False assms(2) by (simp add: Allocate_def)
qed

lemma slop_aligned: "((off::nat) + (if off mod 8 = 0 then 0 else 8 - off mod 8)) mod 8 = 0"
  by (cases "off mod 8 = 0") (simp_all, presburger)

lemma AllocateAligned_ok:
  assumes ok: "arena_ok a ps" and "0 < n"
  obtains p a' where "AllocateAligned n a = Inr (p, a')" "arena_ok a' (ps @ [(p, n)])" "snd p mod 8 = 0"
proof -
  define slop where "slop = (case ar_ptr a of None \<Rightarrow> 0 | Some (b, off) \<Rightarrow> if off mod 8 = 0 then 0 else 8 - off mod 8)"
  have aligned: "AllocateAligned n a = bind_res
      (if n + slop \<le> ar_remaining a then
         (case ar_ptr a of None \<Rightarrow> Inl NullDeref
          | Some (b, off) \<Rightarrow> Inr ((b, off + slop),
              a\<lparr>ar_ptr := Some (b, off + (n + slop)), ar_remaining := ar_remaining a - (n + slop)\<rparr>))
       else Inr (AllocateFallback n a))
      (\<lambda>(p, a'). if snd p mod 8 = 0 then Inr (p, a') else Inl AssertionFails)"
    unfolding AllocateAligned_def Let_def slop_def by (cases "ar_ptr a") (auto split: prod.split)
  show ?thesis
  proof (cases "n + slop \<le> ar_remaining a")
    case True
    then obtain b off where q: "ar_ptr a = Some (b, off)"
      using assms by (cases "ar_ptr a") (auto simp: arena_ok_def)
    have "(off + slop) mod 8 = 0" using slop_aligned [of off] q by (simp add: slop_def)
    then show ?thesis using that bump_ok [OF ok q, of slop n] True q unfolding aligned by simp
  next
    case False
    obtain p a' where f: "AllocateFallback n a = (p, a')" by (cases "AllocateFallback n a")
    then show ?thesis using that fallback_ok [OF ok f] False unfolding aligned by simp
  qed
qed

definition aligned_ok :: "ptr \<times> request \<Rightarrow> bool" where
  "aligned_ok x \<longleftrightarrow> (case snd x of Plain n \<Rightarrow> True | Aligned n \<Rightarrow> snd (fst x) mod 8 = 0)"

definition regions :: "(ptr \<times> request) list \<Rightarrow> (ptr \<times> nat) list" where
  "regions xs = map (\<lambda>x. (fst x, request_size (snd x))) xs"

lemma serve_ok:
  assumes "arena_ok a ps" "0 < request_size r"
  obtains p a' where "serve r a = Inr (p, a')" "arena_ok a' (ps @ [(p, request_size r)])" "aligned_ok (p, r)"
proof (cases r)
  case (Plain n)
  then show ?thesis using that Allocate_ok [OF assms(1), of n] assms(2) by (auto simp: aligned_ok_def)
next
  case (Aligned n)
  then show ?thesis using that AllocateAligned_ok [OF assms(1), of n] assms(2) by (auto simp: aligned_ok_def)
qed

lemma serve_all_ok:
  "arena_ok a ps \<Longrightarrow> list_all (\<lambda>r. 0 < request_size r) rs \<Longrightarrow>
   \<exists>xs a'. serve_all rs a = Inr (xs, a') \<and> map snd xs = rs \<and> list_all aligned_ok xs \<and> arena_ok a' (ps @ regions xs)"
proof (induction rs arbitrary: a ps)
  case (Cons r rs)
  have "0 < request_size r" using Cons.prems(2) by simp
  then obtain p a1 where 1: "serve r a = Inr (p, a1)" "arena_ok a1 (ps @ [(p, request_size r)])" "aligned_ok (p, r)"
    using serve_ok [OF Cons.prems(1)] by blast
  then obtain xs a' where "serve_all rs a1 = Inr (xs, a')" "map snd xs = rs" "list_all aligned_ok xs"
      "arena_ok a' ((ps @ [(p, request_size r)]) @ regions xs)"
    using Cons.IH [OF 1(2)] Cons.prems by auto
  then show ?case using 1 by (intro exI [of _ "(p, r) # xs"] exI [of _ a']) (simp add: regions_def)
qed (simp add: regions_def)



end
