(* ===== verification/Ldb_Random.thy ===== *)
theory Ldb_Random
  imports Net_Prelude
begin

text \<open>
  The random number generator of db/leveldb/util/random.h. The state is the seed, and \<open>Next\<close>
  returns the new seed.
\<close>

section \<open>The generator\<close>

definition Random_new :: "u32 \<Rightarrow> u32" where
  "Random_new s = (let seed = s AND 0x7fffffff in if seed = 0 \<or> seed = 2147483647 then 1 else seed)"

definition Random_Next :: "u32 \<Rightarrow> u32" where
  "Random_Next seed =
     (let M = 2147483647 :: u32; A = 16807 :: u64; product = ucast seed * A;
          seed' = ucast (drop_bit 31 product + (product AND ucast M)) :: u32
      in if M < seed' then seed' - M else seed')"

definition Uniform :: "u32 \<Rightarrow> u32 \<Rightarrow> u32 \<times> u32" where
  "Uniform n seed = (let s = Random_Next seed in (s mod n, s))"

definition OneIn :: "u32 \<Rightarrow> u32 \<Rightarrow> bool \<times> u32" where
  "OneIn n seed = (let s = Random_Next seed in (s mod n = 0, s))"

definition Skewed :: "u32 \<Rightarrow> u32 \<Rightarrow> u32 \<times> u32" where
  "Skewed max_log seed =
     (case Uniform (max_log + 1) seed of (k, s) \<Rightarrow> Uniform (push_bit (unat k) 1) s)"

section \<open>What it computes\<close>

text \<open>Seeds that the generator keeps.\<close>

definition good_seed :: "u32 \<Rightarrow> bool" where "good_seed s \<longleftrightarrow> 0 < unat s \<and> unat s < 2147483647"

lemma unat_and_mask31: "unat ((x::'a::len word) AND mask 31) = unat x mod 2 ^ 31"
  unfolding take_bit_eq_mask [symmetric] unsigned_take_bit_eq by (rule take_bit_eq_mod)

lemma mask31: "(2147483647 :: 'a::len word) = mask 31"
  by (simp add: mask_eq_exp_minus_1)

lemma Random_new_good: "good_seed (Random_new s)"
proof -
  have "unat (s AND 0x7fffffff) < 2 ^ 31" unfolding mask31 unat_and_mask31 by simp
  then have lt: "unat (s AND 0x7fffffff) < 2147483648" by simp
  show ?thesis
  proof (cases "s AND 0x7fffffff = 0 \<or> s AND 0x7fffffff = 2147483647")
    case True
    then show ?thesis unfolding Random_new_def Let_def good_seed_def by simp
  next
    case False
    then have "unat (s AND 0x7fffffff) \<noteq> 0" "unat (s AND 0x7fffffff) \<noteq> 2147483647"
      by (auto simp: unat_eq_zero word_unat_eq_iff [of _ 2147483647])
    then show ?thesis using False lt unfolding Random_new_def Let_def good_seed_def by simp
  qed
qed

lemma coprime_multiplier: "coprime (2147483647 :: nat) 16807"
  by (simp add: coprime_iff_gcd_eq_1 gcd_non_0_nat)

lemma mersenne_split: "((n::nat) div 2 ^ 31 + n mod 2 ^ 31) mod 2147483647 = n mod 2147483647"
proof -
  define a where "a = n div 2 ^ 31"
  define b where "b = n mod 2 ^ 31"
  have "a * 2 ^ 31 + b = n" unfolding a_def b_def by (rule div_mult_mod_eq)
  then have "n = (a + b) + a * 2147483647" by simp
  then have "n mod 2147483647 = (a + b) mod 2147483647" by (metis mod_mult_self1)
  then show ?thesis by (simp only: a_def b_def)
qed

lemma Random_Next_mod:
  assumes "good_seed s"
  shows "unat (Random_Next s) = 16807 * unat s mod 2147483647" and "good_seed (Random_Next s)"
proof -
  define p where "p = 16807 * unat s"
  have p: "p < 36098159000000" using assms by (simp add: p_def good_seed_def)
  have pr: "unat (ucast s * 16807 :: u64) = p"
    using p by (simp add: p_def unat_word_ariths unsigned_ucast_eq take_bit_eq_mod mult.commute)
  define q where "q = p div 2 ^ 31 + p mod 2 ^ 31"
  have q: "q < 2147483648 + 16810"
  proof -
    have "p div 2 ^ 31 < 16810" using p by (simp add: div_less_iff_less_mult)
    moreover have "p mod 2 ^ 31 < 2147483648" by simp
    ultimately show ?thesis unfolding q_def by linarith
  qed
  define w where "w = drop_bit 31 (ucast s * 16807 :: u64) + ((ucast s * 16807) AND 2147483647)"
  have d: "unat (drop_bit 31 (ucast s * 16807 :: u64)) = p div 2 ^ 31"
    using p unfolding unsigned_drop_bit_eq pr by (simp add: drop_bit_eq_div take_bit_eq_mod)
  have "unat w = p div 2 ^ 31 + p mod 2 ^ 31"
    using q unfolding w_def mask31 q_def
    by (subst unat_add_lem [THEN iffD1]) (simp_all only: unat_and_mask31 pr d, simp)
  then have "unat w = q" by (simp only: q_def)
  then have c: "unat (ucast w :: u32) = q" using q by (simp add: unsigned_ucast_eq take_bit_eq_mod)
  have nz: "\<not> 2147483647 dvd p"
    unfolding p_def using assms coprime_multiplier
    by (auto simp: coprime_dvd_mult_right_iff good_seed_def dest: dvd_imp_le)
  have m: "q mod 2147483647 = p mod 2147483647" unfolding q_def by (rule mersenne_split)
  have "unat (Random_Next s) = q mod 2147483647"
  proof (cases "2147483647 < q")
    case True
    have "Random_Next s = ucast w - 2147483647"
      unfolding Random_Next_def Let_def w_def [symmetric] using True c by (simp add: word_less_nat_alt w_def)
    then have "unat (Random_Next s) = q - 2147483647"
      using True c by (simp add: unat_sub word_le_nat_alt)
    then show ?thesis using True q by (simp add: mod_if)
  next
    case False
    have "Random_Next s = ucast w"
      unfolding Random_Next_def Let_def using False c by (simp add: word_less_nat_alt w_def)
    moreover have "q \<noteq> 2147483647" using m nz by (auto simp: dvd_eq_mod_eq_0)
    ultimately show ?thesis using False c by simp
  qed
  then show "unat (Random_Next s) = 16807 * unat s mod 2147483647" using m by (simp add: p_def)
  then show "good_seed (Random_Next s)"
    using nz unfolding good_seed_def p_def by (simp add: dvd_eq_mod_eq_0)
qed

end
