(* ===== verification/Ldb_Loop.thy ===== *)
theory Ldb_Loop
  imports Net_Prelude
begin

text \<open>
  Loops that end with a return: \<open>while (true)\<close> over a body that fails, goes on with a new state or
  returns a result. A loop that never returns has the value \<open>None\<close>.
\<close>

partial_function (option) run_loop :: "('s \<Rightarrow> 'e + ('s + 'r)) \<Rightarrow> 's \<Rightarrow> ('e + 'r) option" where
  "run_loop f s = (case f s of Inl e \<Rightarrow> Some (Inl e)
     | Inr t \<Rightarrow> (case t of Inl s' \<Rightarrow> run_loop f s' | Inr r \<Rightarrow> Some (Inr r)))"

fun bind_run :: "('e + 'a) option \<Rightarrow> ('a \<Rightarrow> ('e + 'b) option) \<Rightarrow> ('e + 'b) option" where
  "bind_run None f = None"
| "bind_run (Some (Inl e)) f = Some (Inl e)"
| "bind_run (Some (Inr x)) f = f x"

lemma run_loop_simps:
  "f s = Inl e \<Longrightarrow> run_loop f s = Some (Inl e)"
  "f s = Inr (Inl s') \<Longrightarrow> run_loop f s = run_loop f s'"
  "f s = Inr (Inr r) \<Longrightarrow> run_loop f s = Some (Inr r)"
  by (simp_all add: run_loop.simps [of f s])

text \<open>
  A loop whose body keeps an invariant and decreases a well-founded order returns, with the
  property that the body establishes when it returns.
\<close>

lemma run_loop_total:
  assumes "wf r" "I s"
    and step: "\<And>s. I s \<Longrightarrow> (\<exists>s'. f s = Inr (Inl s') \<and> I s' \<and> (s', s) \<in> r) \<or> (\<exists>x. f s = Inr (Inr x) \<and> Q x)"
  shows "\<exists>x. run_loop f s = Some (Inr x) \<and> Q x"
  using assms(1,2)
proof (induction s rule: wf_induct_rule)
  case (less s)
  then show ?case using step [of s] run_loop_simps(2,3) [of f s] by metis
qed

lemma bind_run_eq_Inr [simp]:
  "bind_run m f = Some (Inr y) \<longleftrightarrow> (\<exists>x. m = Some (Inr x) \<and> f x = Some (Inr y))"
  by (cases m rule: option.exhaust; cases "the m") auto

lemma bind_run_cong [fundef_cong]:
  "m = m' \<Longrightarrow> (\<And>x. m' = Some (Inr x) \<Longrightarrow> f x = f' x) \<Longrightarrow> bind_run m f = bind_run m' f'"
  by (cases m rule: option.exhaust; cases "the m") auto

lemma bind_run_assoc: "bind_run (bind_run m f) g = bind_run m (\<lambda>x. bind_run (f x) g)"
  by (cases m rule: option.exhaust; cases "the m") auto

text \<open>The loop whose body is itself a computation that may not end.\<close>

partial_function (option) while_run :: "('s \<Rightarrow> ('e + ('s + 'r)) option) \<Rightarrow> 's \<Rightarrow> ('e + 'r) option" where
  "while_run f s = Option.bind (f s) (\<lambda>x. case x of Inl e \<Rightarrow> Some (Inl e)
     | Inr t \<Rightarrow> (case t of Inl s' \<Rightarrow> while_run f s' | Inr r \<Rightarrow> Some (Inr r)))"

lemma while_run_simps:
  "f s = Some (Inl e) \<Longrightarrow> while_run f s = Some (Inl e)"
  "f s = Some (Inr (Inl s')) \<Longrightarrow> while_run f s = while_run f s'"
  "f s = Some (Inr (Inr r)) \<Longrightarrow> while_run f s = Some (Inr r)"
  by (simp_all add: while_run.simps [of f s])

lemma while_run_total:
  assumes "wf r" "I s"
    and step: "\<And>s. I s \<Longrightarrow> (\<exists>s'. f s = Some (Inr (Inl s')) \<and> I s' \<and> (s', s) \<in> r) \<or> (\<exists>x. f s = Some (Inr (Inr x)) \<and> Q x)"
  shows "\<exists>x. while_run f s = Some (Inr x) \<and> Q x"
  using assms(1,2)
proof (induction s rule: wf_induct_rule)
  case (less s)
  then show ?case using step [of s] while_run_simps(2,3) [of f s] by metis
qed

end
