(* ===== verification/Ldb_Skiplist.thy ===== *)
theory Ldb_Skiplist
  imports Ldb_Arena Ldb_Random Ldb_Loop
begin

text \<open>
  The skip list of db/leveldb/db/skiplist.h. A node is an index into the list of nodes, the head is
  node 0 and \<open>NULL\<close> is \<open>None\<close>. A link of a new node has no value until it is stored. Keys are
  pointers, so a node has 16 bytes and 8 more for every link above the first. The arena that the
  list points to is a field of its state.
\<close>

section \<open>Nodes\<close>

definition kMaxHeight :: nat where "kMaxHeight = 12"
definition kBranching :: u32 where "kBranching = 4"

record 'k node =
  node_key :: 'k
  node_next :: "nat option option list"

record 'k skiplist =
  sl_nodes :: "'k node list"
  sl_max_height :: nat
  sl_rnd :: u32
  sl_arena :: arena

definition GetMaxHeight :: "'k skiplist \<Rightarrow> nat" where "GetMaxHeight sl = sl_max_height sl"

definition key_at :: "'k skiplist \<Rightarrow> nat \<Rightarrow> mem_error + 'k" where
  "key_at sl x = (if x < length (sl_nodes sl) then Inr (node_key (sl_nodes sl ! x)) else Inl UseAfterFree)"

definition node_Next :: "'k skiplist \<Rightarrow> nat \<Rightarrow> nat \<Rightarrow> mem_error + nat option" where
  "node_Next sl x n =
     (if length (sl_nodes sl) \<le> x then Inl UseAfterFree
      else if length (node_next (sl_nodes sl ! x)) \<le> n then Inl OutOfBounds
      else (case node_next (sl_nodes sl ! x) ! n of None \<Rightarrow> Inl Uninitialised | Some p \<Rightarrow> Inr p))"

definition node_SetNext :: "'k skiplist \<Rightarrow> nat \<Rightarrow> nat \<Rightarrow> nat option \<Rightarrow> mem_error + 'k skiplist" where
  "node_SetNext sl x n p =
     (if length (sl_nodes sl) \<le> x then Inl UseAfterFree
      else
        (let nd = sl_nodes sl ! x in
         if length (node_next nd) \<le> n then Inl OutOfBounds
         else Inr (sl\<lparr>sl_nodes := (sl_nodes sl)[x := nd\<lparr>node_next := (node_next nd)[n := Some p]\<rparr>]\<rparr>)))"

definition NewNode :: "'k \<Rightarrow> nat \<Rightarrow> 'k skiplist \<Rightarrow> mem_error + nat \<times> 'k skiplist" where
  "NewNode key height sl =
     bind_res (AllocateAligned (16 + 8 * (height - 1)) (sl_arena sl)) (\<lambda>(p, a).
       Inr (length (sl_nodes sl),
            sl\<lparr>sl_nodes := sl_nodes sl @ [\<lparr>node_key = key, node_next = replicate height None\<rparr>], sl_arena := a\<rparr>))"

fun set_heads :: "nat list \<Rightarrow> 'k skiplist \<Rightarrow> mem_error + 'k skiplist" where
  "set_heads [] sl = Inr sl"
| "set_heads (i # is) sl = bind_res (node_SetNext sl 0 i None) (set_heads is)"

definition SkipList_new :: "'k \<Rightarrow> arena \<Rightarrow> mem_error + 'k skiplist" where
  "SkipList_new key0 a =
     bind_res (NewNode key0 kMaxHeight \<lparr>sl_nodes = [], sl_max_height = 1, sl_rnd = Random_new 0xdeadbeef, sl_arena = a\<rparr>)
       (\<lambda>(x, sl). set_heads [0..<kMaxHeight] sl)"

section \<open>Heights\<close>

function random_height :: "nat \<Rightarrow> u32 \<Rightarrow> nat \<times> u32" where
  "random_height height rnd =
     (if height < kMaxHeight then
        (let rnd' = Random_Next rnd in
         if rnd' mod kBranching = 0 then random_height (height + 1) rnd' else (height, rnd'))
      else (height, rnd))"
  by pat_completeness auto
termination
  by (relation "measure (\<lambda>(height, rnd). kMaxHeight - height)") auto

declare random_height.simps [simp del]

definition RandomHeight :: "'k skiplist \<Rightarrow> nat \<times> 'k skiplist" where
  "RandomHeight sl = (case random_height 1 (sl_rnd sl) of (height, rnd) \<Rightarrow> (height, sl\<lparr>sl_rnd := rnd\<rparr>))"

section \<open>Searching\<close>

definition KeyIsAfterNode :: "('k \<Rightarrow> 'k \<Rightarrow> int) \<Rightarrow> 'k skiplist \<Rightarrow> 'k \<Rightarrow> nat option \<Rightarrow> mem_error + bool" where
  "KeyIsAfterNode compare sl key n =
     (case n of None \<Rightarrow> Inr False | Some x \<Rightarrow> bind_res (key_at sl x) (\<lambda>k. Inr (compare k key < 0)))"

text \<open>The array \<open>prev\<close> of the caller, or \<open>None\<close> for a null pointer; its entries start without a value.\<close>

type_synonym prev_array = "nat option list option"

definition set_prev :: "prev_array \<Rightarrow> nat \<Rightarrow> nat \<Rightarrow> mem_error + prev_array" where
  "set_prev prev level x = (case prev of None \<Rightarrow> Inr None
     | Some ps \<Rightarrow> if level < length ps then Inr (Some (ps[level := Some x])) else Inl OutOfBounds)"

text \<open>One round of a search from node \<open>x\<close> at a level: go on, or return.\<close>

definition ge_turn :: "('k \<Rightarrow> 'k \<Rightarrow> int) \<Rightarrow> 'k skiplist \<Rightarrow> 'k \<Rightarrow> nat \<times> nat \<times> prev_array \<Rightarrow>
    mem_error + ((nat \<times> nat \<times> prev_array) + nat option \<times> prev_array)" where
  "ge_turn compare sl key = (\<lambda>(x, level, prev).
     bind_res (node_Next sl x level) (\<lambda>next. bind_res (KeyIsAfterNode compare sl key next) (\<lambda>after.
       if after then Inr (Inl (the next, level, prev))
       else bind_res (set_prev prev level x) (\<lambda>prev'.
         if level = 0 then Inr (Inr (next, prev')) else Inr (Inl (x, level - 1, prev'))))))"

definition FindGreaterOrEqual ::
    "('k \<Rightarrow> 'k \<Rightarrow> int) \<Rightarrow> 'k skiplist \<Rightarrow> 'k \<Rightarrow> prev_array \<Rightarrow> (mem_error + nat option \<times> prev_array) option" where
  "FindGreaterOrEqual compare sl key prev = run_loop (ge_turn compare sl key) (0, GetMaxHeight sl - 1, prev)"

definition lt_turn :: "('k \<Rightarrow> 'k \<Rightarrow> int) \<Rightarrow> 'k skiplist \<Rightarrow> 'k \<Rightarrow> nat \<times> nat \<Rightarrow> mem_error + (nat \<times> nat + nat)" where
  "lt_turn compare sl key = (\<lambda>(x, level).
     bind_res (if x = 0 then Inr True else bind_res (key_at sl x) (\<lambda>k. Inr (compare k key < 0))) (\<lambda>before.
       if \<not> before then Inl AssertionFails
       else bind_res (node_Next sl x level) (\<lambda>next.
         case next of
           None \<Rightarrow> Inr (if level = 0 then Inr x else Inl (x, level - 1))
         | Some y \<Rightarrow> bind_res (key_at sl y) (\<lambda>k.
             Inr (if 0 \<le> compare k key then (if level = 0 then Inr x else Inl (x, level - 1)) else Inl (y, level))))))"

definition FindLessThan :: "('k \<Rightarrow> 'k \<Rightarrow> int) \<Rightarrow> 'k skiplist \<Rightarrow> 'k \<Rightarrow> (mem_error + nat) option" where
  "FindLessThan compare sl key = run_loop (lt_turn compare sl key) (0, GetMaxHeight sl - 1)"

definition last_turn :: "'k skiplist \<Rightarrow> nat \<times> nat \<Rightarrow> mem_error + (nat \<times> nat + nat)" where
  "last_turn sl = (\<lambda>(x, level).
     bind_res (node_Next sl x level) (\<lambda>next.
       case next of
         None \<Rightarrow> Inr (if level = 0 then Inr x else Inl (x, level - 1))
       | Some y \<Rightarrow> Inr (Inl (y, level))))"

definition FindLast :: "'k skiplist \<Rightarrow> (mem_error + nat) option" where
  "FindLast sl = run_loop (last_turn sl) (0, GetMaxHeight sl - 1)"

section \<open>Insertion\<close>

text \<open>
  What \<open>Insert\<close> does before it links the new node: find its place, choose a height, raise the height
  of the list and allocate the node.
\<close>

definition Equal :: "('k \<Rightarrow> 'k \<Rightarrow> int) \<Rightarrow> 'k \<Rightarrow> 'k \<Rightarrow> bool" where "Equal compare a b \<longleftrightarrow> compare a b = 0"

fun fill_prev :: "nat list \<Rightarrow> prev_array \<Rightarrow> mem_error + prev_array" where
  "fill_prev [] prev = Inr prev"
| "fill_prev (i # is) prev = bind_res (set_prev prev i 0) (fill_prev is)"

definition not_present :: "('k \<Rightarrow> 'k \<Rightarrow> int) \<Rightarrow> 'k skiplist \<Rightarrow> 'k \<Rightarrow> nat option \<Rightarrow> mem_error + unit" where
  "not_present compare sl key x = (case x of None \<Rightarrow> Inr ()
     | Some n \<Rightarrow> bind_res (key_at sl n) (\<lambda>k. if Equal compare key k then Inl AssertionFails else Inr ()))"

definition insert_begin ::
    "('k \<Rightarrow> 'k \<Rightarrow> int) \<Rightarrow> 'k \<Rightarrow> 'k skiplist \<Rightarrow> (mem_error + nat \<times> nat \<times> prev_array \<times> 'k skiplist) option" where
  "insert_begin compare key sl =
     bind_run (FindGreaterOrEqual compare sl key (Some (replicate kMaxHeight None))) (\<lambda>(x, prev). Some (
       bind_res (not_present compare sl key x) (\<lambda>_.
       case RandomHeight sl of (height, sl1) \<Rightarrow>
       bind_res (if GetMaxHeight sl1 < height then fill_prev [GetMaxHeight sl1..<height] prev else Inr prev) (\<lambda>prev'.
       let sl2 = (if GetMaxHeight sl1 < height then sl1\<lparr>sl_max_height := height\<rparr> else sl1)
       in bind_res (NewNode key height sl2) (\<lambda>(n, sl3). Inr (n, height, prev', sl3))))))"

definition prev_at :: "prev_array \<Rightarrow> nat \<Rightarrow> mem_error + nat" where
  "prev_at prev i = (case prev of None \<Rightarrow> Inl NullDeref
     | Some ps \<Rightarrow> if length ps \<le> i then Inl OutOfBounds
         else (case ps ! i of None \<Rightarrow> Inl Uninitialised | Some p \<Rightarrow> Inr p))"

text \<open>The two stores for a level: the new node gets its successor, then its predecessor gets the new node.\<close>

definition store_new :: "nat \<Rightarrow> prev_array \<Rightarrow> nat \<Rightarrow> 'k skiplist \<Rightarrow> mem_error + 'k skiplist" where
  "store_new x prev i sl = bind_res (prev_at prev i) (\<lambda>p. bind_res (node_Next sl p i) (\<lambda>next. node_SetNext sl x i next))"

definition store_prev :: "nat \<Rightarrow> prev_array \<Rightarrow> nat \<Rightarrow> 'k skiplist \<Rightarrow> mem_error + 'k skiplist" where
  "store_prev x prev i sl = bind_res (prev_at prev i) (\<lambda>p. node_SetNext sl p i (Some x))"

fun link_levels :: "nat list \<Rightarrow> nat \<Rightarrow> prev_array \<Rightarrow> 'k skiplist \<Rightarrow> mem_error + 'k skiplist" where
  "link_levels [] x prev sl = Inr sl"
| "link_levels (i # is) x prev sl =
     bind_res (store_new x prev i sl) (\<lambda>sl1. bind_res (store_prev x prev i sl1) (link_levels is x prev))"

definition Insert :: "('k \<Rightarrow> 'k \<Rightarrow> int) \<Rightarrow> 'k \<Rightarrow> 'k skiplist \<Rightarrow> (mem_error + 'k skiplist) option" where
  "Insert compare key sl =
     bind_run (insert_begin compare key sl) (\<lambda>(x, height, prev, sl1). Some (link_levels [0..<height] x prev sl1))"

definition Contains :: "('k \<Rightarrow> 'k \<Rightarrow> int) \<Rightarrow> 'k skiplist \<Rightarrow> 'k \<Rightarrow> (mem_error + bool) option" where
  "Contains compare sl key =
     bind_run (FindGreaterOrEqual compare sl key None) (\<lambda>(x, _).
       case x of None \<Rightarrow> Some (Inr False)
       | Some n \<Rightarrow> Some (bind_res (key_at sl n) (\<lambda>k. Inr (Equal compare key k))))"

section \<open>Iterators\<close>

text \<open>The state of an iterator is its node.\<close>

definition iter_Valid :: "nat option \<Rightarrow> bool" where "iter_Valid it \<longleftrightarrow> it \<noteq> None"

definition iter_key :: "'k skiplist \<Rightarrow> nat option \<Rightarrow> mem_error + 'k" where
  "iter_key sl it = (case it of None \<Rightarrow> Inl AssertionFails | Some x \<Rightarrow> key_at sl x)"

definition iter_Next :: "'k skiplist \<Rightarrow> nat option \<Rightarrow> mem_error + nat option" where
  "iter_Next sl it = (case it of None \<Rightarrow> Inl AssertionFails | Some x \<Rightarrow> node_Next sl x 0)"

definition not_head :: "nat \<Rightarrow> nat option" where "not_head x = (if x = 0 then None else Some x)"

definition iter_Prev :: "('k \<Rightarrow> 'k \<Rightarrow> int) \<Rightarrow> 'k skiplist \<Rightarrow> nat option \<Rightarrow> (mem_error + nat option) option" where
  "iter_Prev compare sl it =
     bind_run (Some (iter_key sl it)) (\<lambda>k. bind_run (FindLessThan compare sl k) (\<lambda>x. Some (Inr (not_head x))))"

definition iter_Seek :: "('k \<Rightarrow> 'k \<Rightarrow> int) \<Rightarrow> 'k skiplist \<Rightarrow> 'k \<Rightarrow> (mem_error + nat option) option" where
  "iter_Seek compare sl target = bind_run (FindGreaterOrEqual compare sl target None) (\<lambda>(x, _). Some (Inr x))"

definition iter_SeekToFirst :: "'k skiplist \<Rightarrow> mem_error + nat option" where
  "iter_SeekToFirst sl = node_Next sl 0 0"

definition iter_SeekToLast :: "'k skiplist \<Rightarrow> (mem_error + nat option) option" where
  "iter_SeekToLast sl = bind_run (FindLast sl) (\<lambda>x. Some (Inr (not_head x)))"

end
