(* ===== verification/Ldb_Skiplist_Correct.thy ===== *)
theory Ldb_Skiplist_Correct
  imports Ldb_Skiplist
begin

text \<open>
  Searching the skip list: the list of its nodes in order as the abstraction, the invariant that ties
  the links of every level to it, and what the searches return. Insertion is in the theory that
  follows.
\<close>

section \<open>Orders on keys\<close>

locale key_order =
  fixes compare :: "'k \<Rightarrow> 'k \<Rightarrow> int" and ok :: "'k \<Rightarrow> bool"
  assumes swap: "ok a \<Longrightarrow> ok b \<Longrightarrow> compare a b < 0 \<longleftrightarrow> 0 < compare b a"
    and trans: "ok a \<Longrightarrow> ok b \<Longrightarrow> ok c \<Longrightarrow> compare a b \<le> 0 \<Longrightarrow> compare b c \<le> 0 \<Longrightarrow> compare a c \<le> 0"
begin

lemma self: "ok a \<Longrightarrow> compare a a = 0"
  using swap [of a a] by linarith

lemma not_less: "ok a \<Longrightarrow> ok b \<Longrightarrow> \<not> compare a b < 0 \<longleftrightarrow> compare b a \<le> 0"
  using swap [of a b] by linarith

lemma less_le_trans: "ok a \<Longrightarrow> ok b \<Longrightarrow> ok c \<Longrightarrow> compare a b < 0 \<Longrightarrow> compare b c \<le> 0 \<Longrightarrow> compare a c < 0"
  using trans [of b c a] not_less [of a c] not_less [of a b] by linarith

lemma le_less_trans: "ok a \<Longrightarrow> ok b \<Longrightarrow> ok c \<Longrightarrow> compare a b \<le> 0 \<Longrightarrow> compare b c < 0 \<Longrightarrow> compare a c < 0"
  using trans [of c a b] not_less [of a c] not_less [of b c] by linarith

end

section \<open>Chains of links\<close>

abbreviation nkey :: "'k skiplist \<Rightarrow> nat \<Rightarrow> 'k" where "nkey sl x \<equiv> node_key (sl_nodes sl ! x)"
abbreviation height :: "'k skiplist \<Rightarrow> nat \<Rightarrow> nat" where "height sl x \<equiv> length (node_next (sl_nodes sl ! x))"

primrec chain :: "'k skiplist \<Rightarrow> nat \<Rightarrow> nat \<Rightarrow> nat list \<Rightarrow> bool" where
  "chain sl i x [] \<longleftrightarrow> node_Next sl x i = Inr None"
| "chain sl i x (y # ys) \<longleftrightarrow> node_Next sl x i = Inr (Some y) \<and> chain sl i y ys"

definition first :: "'a list \<Rightarrow> 'a option" where "first xs = (case xs of [] \<Rightarrow> None | x # _ \<Rightarrow> Some x)"

lemma first_simps [simp]: "first [] = None" "first (x # xs) = Some x"
  by (simp_all add: first_def)

lemma first_filter: "first (filter P ys) = Some y \<Longrightarrow> y \<in> set ys \<and> P y"
  by (induction ys) (auto split: if_splits)

lemma chain_next: "chain sl i x ys \<Longrightarrow> node_Next sl x i = Inr (first ys)"
  by (cases ys) simp_all

lemma chain_suffix: "chain sl i x (as @ y # bs) \<Longrightarrow> chain sl i y bs"
  by (induction as arbitrary: x) auto

lemma chain_cong:
  "chain sl i x ys \<Longrightarrow> (\<And>z. z \<in> set (x # ys) \<Longrightarrow> node_Next sl' z i = node_Next sl z i) \<Longrightarrow> chain sl' i x ys"
  by (induction ys arbitrary: x) simp_all

text \<open>What a store to a link leaves as it is.\<close>

definition same_shape :: "'k skiplist \<Rightarrow> 'k skiplist \<Rightarrow> bool" where
  "same_shape sl sl' \<longleftrightarrow> length (sl_nodes sl') = length (sl_nodes sl) \<and> (\<forall>y. nkey sl' y = nkey sl y \<and> height sl' y = height sl y) \<and>
     sl_max_height sl' = sl_max_height sl \<and> sl_arena sl' = sl_arena sl \<and> sl_rnd sl' = sl_rnd sl"

lemma SetNext_Inr:
  assumes "x < length (sl_nodes sl)" "n < height sl x"
  obtains sl' where "node_SetNext sl x n p = Inr sl'" "same_shape sl sl'"
    "\<forall>y j. node_Next sl' y j = (if y = x \<and> j = n then Inr p else node_Next sl y j)"
proof -
  let ?sl = "sl\<lparr>sl_nodes := (sl_nodes sl)[x := (sl_nodes sl ! x)\<lparr>node_next := (node_next (sl_nodes sl ! x))[n := Some p]\<rparr>]\<rparr>"
  have "node_SetNext sl x n p = Inr ?sl" using assms by (simp add: node_SetNext_def Let_def)
  moreover have "node_Next ?sl y j = (if y = x \<and> j = n then Inr p else node_Next sl y j)" for y j
    using assms by (auto simp: node_Next_def nth_list_update)
  moreover have "same_shape sl ?sl"
    using assms by (auto simp: same_shape_def nth_list_update)
  ultimately show ?thesis using that [of ?sl] by simp
qed

lemma chain_mid: "chain sl i x (as @ bs) \<Longrightarrow> node_Next sl (last (x # as)) i = Inr (first bs)"
  by (induction as arbitrary: x) (auto simp: chain_next)

lemma chain_insert:
  assumes "chain sl i x (as @ bs)" "p = last (x # as)" "distinct (x # as @ bs)" "n \<notin> set (x # as @ bs)"
    and "node_Next sl n i = Inr (first bs)"
    and upd: "\<And>y j. node_Next sl' y j = (if y = p \<and> j = i then Inr (Some n) else node_Next sl y j)"
  shows "chain sl' i x (as @ n # bs)"
  using assms(1-4)
proof (induction as arbitrary: x)
  case Nil
  have "chain sl' i n bs"
  proof (cases bs)
    case Nil
    then show ?thesis using assms(5) Nil.prems by (auto simp: upd)
  next
    case (Cons b cs)
    then have "chain sl i b cs" "b \<noteq> p" "p \<notin> set cs" "n \<noteq> p" using Nil.prems by auto
    then have "chain sl' i b cs" by (auto intro!: chain_cong [of sl i b cs] simp: upd)
    then show ?thesis using assms(5) Cons \<open>n \<noteq> p\<close> by (simp add: upd)
  qed
  then show ?case using Nil.prems by (simp add: upd)
next
  case (Cons a as)
  have "x \<noteq> p" using Cons.prems by (auto split: if_splits)
  then show ?case using Cons by (auto simp: upd split: if_splits)
qed

section \<open>The invariant\<close>

text \<open>
  \<open>xs\<close> are the nodes of the list in order, and \<open>pub x\<close> is the number of levels in which node \<open>x\<close> is
  linked: its height, except for a node that is being inserted. At every level the links run
  through the nodes that are linked there.
\<close>

definition sl_inv :: "('k \<Rightarrow> 'k \<Rightarrow> int) \<Rightarrow> ('k \<Rightarrow> bool) \<Rightarrow> 'k skiplist \<Rightarrow> nat list \<Rightarrow> (nat \<Rightarrow> nat) \<Rightarrow> bool" where
  "sl_inv compare ok sl xs pub \<longleftrightarrow>
     1 \<le> sl_max_height sl \<and> sl_max_height sl \<le> kMaxHeight \<and>
     0 < length (sl_nodes sl) \<and> height sl 0 = kMaxHeight \<and>
     (\<forall>x\<in>set xs. 0 < x \<and> x < length (sl_nodes sl) \<and> 0 < pub x \<and> pub x \<le> height sl x \<and>
        height sl x \<le> sl_max_height sl \<and> ok (nkey sl x)) \<and>
     sorted_wrt (\<lambda>x y. compare (nkey sl x) (nkey sl y) < 0) xs \<and>
     (\<forall>i<kMaxHeight. chain sl i 0 (filter (\<lambda>x. i < pub x) xs)) \<and>
     (\<exists>ps. arena_ok (sl_arena sl) ps)"

text \<open>Where a search at some level may stand: at the head or at a node linked there with a key below the target.\<close>

definition at_level :: "('k \<Rightarrow> 'k \<Rightarrow> int) \<Rightarrow> 'k skiplist \<Rightarrow> nat list \<Rightarrow> (nat \<Rightarrow> nat) \<Rightarrow> 'k \<Rightarrow> nat \<Rightarrow> nat \<Rightarrow> bool" where
  "at_level compare sl xs pub k x i \<longleftrightarrow>
     i < kMaxHeight \<and> (x = 0 \<or> x \<in> set xs \<and> compare (nkey sl x) k < 0 \<and> i < pub x)"

text \<open>The nodes behind a node, and the last node of a level before a key.\<close>

definition behind :: "nat \<Rightarrow> nat list \<Rightarrow> nat list" where
  "behind x xs = (if x = 0 then xs else tl (dropWhile (\<lambda>y. y \<noteq> x) xs))"

definition last_before :: "('k \<Rightarrow> 'k \<Rightarrow> int) \<Rightarrow> 'k skiplist \<Rightarrow> nat list \<Rightarrow> (nat \<Rightarrow> nat) \<Rightarrow> 'k \<Rightarrow> nat \<Rightarrow> nat" where
  "last_before compare sl xs pub k i = last (0 # filter (\<lambda>y. i < pub y \<and> compare (nkey sl y) k < 0) xs)"

lemma behind_split: "x \<noteq> 0 \<Longrightarrow> x \<notin> set as \<Longrightarrow> behind x (as @ x # bs) = bs"
  by (induction as) (auto simp: behind_def)

context key_order
begin

lemma inv_distinct: "sl_inv compare ok sl xs pub \<Longrightarrow> distinct xs \<and> 0 \<notin> set xs"
proof -
  assume "sl_inv compare ok sl xs pub"
  then have "\<forall>x\<in>set xs. ok (nkey sl x) \<and> x \<noteq> 0" "sorted_wrt (\<lambda>x y. compare (nkey sl x) (nkey sl y) < 0) xs"
    by (auto simp: sl_inv_def)
  then show ?thesis by (induction xs) (simp, use self in fastforce)
qed

lemma next_at:
  assumes inv: "sl_inv compare ok sl xs pub" and "i < kMaxHeight" "x = 0 \<or> x \<in> set xs \<and> i < pub x"
  shows "node_Next sl x i = Inr (first (filter (\<lambda>y. i < pub y) (behind x xs)))"
proof -
  have c: "chain sl i 0 (filter (\<lambda>y. i < pub y) xs)" using assms by (simp add: sl_inv_def)
  show ?thesis
  proof (cases "x = 0")
    case True
    then show ?thesis using chain_next [OF c] by (simp add: behind_def)
  next
    case False
    then obtain as bs where xs: "xs = as @ x # bs" "x \<notin> set as" using assms(3) by (metis split_list_first)
    then have "chain sl i x (filter (\<lambda>y. i < pub y) bs)"
      using c assms(3) False chain_suffix [of sl i 0 "filter (\<lambda>y. i < pub y) as" x] by simp
    then show ?thesis using chain_next behind_split xs False by metis
  qed
qed

lemma behind_set: "set (behind x xs) \<subseteq> set xs"
proof -
  have "y \<in> set (tl ys) \<Longrightarrow> y \<in> set ys" for y and ys :: "nat list" by (cases ys) auto
  then show ?thesis by (auto simp: behind_def dest: set_dropWhileD)
qed

lemma behind_shorter:
  assumes "distinct xs" "0 \<notin> set xs" "y \<in> set (behind x xs)"
  shows "length (behind y xs) < length (behind x xs)"
proof (cases "x = 0")
  case True
  then have "y \<in> set xs" using assms(3) by (simp add: behind_def)
  then obtain as bs where "xs = as @ y # bs" "y \<notin> set as" by (metis split_list_first)
  then show ?thesis using True assms behind_split [of y as bs] by (auto simp: behind_def)
next
  case False
  have "x \<in> set xs"
  proof (rule ccontr)
    assume "x \<notin> set xs"
    then have "behind x xs = []" using False by (induction xs) (auto simp: behind_def)
    then show False using assms(3) by simp
  qed
  then obtain as bs where xs: "xs = as @ x # bs" "x \<notin> set as" by (metis split_list_first)
  then have b: "behind x xs = bs" using behind_split False by metis
  then obtain cs ds where bs: "bs = cs @ y # ds" "y \<notin> set cs" using assms(3) by (metis split_list_first)
  have "y \<noteq> 0" "y \<notin> set (as @ x # cs)" using assms xs bs by auto
  then have "behind y xs = ds" using behind_split [of y "as @ x # cs" ds] xs bs by simp
  then show ?thesis using b bs by simp
qed

lemma sorted_ge:
  assumes "ok k" "\<forall>y\<in>set ys. ok (key y)" "sorted_wrt (\<lambda>x y. compare (key x) (key y) < 0) ys"
    and "\<forall>y. first (filter P ys) = Some y \<longrightarrow> \<not> compare (key y) k < 0"
  shows "filter (\<lambda>y. P y \<and> compare (key y) k < 0) ys = []"
  using assms(2-4)
proof (induction ys)
  case (Cons y ys)
  show ?case
  proof (cases "P y")
    case True
    then have "\<not> compare (key y) k < 0" using Cons.prems(3) by simp
    then have "compare k (key y) \<le> 0" using not_less assms(1) Cons.prems(1) by simp
    then have "compare k (key z) < 0" if "z \<in> set ys" for z
      using le_less_trans [of k "key y" "key z"] that assms(1) Cons.prems by simp
    then have "\<not> compare (key z) k < 0" if "z \<in> set ys" for z
      using that swap [of "key z" k] assms(1) Cons.prems(1) by fastforce
    then show ?thesis using \<open>\<not> compare (key y) k < 0\<close> by (simp add: filter_empty_conv)
  next
    case False
    then show ?thesis using Cons by simp
  qed
qed simp

lemma inv_split:
  assumes "sl_inv compare ok sl xs pub" "x \<in> set xs"
  obtains as bs where "xs = as @ x # bs" "behind x xs = bs" "\<forall>a\<in>set as. compare (nkey sl a) (nkey sl x) < 0"
proof -
  obtain as bs where xs: "xs = as @ x # bs" "x \<notin> set as" using assms(2) by (metis split_list_first)
  moreover have "behind x xs = bs" using xs behind_split assms by (auto simp: sl_inv_def)
  moreover have "\<forall>a\<in>set as. compare (nkey sl a) (nkey sl x) < 0"
    using assms(1) xs by (auto simp: sl_inv_def sorted_wrt_append)
  ultimately show ?thesis using that by blast
qed

lemma stop_at:
  assumes inv: "sl_inv compare ok sl xs pub" and "ok k" and pos: "at_level compare sl xs pub k x i"
    and nxt: "\<forall>y. first (filter (\<lambda>y. i < pub y) (behind x xs)) = Some y \<longrightarrow> \<not> compare (nkey sl y) k < 0"
  shows "last_before compare sl xs pub k i = x"
    and "i = 0 \<Longrightarrow> first (behind x xs) = first (filter (\<lambda>y. \<not> compare (nkey sl y) k < 0) xs)"
proof -
  have oks: "\<forall>y\<in>set xs. ok (nkey sl y) \<and> 0 < pub y" and srt: "sorted_wrt (\<lambda>x y. compare (nkey sl x) (nkey sl y) < 0) xs"
    using inv by (auto simp: sl_inv_def)
  have sub: "set (behind x xs) \<subseteq> set xs" by (rule behind_set)
  have "sorted_wrt (\<lambda>x y. compare (nkey sl x) (nkey sl y) < 0) (behind x xs)"
  proof (cases "x = 0")
    case False
    then obtain as bs where "xs = as @ x # bs" "behind x xs = bs" using pos inv_split [OF inv] by (metis at_level_def)
    then show ?thesis using srt by (simp add: sorted_wrt_append)
  qed (simp add: behind_def srt)
  then have none: "filter (\<lambda>y. i < pub y \<and> compare (nkey sl y) k < 0) (behind x xs) = []"
    using sorted_ge [OF assms(2) _ _ nxt] oks sub by blast
  show "last_before compare sl xs pub k i = x"
  proof (cases "x = 0")
    case True
    then show ?thesis using none by (simp add: last_before_def behind_def)
  next
    case False
    then obtain as bs where "xs = as @ x # bs" "behind x xs = bs" using pos inv_split [OF inv] by (metis at_level_def)
    then show ?thesis using none pos False by (auto simp: last_before_def at_level_def)
  qed
  assume "i = 0"
  then have ge: "filter (\<lambda>y. \<not> compare (nkey sl y) k < 0) (behind x xs) = behind x xs"
    using none oks sub unfolding filter_empty_conv by (intro filter_True) fastforce
  show "first (behind x xs) = first (filter (\<lambda>y. \<not> compare (nkey sl y) k < 0) xs)"
  proof (cases "x = 0")
    case True
    then show ?thesis using ge by (simp add: behind_def)
  next
    case False
    then obtain as bs where xs: "xs = as @ x # bs" "behind x xs = bs" and as: "\<forall>a\<in>set as. compare (nkey sl a) (nkey sl x) < 0"
      using pos inv_split [OF inv] by (metis at_level_def)
    have "compare (nkey sl a) k < 0" if "a \<in> set as" for a
      using less_le_trans [of "nkey sl a" "nkey sl x" k] that as pos False oks xs assms(2) by (auto simp: at_level_def)
    then have "filter (\<lambda>y. \<not> compare (nkey sl y) k < 0) as = []" by (simp add: filter_empty_conv)
    then show ?thesis using ge xs pos False by (simp add: at_level_def)
  qed
qed

lemma move_right:
  assumes inv: "sl_inv compare ok sl xs pub" and pos: "at_level compare sl xs pub k x i"
    and nxt: "first (filter (\<lambda>y. i < pub y) (behind x xs)) = Some y" and "compare (nkey sl y) k < 0"
  shows "at_level compare sl xs pub k y i" "length (behind y xs) < length (behind x xs)"
proof -
  have y: "y \<in> set (behind x xs)" "i < pub y" using first_filter [OF nxt] by auto
  then show "at_level compare sl xs pub k y i" using behind_set pos assms(4) by (auto simp: at_level_def)
  show "length (behind y xs) < length (behind x xs)" using behind_shorter y inv_distinct [OF inv] by blast
qed

lemma key_at_node: "sl_inv compare ok sl xs pub \<Longrightarrow> y \<in> set xs \<Longrightarrow> key_at sl y = Inr (nkey sl y)"
  by (auto simp: key_at_def sl_inv_def)

lemma first_behind: "first (filter P (behind x xs)) = Some y \<Longrightarrow> y \<in> set xs \<and> P y"
  using behind_set [of x xs] first_filter by fastforce

text \<open>One round of the search: it goes right, goes down with the last node before the key, or returns.\<close>

lemma ge_turn_at:
  assumes inv: "sl_inv compare ok sl xs pub" and "ok k" and pos: "at_level compare sl xs pub k x i"
    and prev: "\<And>ps. prev = Some ps \<Longrightarrow> length ps = kMaxHeight"
  shows "(\<exists>y. ge_turn compare sl k (x, i, prev) = Inr (Inl (y, i, prev)) \<and> at_level compare sl xs pub k y i \<and>
           length (behind y xs) < length (behind x xs)) \<or>
         ge_turn compare sl k (x, i, prev) =
           (let prev' = map_option (\<lambda>ps. ps[i := Some (last_before compare sl xs pub k i)]) prev in
            if i = 0 then Inr (Inr (first (filter (\<lambda>y. \<not> compare (nkey sl y) k < 0) xs), prev'))
            else Inr (Inl (x, i - 1, prev')))"
proof -
  define n where "n = first (filter (\<lambda>y. i < pub y) (behind x xs))"
  have nx: "node_Next sl x i = Inr n" unfolding n_def by (rule next_at [OF inv]) (use pos in \<open>auto simp: at_level_def\<close>)
  show ?thesis
  proof (cases "\<exists>y. n = Some y \<and> compare (nkey sl y) k < 0")
    case True
    then obtain y where y: "n = Some y" "compare (nkey sl y) k < 0" by blast
    then have "key_at sl y = Inr (nkey sl y)" using first_behind key_at_node [OF inv] by (metis n_def)
    then have "ge_turn compare sl k (x, i, prev) = Inr (Inl (y, i, prev))"
      using y by (simp add: ge_turn_def nx KeyIsAfterNode_def)
    then show ?thesis using move_right [OF inv pos] y n_def by metis
  next
    case False
    then have after: "KeyIsAfterNode compare sl k n = Inr False"
    proof (cases n)
      case (Some y)
      then have "key_at sl y = Inr (nkey sl y)" using first_behind key_at_node [OF inv] by (metis n_def)
      then show ?thesis using Some False by (simp add: KeyIsAfterNode_def)
    qed (simp add: KeyIsAfterNode_def)
    have st: "\<forall>y. first (filter (\<lambda>y. i < pub y) (behind x xs)) = Some y \<longrightarrow> \<not> compare (nkey sl y) k < 0"
      using False n_def by blast
    have lb: "last_before compare sl xs pub k i = x" by (rule stop_at(1) [OF inv assms(2) pos st])
    have sp: "set_prev prev i x = Inr (map_option (\<lambda>ps. ps[i := Some (last_before compare sl xs pub k i)]) prev)"
      using prev pos by (auto simp: set_prev_def at_level_def lb split: option.split)
    have res: "n = first (filter (\<lambda>y. \<not> compare (nkey sl y) k < 0) xs)" if "i = 0"
    proof -
      have "filter (\<lambda>y. 0 < pub y) (behind x xs) = behind x xs"
        using behind_set [of x xs] inv by (intro filter_True) (auto simp: sl_inv_def)
      then show ?thesis using stop_at(2) [OF inv assms(2) pos st that] that by (simp add: n_def)
    qed
    then show ?thesis by (auto simp: ge_turn_def nx after sp Let_def)
  qed
qed

lemma FindGreaterOrEqual_spec:
  assumes inv: "sl_inv compare ok sl xs pub" and "ok k" and prev: "\<And>ps. prev = Some ps \<Longrightarrow> length ps = kMaxHeight"
  shows "\<exists>prev'. FindGreaterOrEqual compare sl k prev = Some (Inr (first (filter (\<lambda>y. \<not> compare (nkey sl y) k < 0) xs), prev')) \<and>
    (\<forall>ps. prev = Some ps \<longrightarrow> (\<exists>ps'. prev' = Some ps' \<and> length ps' = kMaxHeight \<and>
       (\<forall>j < sl_max_height sl. ps' ! j = Some (last_before compare sl xs pub k j)))) \<and> (prev = None \<longrightarrow> prev' = None)"
proof -
  let ?res = "first (filter (\<lambda>y. \<not> compare (nkey sl y) k < 0) xs)"
  let ?pok = "\<lambda>i p. (prev = None \<longrightarrow> p = None) \<and> (prev \<noteq> None \<longrightarrow> (\<exists>ps'. p = Some ps' \<and> length ps' = kMaxHeight \<and>
     (\<forall>j. i < j \<and> j < sl_max_height sl \<longrightarrow> ps' ! j = Some (last_before compare sl xs pub k j))))"
  let ?I = "\<lambda>(x, i, p). at_level compare sl xs pub k x i \<and> ?pok i p"
  let ?Q = "\<lambda>(r, p). r = ?res \<and> (prev = None \<longrightarrow> p = None) \<and> (prev \<noteq> None \<longrightarrow> (\<exists>ps'. p = Some ps' \<and> length ps' = kMaxHeight \<and>
     (\<forall>j < sl_max_height sl. ps' ! j = Some (last_before compare sl xs pub k j))))"
  let ?r = "measures [\<lambda>(x, i, p). i, \<lambda>(x, i, p). length (behind x xs)] :: ((nat \<times> nat \<times> prev_array) \<times> _) set"
  have "\<exists>r. run_loop (ge_turn compare sl k) (0, GetMaxHeight sl - 1, prev) = Some (Inr r) \<and> ?Q r"
  proof (rule run_loop_total [of ?r ?I])
    show "wf ?r" by simp
    show "?I (0, GetMaxHeight sl - 1, prev)"
      using inv prev by (cases prev) (auto simp: at_level_def sl_inv_def GetMaxHeight_def)
  next
    fix s assume "?I s"
    then obtain x i p where s: "s = (x, i, p)" and pos: "at_level compare sl xs pub k x i" and p: "?pok i p" by (cases s) auto
    show "(\<exists>s'. ge_turn compare sl k s = Inr (Inl s') \<and> ?I s' \<and> (s', s) \<in> ?r) \<or> (\<exists>r. ge_turn compare sl k s = Inr (Inr r) \<and> ?Q r)"
    proof (cases "\<exists>y. ge_turn compare sl k (x, i, p) = Inr (Inl (y, i, p)) \<and> at_level compare sl xs pub k y i \<and>
        length (behind y xs) < length (behind x xs)")
      case True
      then show ?thesis using p s by auto
    next
      case False
      have "length ps = kMaxHeight" if "p = Some ps" for ps using p that by (cases prev) auto
      then have g: "ge_turn compare sl k (x, i, p) =
           (let p' = map_option (\<lambda>ps. ps[i := Some (last_before compare sl xs pub k i)]) p in
            if i = 0 then Inr (Inr (?res, p')) else Inr (Inl (x, i - 1, p')))"
        using ge_turn_at [OF inv assms(2) pos, of p] False by (cases p) metis+
      have i: "i < kMaxHeight" using pos by (simp add: at_level_def)
      show ?thesis
      proof (cases "i = 0")
        case True
        then show ?thesis using p g i s by (cases prev) (auto simp: nth_list_update)
      next
        case False
        have "at_level compare sl xs pub k x (i - 1)" using pos by (auto simp: at_level_def)
        then show ?thesis using p g i s False by (cases prev) (auto simp: nth_list_update)
      qed
    qed
  qed
  then obtain r where r: "run_loop (ge_turn compare sl k) (0, GetMaxHeight sl - 1, prev) = Some (Inr r)" "?Q r" by blast
  obtain a b where "r = (a, b)" by fastforce
  then show ?thesis using r unfolding FindGreaterOrEqual_def by auto
qed

lemma lt_turn_at:
  assumes inv: "sl_inv compare ok sl xs pub" and "ok k" and pos: "at_level compare sl xs pub k x i"
  shows "(\<exists>y. lt_turn compare sl k (x, i) = Inr (Inl (y, i)) \<and> at_level compare sl xs pub k y i \<and>
           length (behind y xs) < length (behind x xs)) \<or>
         lt_turn compare sl k (x, i) =
           (if i = 0 then Inr (Inr (last_before compare sl xs pub k 0)) else Inr (Inl (x, i - 1)))"
proof -
  define n where "n = first (filter (\<lambda>y. i < pub y) (behind x xs))"
  have nx: "node_Next sl x i = Inr n" unfolding n_def by (rule next_at [OF inv]) (use pos in \<open>auto simp: at_level_def\<close>)
  have as: "(if x = 0 then Inr True else bind_res (key_at sl x) (\<lambda>k'. Inr (compare k' k < 0))) = (Inr True :: mem_error + bool)"
    using pos key_at_node [OF inv] by (auto simp: at_level_def)
  have y: "key_at sl y = Inr (nkey sl y)" if "n = Some y" for y
    using first_behind key_at_node [OF inv] that by (metis n_def)
  show ?thesis
  proof (cases "\<exists>y. n = Some y \<and> compare (nkey sl y) k < 0")
    case True
    then obtain y where "n = Some y" "compare (nkey sl y) k < 0" by blast
    moreover from this have "lt_turn compare sl k (x, i) = Inr (Inl (y, i))"
      using \<open>\<And>y. n = Some y \<Longrightarrow> key_at sl y = Inr (nkey sl y)\<close> by (simp add: lt_turn_def nx as)
    ultimately show ?thesis using move_right [OF inv pos] n_def by metis
  next
    case False
    then have "last_before compare sl xs pub k i = x" using stop_at(1) [OF inv assms(2) pos] n_def by blast
    then show ?thesis using False y by (cases n) (auto simp: lt_turn_def nx as)
  qed
qed

lemma FindLessThan_spec:
  assumes inv: "sl_inv compare ok sl xs pub" and "ok k"
  shows "FindLessThan compare sl k = Some (Inr (last_before compare sl xs pub k 0))"
proof -
  let ?I = "\<lambda>(x, i). at_level compare sl xs pub k x i"
  let ?r = "measures [\<lambda>(x, i). i, \<lambda>(x, i). length (behind x xs)] :: ((nat \<times> nat) \<times> _) set"
  have "\<exists>r. run_loop (lt_turn compare sl k) (0, GetMaxHeight sl - 1) = Some (Inr r) \<and> r = last_before compare sl xs pub k 0"
  proof (rule run_loop_total [of ?r ?I])
    show "wf ?r" by simp
    show "?I (0, GetMaxHeight sl - 1)" using inv by (auto simp: at_level_def sl_inv_def GetMaxHeight_def)
  next
    fix s assume "?I s"
    then obtain x i where s: "s = (x, i)" and pos: "at_level compare sl xs pub k x i" by (cases s) auto
    have "at_level compare sl xs pub k x (i - 1)" using pos by (auto simp: at_level_def)
    then show "(\<exists>s'. lt_turn compare sl k s = Inr (Inl s') \<and> ?I s' \<and> (s', s) \<in> ?r) \<or>
        (\<exists>r. lt_turn compare sl k s = Inr (Inr r) \<and> r = last_before compare sl xs pub k 0)"
      using lt_turn_at [OF inv assms(2) pos] s by (cases "i = 0") auto
  qed
  then show ?thesis unfolding FindLessThan_def by simp
qed

lemma FindLast_spec:
  assumes inv: "sl_inv compare ok sl xs pub"
  shows "FindLast sl = Some (Inr (last (0 # xs)))"
proof -
  let ?I = "\<lambda>(x, i). i < kMaxHeight \<and> (x = 0 \<or> x \<in> set xs \<and> i < pub x)"
  let ?r = "measures [\<lambda>(x, i). i, \<lambda>(x, i). length (behind x xs)] :: ((nat \<times> nat) \<times> _) set"
  have "\<exists>r. run_loop (last_turn sl) (0, GetMaxHeight sl - 1) = Some (Inr r) \<and> r = last (0 # xs)"
  proof (rule run_loop_total [of ?r ?I])
    show "wf ?r" by simp
    show "?I (0, GetMaxHeight sl - 1)" using inv by (auto simp: sl_inv_def GetMaxHeight_def)
  next
    fix s assume "?I s"
    then obtain x i where s: "s = (x, i)" and pos: "i < kMaxHeight" "x = 0 \<or> x \<in> set xs \<and> i < pub x" by (cases s) auto
    define n where "n = first (filter (\<lambda>y. i < pub y) (behind x xs))"
    have nx: "node_Next sl x i = Inr n" unfolding n_def by (rule next_at [OF inv pos])
    have right: "y \<in> set xs \<and> i < pub y \<and> length (behind y xs) < length (behind x xs)" if "n = Some y" for y
    proof -
      have "y \<in> set (behind x xs)" "i < pub y" using first_filter [of "\<lambda>y. i < pub y" "behind x xs" y] that by (simp_all add: n_def)
      then show ?thesis using behind_shorter [of xs y x] behind_set [of x xs] inv_distinct [OF inv] by blast
    qed
    have stop: "x = last (0 # xs)" if "n = None" "i = 0"
    proof -
      have "filter (\<lambda>y. 0 < pub y) (behind x xs) = behind x xs"
        using behind_set [of x xs] inv by (intro filter_True) (auto simp: sl_inv_def)
      then have "behind x xs = []" using that by (auto simp: n_def first_def split: list.splits)
      show ?thesis
      proof (cases "x = 0")
        case True
        then show ?thesis using \<open>behind x xs = []\<close> by (simp add: behind_def)
      next
        case False
        then obtain as bs where "xs = as @ x # bs" "behind x xs = bs" using inv_split [OF inv] pos by metis
        then show ?thesis using \<open>behind x xs = []\<close> by simp
      qed
    qed
    show "(\<exists>s'. last_turn sl s = Inr (Inl s') \<and> ?I s' \<and> (s', s) \<in> ?r) \<or> (\<exists>r. last_turn sl s = Inr (Inr r) \<and> r = last (0 # xs))"
      using right stop pos by (cases n) (auto simp: last_turn_def nx s)
  qed
  then show ?thesis unfolding FindLast_def by simp
qed

end

end
