(* ===== verification/Ldb_Skiplist_Insert.thy ===== *)
theory Ldb_Skiplist_Insert
  imports Ldb_Skiplist_Correct
begin

text \<open>
  Insertion into the skip list, one store at a time: what the list is between any two stores, so that
  a search that runs at the same time is correct, and what it is at the end.
\<close>

section \<open>Insertion\<close>

lemma random_height_bounds: "1 \<le> h \<Longrightarrow> h \<le> kMaxHeight \<Longrightarrow> 1 \<le> fst (random_height h rnd) \<and> fst (random_height h rnd) \<le> kMaxHeight"
proof (induction h rnd rule: random_height.induct)
  case (1 h rnd)
  then show ?case by (subst random_height.simps, subst (2) random_height.simps) (auto simp: Let_def)
qed

lemma inv_store:
  assumes "sl_inv compare ok sl xs pub" "same_shape sl sl'"
    and "\<And>i. i < kMaxHeight \<Longrightarrow> chain sl' i 0 (filter (\<lambda>x. i < pub x) xs)"
  shows "sl_inv compare ok sl' xs pub"
  using assms unfolding sl_inv_def same_shape_def by simp

text \<open>
  Insertion of node \<open>n\<close> between \<open>as\<close> and \<open>bs\<close> with its links at the first \<open>i\<close> levels stored. Before the
  first of them the node is not part of the list.
\<close>

definition linking :: "('k \<Rightarrow> 'k \<Rightarrow> int) \<Rightarrow> ('k \<Rightarrow> bool) \<Rightarrow> nat list \<Rightarrow> nat \<Rightarrow> nat list \<Rightarrow> (nat \<Rightarrow> nat) \<Rightarrow> prev_array \<Rightarrow> nat \<Rightarrow> 'k skiplist \<Rightarrow> bool" where
  "linking compare ok as n bs pub prev i sl \<longleftrightarrow>
     sl_inv compare ok sl (as @ (if i = 0 then bs else n # bs)) (pub(n := i)) \<and>
     distinct (0 # as @ n # bs) \<and> n < length (sl_nodes sl) \<and> 0 < height sl n \<and> height sl n \<le> sl_max_height sl \<and> i \<le> height sl n \<and>
     ok (nkey sl n) \<and> sorted_wrt (\<lambda>x y. compare (nkey sl x) (nkey sl y) < 0) (as @ n # bs) \<and>
     (\<exists>ps. prev = Some ps \<and> length ps = kMaxHeight \<and>
        (\<forall>j<height sl n. ps ! j = Some (last (0 # filter (\<lambda>y. j < pub y) as))))"

text \<open>Between the two stores of a level the new node already has its successor there.\<close>

definition half_linked :: "'k skiplist \<Rightarrow> nat \<Rightarrow> nat list \<Rightarrow> (nat \<Rightarrow> nat) \<Rightarrow> nat \<Rightarrow> bool" where
  "half_linked sl n bs pub i \<longleftrightarrow> i < height sl n \<and> node_Next sl n i = Inr (first (filter (\<lambda>y. i < pub y) bs))"

lemma inv_chain: "sl_inv compare ok sl xs pub \<Longrightarrow> j < kMaxHeight \<Longrightarrow> chain sl j 0 (filter (\<lambda>x. j < pub x) xs)"
  unfolding sl_inv_def by blast

lemma linking_facts:
  assumes "linking compare ok as n bs pub prev i sl"
  shows "sl_inv compare ok sl (as @ (if i = 0 then bs else n # bs)) (pub(n := i))" "distinct (as @ bs)" "0 \<notin> set (as @ bs)"
    "n \<notin> set (as @ bs)" "0 < n" "n < length (sl_nodes sl)" "0 < height sl n" "height sl n \<le> sl_max_height sl" "i \<le> height sl n" "ok (nkey sl n)"
    "sorted_wrt (\<lambda>x y. compare (nkey sl x) (nkey sl y) < 0) (as @ n # bs)"
  using assms unfolding linking_def by auto

lemma linkingI:
  assumes "sl_inv compare ok sl (as @ bs) (pub(n := 0))" "distinct (0 # as @ n # bs)" "n < length (sl_nodes sl)"
    "0 < height sl n" "height sl n \<le> sl_max_height sl" "ok (nkey sl n)"
    "sorted_wrt (\<lambda>x y. compare (nkey sl x) (nkey sl y) < 0) (as @ n # bs)" "length ps = kMaxHeight"
    "\<forall>j<height sl n. ps ! j = Some (last (0 # filter (\<lambda>y. j < pub y) as))"
  shows "linking compare ok as n bs pub (Some ps) 0 sl"
  using assms unfolding linking_def by simp

lemma linking_chain:
  assumes "linking compare ok as n bs pub prev i sl" "j < kMaxHeight" "i \<le> j"
  shows "chain sl j 0 (filter (\<lambda>y. j < pub y) as @ filter (\<lambda>y. j < pub y) bs)"
proof -
  have "chain sl j 0 (filter (\<lambda>x. j < (pub(n := i)) x) (as @ (if i = 0 then bs else n # bs)))" "n \<notin> set (as @ bs)"
    using linking_facts [OF assms(1)] inv_chain assms(2) by blast+
  moreover have "filter (\<lambda>x. j < (pub(n := i)) x) ys = filter (\<lambda>x. j < pub x) ys" if "n \<notin> set ys" for ys
    using that by (intro filter_cong) auto
  ultimately show ?thesis using assms(3) by (simp split: if_splits)
qed

lemma linking_bounds: "linking compare ok as n bs pub prev i sl \<Longrightarrow> j < height sl n \<Longrightarrow> j < kMaxHeight"
  using linking_facts(1,8) [of compare ok as n bs pub prev i sl] unfolding sl_inv_def by linarith

lemma linking_prev:
  assumes "linking compare ok as n bs pub prev i sl" "i < height sl n"
  shows "prev_at prev i = Inr (last (0 # filter (\<lambda>y. i < pub y) as))"
  using assms linking_bounds [OF assms] by (auto simp: linking_def prev_at_def)

lemma store_new_step:
  assumes l: "linking compare ok as n bs pub prev i sl" and "i < height sl n"
  obtains sl' where "store_new n prev i sl = Inr sl'" "same_shape sl sl'" "linking compare ok as n bs pub prev i sl'" "half_linked sl' n bs pub i"
proof -
  have i: "i < kMaxHeight" by (rule linking_bounds [OF l assms(2)])
  have n: "n < length (sl_nodes sl)" using l by (simp add: linking_def)
  obtain sl' where set: "node_SetNext sl n i (first (filter (\<lambda>y. i < pub y) bs)) = Inr sl'" and shape: "same_shape sl sl'"
    and nx: "\<forall>y j. node_Next sl' y j = (if y = n \<and> j = i then Inr (first (filter (\<lambda>y. i < pub y) bs)) else node_Next sl y j)"
    using SetNext_Inr [OF n assms(2), where p = "first (filter (\<lambda>y. i < pub y) bs)"] by blast
  have new: "store_new n prev i sl = Inr sl'"
    using chain_mid [OF linking_chain [OF l i]] linking_prev [OF l assms(2)] set by (simp add: store_new_def)
  let ?xs = "as @ (if i = 0 then bs else n # bs)"
  have inv: "sl_inv compare ok sl ?xs (pub(n := i))" and notin: "n \<notin> set (as @ bs)" "0 < n"
    using linking_facts [OF l] by blast+
  have "chain sl' j 0 (filter (\<lambda>x. j < (pub(n := i)) x) ?xs)" if "j < kMaxHeight" for j
    by (rule chain_cong [OF inv_chain [OF inv that]]) (use notin in \<open>auto simp: nx split: if_splits\<close>)
  then have "linking compare ok as n bs pub prev i sl'"
    using inv_store [OF inv shape] l shape unfolding linking_def same_shape_def by simp
  moreover have "half_linked sl' n bs pub i" using shape assms(2) by (simp add: half_linked_def nx same_shape_def)
  ultimately show ?thesis using that new shape by blast
qed

lemma store_prev_step:
  assumes l: "linking compare ok as n bs pub prev i sl" and half: "half_linked sl n bs pub i"
  obtains sl' where "store_prev n prev i sl = Inr sl'" "same_shape sl sl'" "linking compare ok as n bs pub prev (i + 1) sl'"
proof -
  have hi: "i < height sl n" using half by (simp add: half_linked_def)
  have i: "i < kMaxHeight" by (rule linking_bounds [OF l hi])
  let ?f = "\<lambda>j ys. filter (\<lambda>y. j < pub y) ys"
  let ?xs = "as @ (if i = 0 then bs else n # bs)" and ?p = "last (0 # ?f i as)"
  have inv: "sl_inv compare ok sl ?xs (pub(n := i))" and notin: "n \<notin> set (as @ bs)" "0 < n"
    and srt: "sorted_wrt (\<lambda>x y. compare (nkey sl x) (nkey sl y) < 0) (as @ n # bs)"
    and nn: "n < length (sl_nodes sl)" "height sl n \<le> sl_max_height sl" "ok (nkey sl n)"
    using linking_facts [OF l] by blast+
  have ch: "chain sl i 0 (?f i as @ ?f i bs)" by (rule linking_chain [OF l i]) simp
  have "node_Next sl ?p i = Inr (first (?f i bs))" using chain_mid [OF ch] .
  then have "?p < length (sl_nodes sl)" "i < height sl ?p" by (auto simp: node_Next_def split: if_splits)
  then obtain sl' where set: "node_SetNext sl ?p i (Some n) = Inr sl'" and shape: "same_shape sl sl'"
    and nx: "\<forall>y j. node_Next sl' y j = (if y = ?p \<and> j = i then Inr (Some n) else node_Next sl y j)"
    using SetNext_Inr [where p = "Some n"] by blast
  have st: "store_prev n prev i sl = Inr sl'" using linking_prev [OF l hi] set by (simp add: store_prev_def)
  have chains: "chain sl' j 0 (filter (\<lambda>x. j < (pub(n := i + 1)) x) (as @ n # bs))" if j: "j < kMaxHeight" for j
  proof -
    have same: "filter (\<lambda>x. j < (pub(n := m)) x) ys = ?f j ys" if "n \<notin> set ys" for m ys
      using that by (intro filter_cong) auto
    show ?thesis
    proof (cases "j = i")
      case True
      have "distinct (as @ bs)" "0 \<notin> set (as @ bs)" using linking_facts [OF l] by blast+
      then have "chain sl' i 0 (?f i as @ n # ?f i bs)"
        using ch notin half by (intro chain_insert [OF _ refl _ _ _ nx [rule_format]]) (auto simp: half_linked_def)
      then show ?thesis using True notin same by simp
    next
      case False
      have "filter (\<lambda>x. j < (pub(n := i + 1)) x) (as @ n # bs) = filter (\<lambda>x. j < (pub(n := i)) x) ?xs"
        using False notin same by (cases "j < i") simp_all
      moreover have "chain sl' j 0 (filter (\<lambda>x. j < (pub(n := i)) x) ?xs)"
        by (rule chain_cong [OF inv_chain [OF inv j]]) (use False nx in simp)
      ultimately show ?thesis by (simp only:)
    qed
  qed
  have nodes: "0 < x \<and> x < length (sl_nodes sl) \<and> 0 < (pub(n := i + 1)) x \<and> (pub(n := i + 1)) x \<le> height sl x \<and>
      height sl x \<le> sl_max_height sl \<and> ok (nkey sl x)" if "x \<in> set (as @ n # bs)" for x
  proof (cases "x = n")
    case False
    then have "x \<in> set ?xs" using that by auto
    then show ?thesis using False inv unfolding sl_inv_def by fastforce
  qed (use nn notin hi in simp)
  have "sl_inv compare ok sl' (as @ n # bs) (pub(n := i + 1))"
    using inv shape srt nodes chains unfolding sl_inv_def same_shape_def by (simp only: simp_thms) blast
  then have "linking compare ok as n bs pub prev (i + 1) sl'" using l shape hi unfolding linking_def same_shape_def by simp
  then show ?thesis using that st shape by blast
qed

lemma link_levels_all:
  assumes "linking compare ok as n bs pub prev i sl" "height sl n = i + m"
  shows "\<exists>sl'. link_levels [i..<i + m] n prev sl = Inr sl' \<and> linking compare ok as n bs pub prev (i + m) sl' \<and> same_shape sl sl'"
  using assms
proof (induction m arbitrary: i sl)
  case 0
  then show ?case by (simp add: same_shape_def)
next
  case (Suc m)
  then have lt: "i < height sl n" by simp
  obtain sl1 where 1: "store_new n prev i sl = Inr sl1" "same_shape sl sl1" "linking compare ok as n bs pub prev i sl1" "half_linked sl1 n bs pub i"
    using store_new_step [OF Suc.prems(1) lt] by blast
  obtain sl2 where 2: "store_prev n prev i sl1 = Inr sl2" "same_shape sl1 sl2" "linking compare ok as n bs pub prev (i + 1) sl2"
    using store_prev_step [OF 1(3,4)] by blast
  have "height sl2 n = (i + 1) + m" using Suc.prems(2) 1(2) 2(2) by (simp add: same_shape_def)
  then obtain sl' where 3: "link_levels [i + 1..<i + 1 + m] n prev sl2 = Inr sl'" "linking compare ok as n bs pub prev (i + 1 + m) sl'" "same_shape sl2 sl'"
    using Suc.IH [OF 2(3)] by blast
  have "[i..<i + Suc m] = i # [i + 1..<i + 1 + m]" by (simp add: upt_rec)
  moreover have "same_shape sl sl'" using 1(2) 2(2) 3(3) by (simp add: same_shape_def)
  ultimately show ?case using 1 2 3 by simp
qed

lemma node_Next_append:
  "x < length (sl_nodes sl) \<Longrightarrow> node_Next (sl\<lparr>sl_nodes := sl_nodes sl @ ns, sl_max_height := m, sl_rnd := r, sl_arena := a\<rparr>) x j = node_Next sl x j"
  by (simp add: node_Next_def nth_append)

lemma inv_new_node:
  assumes inv: "sl_inv compare ok sl xs pub" and "sl_max_height sl \<le> m" "m \<le> kMaxHeight" "arena_ok a ps"
  shows "sl_inv compare ok (sl\<lparr>sl_nodes := sl_nodes sl @ ns, sl_max_height := m, sl_rnd := r, sl_arena := a\<rparr>) xs pub"
proof -
  let ?sl = "sl\<lparr>sl_nodes := sl_nodes sl @ ns, sl_max_height := m, sl_rnd := r, sl_arena := a\<rparr>"
  have len: "\<forall>x\<in>set (0 # xs). x < length (sl_nodes sl)" using inv by (simp add: sl_inv_def)
  have same: "nkey ?sl x = nkey sl x" "height ?sl x = height sl x" if "x \<in> set (0 # xs)" for x
    using len that by (auto simp: nth_append)
  have "sorted_wrt (\<lambda>x y. compare (nkey ?sl x) (nkey ?sl y) < 0) xs \<longleftrightarrow> sorted_wrt (\<lambda>x y. compare (nkey sl x) (nkey sl y) < 0) xs"
    by (intro iffI; erule sorted_wrt_mono_rel [rotated]) (use same in auto)
  moreover have "chain ?sl i 0 (filter (\<lambda>x. i < pub x) xs)" if "i < kMaxHeight" for i
    by (rule chain_cong [OF inv_chain [OF inv that]]) (rule node_Next_append, use len in auto)
  moreover have "0 < x \<and> x < length (sl_nodes ?sl) \<and> 0 < pub x \<and> pub x \<le> height ?sl x \<and> height ?sl x \<le> m \<and> ok (nkey ?sl x)" if "x \<in> set xs" for x
    using inv that same [of x] assms(2) unfolding sl_inv_def by fastforce
  ultimately show ?thesis using inv assms(2-4) same [of 0] unfolding sl_inv_def by auto
qed

lemma fill_prev_spec:
  "length ps = kMaxHeight \<Longrightarrow> b \<le> kMaxHeight \<Longrightarrow>
   \<exists>ps'. fill_prev [a..<b] (Some ps) = Inr (Some ps') \<and> length ps' = kMaxHeight \<and> (\<forall>j. ps' ! j = (if a \<le> j \<and> j < b then Some 0 else ps ! j))"
proof (induction "b - a" arbitrary: a ps)
  case (Suc m)
  then have u: "[a..<b] = a # [Suc a..<b]" and a: "a < b" by (simp_all add: upt_rec)
  obtain ps' where "fill_prev [Suc a..<b] (Some (ps[a := Some 0])) = Inr (Some ps')" "length ps' = kMaxHeight"
      "\<forall>j. ps' ! j = (if Suc a \<le> j \<and> j < b then Some 0 else ps[a := Some 0] ! j)"
  proof -
    have "m = b - Suc a" using Suc.hyps(2) by simp
    then show ?thesis using that Suc.hyps(1) [of "Suc a" "ps[a := Some 0]"] Suc.prems by force
  qed
  then show ?case using u a Suc.prems by (auto simp: set_prev_def nth_list_update)
qed auto

context key_order
begin

lemma sorted_split:
  assumes "ok k" "\<forall>y\<in>set ys. ok (key y)" "sorted_wrt (\<lambda>x y. compare (key x) (key y) < 0) ys"
  shows "ys = filter (\<lambda>y. compare (key y) k < 0) ys @ filter (\<lambda>y. \<not> compare (key y) k < 0) ys"
  using assms(2,3)
proof (induction ys)
  case (Cons y ys)
  show ?case
  proof (cases "compare (key y) k < 0")
    case False
    then have "filter (\<lambda>y. True \<and> compare (key y) k < 0) (y # ys) = []"
      by (intro sorted_ge [OF assms(1)]) (use Cons.prems in auto)
    then have "\<forall>z\<in>set (y # ys). \<not> compare (key z) k < 0" by (simp add: filter_empty_conv split: if_splits)
    then show ?thesis by (simp add: filter_empty_conv filter_id_conv)
  qed (use Cons in simp)
qed simp

lemma not_present_spec:
  assumes inv: "sl_inv compare ok sl xs pub" and new: "\<forall>x\<in>set xs. compare k (nkey sl x) \<noteq> 0"
  shows "not_present compare sl k (first (filter P xs)) = Inr ()"
proof (cases "first (filter P xs)")
  case (Some y)
  then have "y \<in> set xs" using first_filter by fast
  then show ?thesis using Some new key_at_node [OF inv] by (simp add: not_present_def Equal_def)
qed (simp add: not_present_def)

lemma insert_prev:
  assumes inv: "sl_inv compare ok sl xs pub" and k: "ok k" and h: "h \<le> kMaxHeight"
  shows "\<exists>ps1 ps. FindGreaterOrEqual compare sl k (Some (replicate kMaxHeight None)) =
      Some (Inr (first (filter (\<lambda>x. \<not> compare (nkey sl x) k < 0) xs), Some ps1)) \<and>
    (if sl_max_height sl < h then fill_prev [sl_max_height sl..<h] (Some ps1) else Inr (Some ps1)) = Inr (Some ps) \<and>
    length ps = kMaxHeight \<and> (\<forall>j<h. ps ! j = Some (last_before compare sl xs pub k j))"
proof -
  obtain ps1 where find: "FindGreaterOrEqual compare sl k (Some (replicate kMaxHeight None)) =
      Some (Inr (first (filter (\<lambda>x. \<not> compare (nkey sl x) k < 0) xs), Some ps1))"
    and ps1: "length ps1 = kMaxHeight" "\<forall>j < sl_max_height sl. ps1 ! j = Some (last_before compare sl xs pub k j)"
    using FindGreaterOrEqual_spec [OF inv k, of "Some (replicate kMaxHeight None)"] by auto
  have "last_before compare sl xs pub k j = 0" if "sl_max_height sl \<le> j" for j
  proof -
    have "pub x \<le> sl_max_height sl" if "x \<in> set xs" for x using inv that unfolding sl_inv_def by fastforce
    then have "filter (\<lambda>y. j < pub y \<and> compare (nkey sl y) k < 0) xs = []" using that by (fastforce simp: filter_empty_conv)
    then show ?thesis by (simp add: last_before_def)
  qed
  then show ?thesis
    using find fill_prev_spec [OF ps1(1) h, of "sl_max_height sl"] ps1 by (cases "sl_max_height sl < h") auto
qed

lemma insert_begin_spec:
  assumes inv: "sl_inv compare ok sl xs pub" and k: "ok k" and new: "\<forall>x\<in>set xs. compare k (nkey sl x) \<noteq> 0"
  shows "\<exists>n h prev sl'. insert_begin compare k sl = Some (Inr (n, h, prev, sl')) \<and> nkey sl' n = k \<and> height sl' n = h \<and>
    (\<forall>x\<in>set xs. nkey sl' x = nkey sl x \<and> height sl' x = height sl x) \<and>
    linking compare ok (filter (\<lambda>x. compare (nkey sl x) k < 0) xs) n (filter (\<lambda>x. \<not> compare (nkey sl x) k < 0) xs) pub prev 0 sl'"
proof -
  let ?as = "filter (\<lambda>x. compare (nkey sl x) k < 0) xs" and ?bs = "filter (\<lambda>x. \<not> compare (nkey sl x) k < 0) xs"
  have nodes: "\<forall>x\<in>set xs. ok (nkey sl x) \<and> pub x \<le> sl_max_height sl \<and> x < length (sl_nodes sl)"
    and mh: "sl_max_height sl \<le> kMaxHeight" and srt: "sorted_wrt (\<lambda>x y. compare (nkey sl x) (nkey sl y) < 0) xs"
    using inv by (auto simp: sl_inv_def)
  have xs: "?as @ ?bs = xs" using sorted_split [OF k _ srt] nodes by simp
  obtain h r where rh: "random_height 1 (sl_rnd sl) = (h, r)" by fastforce
  have h: "1 \<le> h" "h \<le> kMaxHeight" using random_height_bounds [of 1 "sl_rnd sl"] rh by (auto simp: kMaxHeight_def)
  define m where "m = max (sl_max_height sl) h"
  have m: "sl_max_height sl \<le> m" "m \<le> kMaxHeight" "h \<le> m" using mh h by (auto simp: m_def)
  obtain ps1 ps where find: "FindGreaterOrEqual compare sl k (Some (replicate kMaxHeight None)) = Some (Inr (first ?bs, Some ps1))"
    and ps: "(if sl_max_height sl < h then fill_prev [sl_max_height sl..<h] (Some ps1) else Inr (Some ps1)) = Inr (Some ps)"
    "length ps = kMaxHeight" "\<forall>j<h. ps ! j = Some (last_before compare sl xs pub k j)"
    using insert_prev [OF inv k h(2)] by blast
  obtain aps where "arena_ok (sl_arena sl) aps" using inv by (auto simp: sl_inv_def)
  then obtain p a where alloc: "AllocateAligned (16 + 8 * (h - 1)) (sl_arena sl) = Inr (p, a)" "arena_ok a (aps @ [(p, 16 + 8 * (h - 1))])"
    by (rule AllocateAligned_ok [of "sl_arena sl" aps "16 + 8 * (h - 1)"]) simp_all
  let ?n = "length (sl_nodes sl)" and ?nd = "\<lparr>node_key = k, node_next = replicate h None\<rparr>"
  define sl' where "sl' = sl\<lparr>sl_nodes := sl_nodes sl @ [?nd], sl_max_height := m, sl_rnd := r, sl_arena := a\<rparr>"
  have R: "RandomHeight sl = (h, sl\<lparr>sl_rnd := r\<rparr>)" by (simp only: RandomHeight_def rh prod.case)
  have sl': "sl' = (if sl_max_height sl < h then sl\<lparr>sl_rnd := r, sl_max_height := h\<rparr> else sl\<lparr>sl_rnd := r\<rparr>)
      \<lparr>sl_nodes := sl_nodes sl @ [?nd], sl_arena := a\<rparr>"
    by (cases sl) (auto simp: sl'_def m_def)
  have begin_eq: "insert_begin compare k sl = Some (Inr (?n, h, Some ps, sl'))"
    using not_present_spec [OF inv new] ps(1) alloc(1)
    by (cases "sl_max_height sl < h") (simp_all add: insert_begin_def find R GetMaxHeight_def NewNode_def sl' Let_def)
  have keys: "nkey sl' ?n = k" "height sl' ?n = h" "\<forall>x\<in>set xs. nkey sl' x = nkey sl x \<and> height sl' x = height sl x"
    using nodes by (auto simp: sl'_def nth_append)
  have inv': "sl_inv compare ok sl' xs pub" unfolding sl'_def by (rule inv_new_node [OF inv m(1,2) alloc(2)])
  have notin: "?n \<notin> set xs" "0 < ?n" using nodes inv by (auto simp: sl_inv_def)
  then have "filter (\<lambda>x. i < (pub(?n := 0)) x) xs = filter (\<lambda>x. i < pub x) xs" "x \<in> set xs \<Longrightarrow> (pub(?n := 0)) x = pub x" for i x
    by (auto intro!: filter_cong)
  then have inv0: "sl_inv compare ok sl' xs (pub(?n := 0))"
    using inv' unfolding sl_inv_def by (simp del: fun_upd_apply)
  have "distinct (?as @ ?bs)" "0 \<notin> set (?as @ ?bs)" using inv_distinct [OF inv] unfolding xs by blast+
  then have dist: "distinct (0 # ?as @ ?n # ?bs)" using notin by auto
  have lt: "compare k (nkey sl x) < 0" if "x \<in> set ?bs" for x
    using that new not_less [OF _ k] nodes by fastforce
  have "sorted_wrt (\<lambda>x y. compare (nkey sl x) (nkey sl y) < 0) (?as @ ?bs)" unfolding xs by (rule srt)
  then have srt': "sorted_wrt (\<lambda>x y. compare (nkey sl' x) (nkey sl' y) < 0) (?as @ ?n # ?bs)"
    using keys lt unfolding sorted_wrt_append sorted_wrt.simps
    by (auto elim!: sorted_wrt_mono_rel [rotated] simp: keys(3))
  have "\<forall>j<h. ps ! j = Some (last (0 # filter (\<lambda>y. j < pub y) ?as))" using ps(3) by (simp add: last_before_def conj_commute)
  then have "linking compare ok ?as ?n ?bs pub (Some ps) 0 sl'"
    using inv0 keys h m ps(2) k by (intro linkingI dist srt') (simp_all only: xs, simp_all add: sl'_def)
  then show ?thesis using begin_eq keys by blast
qed

end

section \<open>The list of keys\<close>

text \<open>The abstraction: the nodes in order, all of them linked at all their levels, and their keys.\<close>

definition sl_rep :: "('k \<Rightarrow> 'k \<Rightarrow> int) \<Rightarrow> ('k \<Rightarrow> bool) \<Rightarrow> 'k skiplist \<Rightarrow> nat list \<Rightarrow> bool" where
  "sl_rep compare ok sl xs \<longleftrightarrow> sl_inv compare ok sl xs (\<lambda>x. height sl x)"

definition sl_keys :: "('k \<Rightarrow> 'k \<Rightarrow> int) \<Rightarrow> ('k \<Rightarrow> bool) \<Rightarrow> 'k skiplist \<Rightarrow> 'k list \<Rightarrow> bool" where
  "sl_keys compare ok sl ks \<longleftrightarrow> (\<exists>xs. sl_rep compare ok sl xs \<and> ks = map (nkey sl) xs)"

definition insert_key :: "('k \<Rightarrow> 'k \<Rightarrow> int) \<Rightarrow> 'k \<Rightarrow> 'k list \<Rightarrow> 'k list" where
  "insert_key compare k ks = filter (\<lambda>x. compare x k < 0) ks @ k # filter (\<lambda>x. \<not> compare x k < 0) ks"

lemma inv_pub_cong:
  assumes "sl_inv compare ok sl xs pub" "\<forall>x\<in>set xs. pub' x = pub x"
  shows "sl_inv compare ok sl xs pub'"
proof -
  have "filter (\<lambda>x. i < pub' x) xs = filter (\<lambda>x. i < pub x) xs" for i using assms(2) by (intro filter_cong) auto
  then show ?thesis using assms unfolding sl_inv_def by simp
qed

lemma set_heads_spec:
  "0 < length (sl_nodes sl) \<Longrightarrow> \<forall>i\<in>set is. i < height sl 0 \<Longrightarrow>
   \<exists>sl'. set_heads is sl = Inr sl' \<and> same_shape sl sl' \<and> (\<forall>i. i \<in> set is \<or> node_Next sl 0 i = Inr None \<longrightarrow> node_Next sl' 0 i = Inr None)"
proof (induction "is" arbitrary: sl)
  case Nil
  then show ?case by (simp add: same_shape_def)
next
  case (Cons i "is")
  then have "0 < length (sl_nodes sl)" "i < height sl 0" by auto
  then obtain sl1 where 1: "node_SetNext sl 0 i None = Inr sl1" "same_shape sl sl1"
      "\<forall>y j. node_Next sl1 y j = (if y = 0 \<and> j = i then Inr None else node_Next sl y j)"
    using SetNext_Inr [of 0 sl i None] by blast
  then obtain sl' where "set_heads is sl1 = Inr sl'" "same_shape sl1 sl'"
      "\<forall>i. i \<in> set is \<or> node_Next sl1 0 i = Inr None \<longrightarrow> node_Next sl' 0 i = Inr None"
    using Cons.IH [of sl1] Cons.prems by (auto simp: same_shape_def)
  then show ?case using 1 by (auto simp: same_shape_def)
qed

lemma SkipList_new_spec:
  assumes "arena_ok a ps"
  shows "\<exists>sl. SkipList_new key0 a = Inr sl \<and> sl_rep compare ok sl []"
proof -
  obtain p a' where al: "AllocateAligned (16 + 8 * (kMaxHeight - 1)) a = Inr (p, a')" "arena_ok a' (ps @ [(p, 16 + 8 * (kMaxHeight - 1))])"
    by (rule AllocateAligned_ok [OF assms, of "16 + 8 * (kMaxHeight - 1)"]) simp_all
  let ?sl = "\<lparr>sl_nodes = [\<lparr>node_key = key0, node_next = replicate kMaxHeight None\<rparr>], sl_max_height = 1, sl_rnd = Random_new 0xdeadbeef, sl_arena = a'\<rparr>"
  obtain sl where sl: "set_heads [0..<kMaxHeight] ?sl = Inr sl" "same_shape ?sl sl" "\<forall>i<kMaxHeight. node_Next sl 0 i = Inr None"
    using set_heads_spec [of ?sl "[0..<kMaxHeight]"] by auto
  have "SkipList_new key0 a = Inr sl" using al(1) sl(1) by (simp add: SkipList_new_def NewNode_def)
  moreover have "sl_rep compare ok sl []"
    using sl(2,3) al(2) by (auto simp: sl_rep_def sl_inv_def same_shape_def kMaxHeight_def)
  ultimately show ?thesis by blast
qed

text \<open>Positions: an iterator at index \<open>j\<close> of the keys, with \<open>length ks\<close> for an iterator that is not valid.\<close>

definition at_index :: "nat list \<Rightarrow> nat \<Rightarrow> nat option" where
  "at_index xs j = (if j < length xs then Some (xs ! j) else None)"

lemma first_index: "first (filter P xs) = at_index xs (length (takeWhile (\<lambda>x. \<not> P x) xs))"
  by (induction xs) (auto simp: at_index_def)

lemma first_drop: "first (drop j xs) = at_index xs j"
  by (cases "j < length xs") (auto simp: at_index_def Cons_nth_drop_Suc [symmetric])

context key_order
begin

lemma Insert_spec:
  assumes rep: "sl_rep compare ok sl xs" and k: "ok k" and new: "\<forall>x\<in>set xs. compare k (nkey sl x) \<noteq> 0"
  shows "\<exists>n sl'. Insert compare k sl = Some (Inr sl') \<and> nkey sl' n = k \<and> (\<forall>x\<in>set xs. nkey sl' x = nkey sl x) \<and>
    sl_rep compare ok sl' (filter (\<lambda>x. compare (nkey sl x) k < 0) xs @ n # filter (\<lambda>x. \<not> compare (nkey sl x) k < 0) xs)"
proof -
  let ?as = "filter (\<lambda>x. compare (nkey sl x) k < 0) xs" and ?bs = "filter (\<lambda>x. \<not> compare (nkey sl x) k < 0) xs"
  let ?pub = "\<lambda>x. height sl x"
  obtain n h prev sl1 where b: "insert_begin compare k sl = Some (Inr (n, h, prev, sl1))" "nkey sl1 n = k" "height sl1 n = h"
      "\<forall>x\<in>set xs. nkey sl1 x = nkey sl x \<and> height sl1 x = height sl x" "linking compare ok ?as n ?bs ?pub prev 0 sl1"
    using insert_begin_spec [OF rep [unfolded sl_rep_def] k new] by blast
  obtain sl' where l: "link_levels [0..<h] n prev sl1 = Inr sl'" "linking compare ok ?as n ?bs ?pub prev h sl'" "same_shape sl1 sl'"
    using link_levels_all [OF b(5), of h] b(3) by auto
  have "0 < h" using linking_facts(7) [OF b(5)] b(3) by simp
  then have "sl_inv compare ok sl' (?as @ n # ?bs) (?pub(n := h))" using linking_facts(1) [OF l(2)] by simp
  then have "sl_rep compare ok sl' (?as @ n # ?bs)"
    unfolding sl_rep_def by (rule inv_pub_cong) (use b l(3) in \<open>auto simp: same_shape_def\<close>)
  then show ?thesis using b l by (auto simp: Insert_def same_shape_def)
qed

lemma Insert_keys:
  assumes "sl_keys compare ok sl ks" "ok k" "\<forall>k'\<in>set ks. compare k k' \<noteq> 0"
  shows "\<exists>sl'. Insert compare k sl = Some (Inr sl') \<and> sl_keys compare ok sl' (insert_key compare k ks)"
proof -
  obtain xs where xs: "sl_rep compare ok sl xs" "ks = map (nkey sl) xs" using assms(1) by (auto simp: sl_keys_def)
  then obtain n sl' where i: "Insert compare k sl = Some (Inr sl')" "nkey sl' n = k" "\<forall>x\<in>set xs. nkey sl' x = nkey sl x"
      "sl_rep compare ok sl' (filter (\<lambda>x. compare (nkey sl x) k < 0) xs @ n # filter (\<lambda>x. \<not> compare (nkey sl x) k < 0) xs)"
    using Insert_spec [OF xs(1) assms(2)] assms(3) by auto
  have "map (nkey sl') (filter P xs) = map (nkey sl) (filter P xs)" for P using i(3) by auto
  then have "insert_key compare k ks =
      map (nkey sl') (filter (\<lambda>x. compare (nkey sl x) k < 0) xs @ n # filter (\<lambda>x. \<not> compare (nkey sl x) k < 0) xs)"
    using i(2) by (simp add: insert_key_def xs(2) filter_map comp_def)
  then show ?thesis using i(1,4) unfolding sl_keys_def by blast
qed

lemma Seek_spec:
  assumes "sl_rep compare ok sl xs" "ok k"
  shows "iter_Seek compare sl k = Some (Inr (at_index xs (length (takeWhile (\<lambda>x. compare (nkey sl x) k < 0) xs))))"
  using FindGreaterOrEqual_spec [OF assms(1) [unfolded sl_rep_def] assms(2), of None]
  by (auto simp: iter_Seek_def first_index)

lemma Contains_spec:
  assumes rep: "sl_rep compare ok sl xs" and k: "ok k"
  shows "Contains compare sl k = Some (Inr (\<exists>x\<in>set xs. compare k (nkey sl x) = 0))"
proof -
  note inv = rep [unfolded sl_rep_def]
  have oks: "\<forall>x\<in>set xs. ok (nkey sl x)" and srt: "sorted_wrt (\<lambda>x y. compare (nkey sl x) (nkey sl y) < 0) xs"
    using inv unfolding sl_inv_def by blast+
  let ?bs = "filter (\<lambda>x. \<not> compare (nkey sl x) k < 0) xs"
  have eq_bs: "x \<in> set ?bs" if "x \<in> set xs" "compare k (nkey sl x) = 0" for x
    using that swap [of "nkey sl x" k] k oks by auto
  have find: "FindGreaterOrEqual compare sl k None = Some (Inr (first ?bs, None))"
    using FindGreaterOrEqual_spec [OF inv k, of None] by auto
  show ?thesis
  proof (cases ?bs)
    case Nil
    then have "\<not> (\<exists>x\<in>set xs. compare k (nkey sl x) = 0)" using eq_bs by (metis empty_iff empty_set)
    then show ?thesis using Nil by (simp add: Contains_def find)
  next
    case (Cons y ys)
    have y: "y \<in> set xs" "\<not> compare (nkey sl y) k < 0" 
      using first_filter [of "\<lambda>x. \<not> compare (nkey sl x) k < 0" xs y] Cons by simp_all
    have "sorted_wrt (\<lambda>x y. compare (nkey sl x) (nkey sl y) < 0) ?bs" using srt by (rule sorted_wrt_filter)
    then have lt: "compare (nkey sl y) (nkey sl x) < 0" if "x \<in> set ys" for x using Cons that by simp
    have "compare k (nkey sl y) = 0" if x: "x \<in> set xs" "compare k (nkey sl x) = 0" for x
    proof (cases "x = y")
      case False
      then have "x \<in> set ys" using eq_bs [OF x] Cons by simp
      moreover have "compare k (nkey sl y) \<le> 0" using y(2) not_less k oks y(1) by blast
      ultimately have "compare k (nkey sl x) < 0" using le_less_trans [of k "nkey sl y" "nkey sl x"] lt k oks y(1) x(1) by blast
      then show ?thesis using x(2) by simp
    qed (use x in simp)
    then have "(\<exists>x\<in>set xs. compare k (nkey sl x) = 0) \<longleftrightarrow> compare k (nkey sl y) = 0" using y(1) by blast
    then show ?thesis using Cons key_at_node [OF inv y(1)] by (simp add: Contains_def find Equal_def)
  qed
qed

lemma behind_index:
  assumes "sl_rep compare ok sl xs" "j < length xs"
  shows "behind (xs ! j) xs = drop (j + 1) xs" "filter (\<lambda>x. compare (nkey sl x) (nkey sl (xs ! j)) < 0) xs = take j xs"
proof -
  note inv = assms(1) [unfolded sl_rep_def]
  have xs: "xs = take j xs @ xs ! j # drop (j + 1) xs" using assms(2) by (simp add: id_take_nth_drop)
  have d: "distinct xs" "0 \<notin> set xs" using inv_distinct [OF inv] by auto
  then have "xs ! j \<notin> set (take j xs)" using xs by (metis distinct_append distinct.simps(2) not_distinct_conv_prefix)
  moreover have "xs ! j \<noteq> 0" using d assms(2) by (metis nth_mem)
  ultimately show "behind (xs ! j) xs = drop (j + 1) xs" using behind_split xs by metis
  have oks: "\<forall>x\<in>set xs. ok (nkey sl x)" and srt: "sorted_wrt (\<lambda>x y. compare (nkey sl x) (nkey sl y) < 0) (take j xs @ xs ! j # drop (j + 1) xs)"
    using inv xs unfolding sl_inv_def by metis+
  then have "\<forall>x\<in>set (take j xs). compare (nkey sl x) (nkey sl (xs ! j)) < 0"
      "\<forall>x\<in>set (drop (j + 1) xs). compare (nkey sl (xs ! j)) (nkey sl x) < 0"
    unfolding sorted_wrt_append by simp_all
  moreover from this(2) have "\<forall>x\<in>set (xs ! j # drop (j + 1) xs). \<not> compare (nkey sl x) (nkey sl (xs ! j)) < 0"
    using oks swap self assms(2) by (auto dest: in_set_dropD) (metis in_set_dropD less_asym nth_mem)
  ultimately have "filter (\<lambda>x. compare (nkey sl x) (nkey sl (xs ! j)) < 0) (take j xs @ xs ! j # drop (j + 1) xs) = take j xs"
    by (simp add: filter_id_conv filter_empty_conv)
  then show "filter (\<lambda>x. compare (nkey sl x) (nkey sl (xs ! j)) < 0) xs = take j xs" using xs by metis
qed

lemma iterator_spec:
  assumes rep: "sl_rep compare ok sl xs"
  shows "j < length xs \<Longrightarrow> iter_key sl (at_index xs j) = Inr (nkey sl (xs ! j))"
    and "j < length xs \<Longrightarrow> iter_Next sl (at_index xs j) = Inr (at_index xs (j + 1))"
    and "j < length xs \<Longrightarrow> iter_Prev compare sl (at_index xs j) = Some (Inr (if j = 0 then None else at_index xs (j - 1)))"
    and "iter_SeekToFirst sl = Inr (at_index xs 0)" and "iter_SeekToLast sl = Some (Inr (at_index xs (length xs - 1)))"
proof -
  note inv = rep [unfolded sl_rep_def]
  have pub: "filter (\<lambda>y. 0 < height sl y) ys = ys" if "set ys \<subseteq> set xs" for ys
    using inv that unfolding sl_inv_def by (intro filter_True) fastforce
  have z: "0 < kMaxHeight" by (simp add: kMaxHeight_def)
  show "iter_SeekToFirst sl = Inr (at_index xs 0)"
    using next_at [OF inv z, of 0] pub [of xs] first_drop [of 0 xs] by (simp add: iter_SeekToFirst_def behind_def)
  have "0 \<notin> set xs" using inv_distinct [OF inv] by blast
  then have nz: "xs ! i \<noteq> 0" if "i < length xs" for i using that nth_mem by metis
  show "iter_SeekToLast sl = Some (Inr (at_index xs (length xs - 1)))"
    using FindLast_spec [OF inv] nz [of "length xs - 1"] by (auto simp: iter_SeekToLast_def not_head_def at_index_def last_conv_nth)
  assume j: "j < length xs"
  then have x: "at_index xs j = Some (xs ! j)" "xs ! j \<in> set xs" by (simp_all add: at_index_def)
  then show key: "iter_key sl (at_index xs j) = Inr (nkey sl (xs ! j))" using key_at_node [OF inv] by (simp add: iter_key_def)
  have h: "0 < height sl (xs ! j)" and k: "ok (nkey sl (xs ! j))" using inv x(2) unfolding sl_inv_def by fastforce+
  have "set (drop (j + 1) xs) \<subseteq> set xs" by (rule set_drop_subset)
  then show "iter_Next sl (at_index xs j) = Inr (at_index xs (j + 1))"
    using next_at [OF inv z, of "xs ! j"] x h behind_index [OF rep j] pub first_drop [of "j + 1" xs] by (simp add: iter_Next_def)
  have "last_before compare sl xs (\<lambda>x. height sl x) (nkey sl (xs ! j)) 0 = last (0 # take j xs)"
  proof -
    have "filter (\<lambda>y. 0 < height sl y \<and> compare (nkey sl y) (nkey sl (xs ! j)) < 0) xs =
        filter (\<lambda>y. compare (nkey sl y) (nkey sl (xs ! j)) < 0) (filter (\<lambda>y. 0 < height sl y) xs)" by (simp add: conj_commute)
    also have "\<dots> = take j xs" using pub [OF subset_refl] behind_index(2) [OF rep j] by (simp only:)
    finally show ?thesis by (simp only: last_before_def)
  qed
  also have "\<dots> = (if j = 0 then 0 else xs ! (j - 1))" using j by (auto simp: last_conv_nth)
  finally show "iter_Prev compare sl (at_index xs j) = Some (Inr (if j = 0 then None else at_index xs (j - 1)))"
    using FindLessThan_spec [OF inv k] key nz [of "j - 1"] j
      less_imp_diff_less [OF j, of 1]
    by (cases "j = 0") (simp_all add: iter_Prev_def not_head_def at_index_def)
qed

end

end
