(* ===== verification/Ldb_Skiplist_Concurrent.thy ===== *)
theory Ldb_Skiplist_Concurrent
  imports Ldb_Skiplist_Insert
begin

text \<open>
  One writer and one reader of a skip list at the same time, as the comment at the head of
  db/leveldb/db/skiplist.h allows. A step of the writer is one store to a link that was published or
  is about to be; the stores before the first of them touch only the height of the list and memory
  that no reader can reach. A step of the reader is one round of \<open>FindGreaterOrEqual\<close>, which loads one
  link. The reader may start from an old height. Several readers do not affect each other.
\<close>

section \<open>The steps\<close>

datatype writer = WIdle | WLink nat nat prev_array nat bool

datatype 'k reader = RIdle | RSearch 'k nat nat | RDone 'k "nat option"

text \<open>\<open>ss_keys\<close> are the keys whose insertion has begun.\<close>

record 'k sl_sys =
  ss_list :: "'k skiplist"
  ss_writer :: writer
  ss_reader :: "'k reader"
  ss_keys :: "'k set"

inductive sl_step :: "('k \<Rightarrow> 'k \<Rightarrow> int) \<Rightarrow> ('k \<Rightarrow> bool) \<Rightarrow> 'k sl_sys \<Rightarrow> 'k sl_sys \<Rightarrow> bool"
  for compare ok where
  begin_insert: "ss_writer s = WIdle \<Longrightarrow> ok k \<Longrightarrow> \<forall>k'\<in>ss_keys s. compare k k' \<noteq> 0 \<Longrightarrow>
    insert_begin compare k (ss_list s) = Some (Inr (n, h, prev, sl')) \<Longrightarrow>
    sl_step compare ok s (s\<lparr>ss_list := sl', ss_writer := WLink n h prev 0 False, ss_keys := insert k (ss_keys s)\<rparr>)"
| store_successor: "ss_writer s = WLink n h prev i False \<Longrightarrow> i < h \<Longrightarrow> store_new n prev i (ss_list s) = Inr sl' \<Longrightarrow>
    sl_step compare ok s (s\<lparr>ss_list := sl', ss_writer := WLink n h prev i True\<rparr>)"
| publish: "ss_writer s = WLink n h prev i True \<Longrightarrow> store_prev n prev i (ss_list s) = Inr sl' \<Longrightarrow>
    sl_step compare ok s (s\<lparr>ss_list := sl', ss_writer := WLink n h prev (i + 1) False\<rparr>)"
| end_insert: "ss_writer s = WLink n h prev h False \<Longrightarrow> sl_step compare ok s (s\<lparr>ss_writer := WIdle\<rparr>)"
| start_search: "ok k \<Longrightarrow> 1 \<le> m \<Longrightarrow> m \<le> GetMaxHeight (ss_list s) \<Longrightarrow>
    sl_step compare ok s (s\<lparr>ss_reader := RSearch k 0 (m - 1)\<rparr>)"
| search: "ss_reader s = RSearch k x i \<Longrightarrow> ge_turn compare (ss_list s) k (x, i, None) = Inr (Inl (y, j, p)) \<Longrightarrow>
    sl_step compare ok s (s\<lparr>ss_reader := RSearch k y j\<rparr>)"
| end_search: "ss_reader s = RSearch k x i \<Longrightarrow> ge_turn compare (ss_list s) k (x, i, None) = Inr (Inr (r, p)) \<Longrightarrow>
    sl_step compare ok s (s\<lparr>ss_reader := RDone k r\<rparr>)"

inductive_cases sl_stepE: "sl_step compare ok s t"

definition sl_start :: "'k \<Rightarrow> 'k sl_sys \<Rightarrow> bool" where
  "sl_start key0 s \<longleftrightarrow> SkipList_new key0 Arena_new = Inr (ss_list s) \<and> ss_writer s = WIdle \<and> ss_reader s = RIdle \<and> ss_keys s = {}"

section \<open>The invariant\<close>

text \<open>The writer's part: which nodes are in the list, at how many levels, and which keys they hold.\<close>

fun writer_ok :: "('k \<Rightarrow> 'k \<Rightarrow> int) \<Rightarrow> ('k \<Rightarrow> bool) \<Rightarrow> 'k skiplist \<Rightarrow> nat list \<Rightarrow> (nat \<Rightarrow> nat) \<Rightarrow> 'k set \<Rightarrow> writer \<Rightarrow> bool" where
  "writer_ok compare ok sl xs pub K WIdle \<longleftrightarrow> K = nkey sl ` set xs"
| "writer_ok compare ok sl xs pub K (WLink n h prev i half) \<longleftrightarrow>
     (\<exists>as bs pub0. linking compare ok as n bs pub0 prev i sl \<and> h = height sl n \<and> (half \<longrightarrow> half_linked sl n bs pub0 i) \<and>
        xs = as @ (if i = 0 then bs else n # bs) \<and> pub = pub0(n := i) \<and> K = insert (nkey sl n) (nkey sl ` set xs))"

fun reader_ok :: "('k \<Rightarrow> 'k \<Rightarrow> int) \<Rightarrow> ('k \<Rightarrow> bool) \<Rightarrow> 'k skiplist \<Rightarrow> nat list \<Rightarrow> (nat \<Rightarrow> nat) \<Rightarrow> 'k reader \<Rightarrow> bool" where
  "reader_ok compare ok sl xs pub (RSearch k x i) \<longleftrightarrow> ok k \<and> at_level compare sl xs pub k x i"
| "reader_ok compare ok sl xs pub r \<longleftrightarrow> True"

definition sys_inv :: "('k \<Rightarrow> 'k \<Rightarrow> int) \<Rightarrow> ('k \<Rightarrow> bool) \<Rightarrow> 'k sl_sys \<Rightarrow> nat list \<Rightarrow> (nat \<Rightarrow> nat) \<Rightarrow> bool" where
  "sys_inv compare ok s xs pub \<longleftrightarrow> sl_inv compare ok (ss_list s) xs pub \<and>
     writer_ok compare ok (ss_list s) xs pub (ss_keys s) (ss_writer s) \<and> reader_ok compare ok (ss_list s) xs pub (ss_reader s)"

text \<open>A reader keeps its place while nodes are added and linked at more levels.\<close>

lemma reader_ok_grow:
  assumes "reader_ok compare ok sl xs pub r" "set xs \<subseteq> set xs'" "\<forall>x\<in>set xs. nkey sl' x = nkey sl x \<and> pub x \<le> pub' x"
  shows "reader_ok compare ok sl' xs' pub' r"
  using assms by (cases r) (auto simp: at_level_def intro: less_le_trans)

context key_order
begin

lemma begin_inv:
  assumes inv: "sys_inv compare ok s xs pub" and w: "ss_writer s = WIdle" and k: "ok k" and new: "\<forall>k'\<in>ss_keys s. compare k k' \<noteq> 0"
    and b: "insert_begin compare k (ss_list s) = Some (Inr (n, h, prev, sl'))"
  shows "\<exists>xs' pub'. sys_inv compare ok (s\<lparr>ss_list := sl', ss_writer := WLink n h prev 0 False, ss_keys := insert k (ss_keys s)\<rparr>) xs' pub'"
proof -
  have i: "sl_inv compare ok (ss_list s) xs pub" and K: "ss_keys s = nkey (ss_list s) ` set xs"
    and rd: "reader_ok compare ok (ss_list s) xs pub (ss_reader s)"
    using inv w by (auto simp: sys_inv_def)
  let ?as = "filter (\<lambda>x. compare (nkey (ss_list s) x) k < 0) xs" and ?bs = "filter (\<lambda>x. \<not> compare (nkey (ss_list s) x) k < 0) xs"
  have sp: "nkey sl' n = k" "height sl' n = h" "\<forall>x\<in>set xs. nkey sl' x = nkey (ss_list s) x"
      "linking compare ok ?as n ?bs pub prev 0 sl'"
    using insert_begin_spec [OF i k] new b K by auto
  have sub: "set (?as @ ?bs) = set xs" by auto
  have "x \<in> set xs \<Longrightarrow> pub x \<le> (pub(n := 0)) x" for x using linking_facts(4) [OF sp(4)] sub by auto
  then have "reader_ok compare ok sl' (?as @ ?bs) (pub(n := 0)) (ss_reader s)"
    using reader_ok_grow [OF rd, of "?as @ ?bs" sl' "pub(n := 0)"] sub sp(3) by blast
  moreover have "insert k (ss_keys s) = insert (nkey sl' n) (nkey sl' ` set (?as @ ?bs))"
    unfolding K sub using sp(1,3) by auto
  ultimately have "sys_inv compare ok (s\<lparr>ss_list := sl', ss_writer := WLink n h prev 0 False, ss_keys := insert k (ss_keys s)\<rparr>) (?as @ ?bs) (pub(n := 0))"
    using linking_facts(1) [OF sp(4)] sp(2,4) unfolding sys_inv_def by auto
  then show ?thesis by blast
qed

lemma store_inv:
  assumes inv: "sys_inv compare ok s xs pub" and w: "ss_writer s = WLink n h prev i False" and "i < h"
  shows "\<exists>sl'. store_new n prev i (ss_list s) = Inr sl' \<and>
    (\<exists>xs' pub'. sys_inv compare ok (s\<lparr>ss_list := sl', ss_writer := WLink n h prev i True\<rparr>) xs' pub')"
proof -
  obtain as bs pub0 where l: "linking compare ok as n bs pub0 prev i (ss_list s)" "h = height (ss_list s) n"
      "xs = as @ (if i = 0 then bs else n # bs)" "pub = pub0(n := i)" "ss_keys s = insert (nkey (ss_list s) n) (nkey (ss_list s) ` set xs)"
    using inv w by (auto simp: sys_inv_def)
  obtain sl' where st: "store_new n prev i (ss_list s) = Inr sl'" "same_shape (ss_list s) sl'" "linking compare ok as n bs pub0 prev i sl'"
      "half_linked sl' n bs pub0 i"
    using store_new_step [OF l(1)] assms(3) l(2) by blast
  have "reader_ok compare ok sl' xs pub (ss_reader s)"
  proof (rule reader_ok_grow)
    show "reader_ok compare ok (ss_list s) xs pub (ss_reader s)" using inv by (simp add: sys_inv_def)
    show "\<forall>x\<in>set xs. nkey sl' x = nkey (ss_list s) x \<and> pub x \<le> pub x" using st(2) by (simp add: same_shape_def)
  qed simp
  moreover have "writer_ok compare ok sl' xs pub (ss_keys s) (WLink n h prev i True)"
    using st l unfolding writer_ok.simps same_shape_def by (intro exI [of _ as] exI [of _ bs] exI [of _ pub0]) auto
  moreover have "sl_inv compare ok sl' xs pub" using linking_facts(1) [OF st(3)] unfolding l(3,4) .
  ultimately have "sys_inv compare ok (s\<lparr>ss_list := sl', ss_writer := WLink n h prev i True\<rparr>) xs pub" by (simp add: sys_inv_def del: writer_ok.simps)
  then show ?thesis using st(1) by blast
qed

lemma publish_inv:
  assumes inv: "sys_inv compare ok s xs pub" and w: "ss_writer s = WLink n h prev i True"
  shows "\<exists>sl'. store_prev n prev i (ss_list s) = Inr sl' \<and>
    (\<exists>xs' pub'. sys_inv compare ok (s\<lparr>ss_list := sl', ss_writer := WLink n h prev (i + 1) False\<rparr>) xs' pub')"
proof -
  obtain as bs pub0 where l: "linking compare ok as n bs pub0 prev i (ss_list s)" "h = height (ss_list s) n" "half_linked (ss_list s) n bs pub0 i"
      "xs = as @ (if i = 0 then bs else n # bs)" "pub = pub0(n := i)" "ss_keys s = insert (nkey (ss_list s) n) (nkey (ss_list s) ` set xs)"
    using inv w by (auto simp: sys_inv_def)
  obtain sl' where st: "store_prev n prev i (ss_list s) = Inr sl'" "same_shape (ss_list s) sl'" "linking compare ok as n bs pub0 prev (i + 1) sl'"
    using store_prev_step [OF l(1,3)] by blast
  let ?xs = "as @ n # bs" and ?pub = "pub0(n := i + 1)"
  have "reader_ok compare ok sl' ?xs ?pub (ss_reader s)"
  proof (rule reader_ok_grow)
    show "reader_ok compare ok (ss_list s) xs pub (ss_reader s)" using inv by (simp add: sys_inv_def)
    show "set xs \<subseteq> set ?xs" using l(4) by auto
    show "\<forall>x\<in>set xs. nkey sl' x = nkey (ss_list s) x \<and> pub x \<le> ?pub x" using st(2) l(5) by (simp add: same_shape_def)
  qed
  moreover have "ss_keys s = insert (nkey sl' n) (nkey sl' ` set ?xs)"
    using l(4,6) st(2) by (auto simp: same_shape_def)
  then have "writer_ok compare ok sl' ?xs ?pub (ss_keys s) (WLink n h prev (i + 1) False)"
    using st l(2) unfolding writer_ok.simps same_shape_def by (intro exI [of _ as] exI [of _ bs] exI [of _ pub0]) auto
  moreover have "sl_inv compare ok sl' ?xs ?pub" using linking_facts(1) [OF st(3)] by simp
  ultimately have "sys_inv compare ok (s\<lparr>ss_list := sl', ss_writer := WLink n h prev (i + 1) False\<rparr>) ?xs ?pub"
    by (simp add: sys_inv_def del: writer_ok.simps)
  then show ?thesis using st(1) by blast
qed

lemma end_inv:
  assumes inv: "sys_inv compare ok s xs pub" and w: "ss_writer s = WLink n h prev h False"
  shows "sys_inv compare ok (s\<lparr>ss_writer := WIdle\<rparr>) xs pub"
proof -
  obtain as bs pub0 where l: "linking compare ok as n bs pub0 prev h (ss_list s)" "h = height (ss_list s) n"
      "xs = as @ (if h = 0 then bs else n # bs)" "ss_keys s = insert (nkey (ss_list s) n) (nkey (ss_list s) ` set xs)"
    using inv w by (auto simp: sys_inv_def)
  have "0 < h" using linking_facts(7) [OF l(1)] l(2) by simp
  then show ?thesis using inv l(3,4) unfolding sys_inv_def by auto
qed

text \<open>A round of the search goes on from a place that is as good, or ends with the answer for the list as it is.\<close>

lemma search_round:
  assumes inv: "sys_inv compare ok s xs pub" and r: "ss_reader s = RSearch k x i"
  shows "(\<exists>y j. ge_turn compare (ss_list s) k (x, i, None) = Inr (Inl (y, j, None)) \<and> at_level compare (ss_list s) xs pub k y j) \<or>
    ge_turn compare (ss_list s) k (x, i, None) = Inr (Inr (first (filter (\<lambda>y. \<not> compare (nkey (ss_list s) y) k < 0) xs), None))"
proof -
  have i: "sl_inv compare ok (ss_list s) xs pub" and k: "ok k" and pos: "at_level compare (ss_list s) xs pub k x i"
    using inv r by (auto simp: sys_inv_def)
  have "at_level compare (ss_list s) xs pub k x (i - 1)" using pos by (auto simp: at_level_def)
  then show ?thesis using ge_turn_at [OF i k pos, of None] by (cases "i = 0") auto
qed

lemma step_sys_inv:
  assumes "sl_step compare ok s t" "\<exists>xs pub. sys_inv compare ok s xs pub"
  shows "\<exists>xs pub. sys_inv compare ok t xs pub"
proof -
  obtain xs pub where inv: "sys_inv compare ok s xs pub" using assms(2) by blast
  from assms(1) show ?thesis
  proof cases
    case (begin_insert k n h prev sl')
    then show ?thesis using begin_inv [OF inv] by blast
  next
    case (store_successor n h prev i sl')
    then show ?thesis using store_inv [OF inv] by fastforce
  next
    case (publish n h prev i sl')
    then show ?thesis using publish_inv [OF inv] by fastforce
  next
    case (end_insert n h prev)
    then show ?thesis using end_inv [OF inv] by blast
  next
    case (start_search k m)
    then have "sys_inv compare ok t xs pub"
      using inv by (auto simp: sys_inv_def at_level_def sl_inv_def GetMaxHeight_def)
    then show ?thesis by blast
  next
    case (search k x i y j p)
    then have "sys_inv compare ok t xs pub" using inv search_round [OF inv] by (fastforce simp: sys_inv_def)
    then show ?thesis by blast
  next
    case (end_search k x i r p)
    then have "sys_inv compare ok t xs pub" using inv by (auto simp: sys_inv_def)
    then show ?thesis by blast
  qed
qed

lemma start_sys_inv: "sl_start key0 s \<Longrightarrow> \<exists>xs pub. sys_inv compare ok s xs pub"
proof -
  assume st: "sl_start key0 s"
  have "arena_ok Arena_new []" by (simp add: arena_ok_def Arena_new_def)
  then have "sl_rep compare ok (ss_list s) []"
    using SkipList_new_spec [of Arena_new "[]" key0 compare ok] st by (auto simp: sl_start_def)
  then have "sys_inv compare ok s [] (\<lambda>x. height (ss_list s) x)" using st by (auto simp: sys_inv_def sl_start_def sl_rep_def)
  then show ?thesis by blast
qed

end

sublocale key_order \<subseteq> concurrent: inv_system "sl_step compare ok" "sl_start key0" "\<lambda>s. \<exists>xs pub. sys_inv compare ok s xs pub"
  for key0
  by unfold_locales (fact start_sys_inv, fact step_sys_inv)

context key_order
begin

lemma reach_sys_inv:
  "sl_start key0 s0 \<Longrightarrow> (sl_step compare ok)\<^sup>*\<^sup>* s0 s \<Longrightarrow> \<exists>xs pub. sys_inv compare ok s xs pub"
  by (rule concurrent.reach_inv)

end

section \<open>Properties\<close>

text \<open>
  C5. A search runs correctly while keys are inserted, store by store: in every reachable state some
  list of nodes \<open>xs\<close>, with increasing keys, is what the links of the lowest level run through; the next
  load of the search succeeds, and when it ends the search its result is the first node of \<open>xs\<close> at or
  after the key. The keys of \<open>xs\<close> are those of all insertions that have begun, possibly without the last
  one; without exception when the writer is idle. No store of the writer fails.
\<close>

theorem search_during_insert:
  assumes "key_order compare ok" "sl_start key0 s0" "(sl_step compare ok)\<^sup>*\<^sup>* s0 s"
  shows "\<exists>xs. chain (ss_list s) 0 0 xs \<and> sorted_wrt (\<lambda>x y. compare (nkey (ss_list s) x) (nkey (ss_list s) y) < 0) xs \<and>
    (ss_writer s = WIdle \<longrightarrow> nkey (ss_list s) ` set xs = ss_keys s) \<and>
    (\<forall>n h prev i half. ss_writer s = WLink n h prev i half \<longrightarrow>
       insert (nkey (ss_list s) n) (nkey (ss_list s) ` set xs) = ss_keys s \<and> (0 < i \<longrightarrow> n \<in> set xs) \<and>
       (half \<longrightarrow> (\<exists>sl'. store_prev n prev i (ss_list s) = Inr sl')) \<and>
       (\<not> half \<and> i < h \<longrightarrow> (\<exists>sl'. store_new n prev i (ss_list s) = Inr sl'))) \<and>
    (\<forall>k x i. ss_reader s = RSearch k x i \<longrightarrow>
       (\<exists>y j. ge_turn compare (ss_list s) k (x, i, None) = Inr (Inl (y, j, None))) \<or>
       ge_turn compare (ss_list s) k (x, i, None) =
         Inr (Inr (first (filter (\<lambda>y. \<not> compare (nkey (ss_list s) y) k < 0) xs), None)))"
proof -
  obtain xs pub where inv: "sys_inv compare ok s xs pub"
    using key_order.reach_sys_inv [OF assms] by blast
  have sl: "sl_inv compare ok (ss_list s) xs pub" using inv by (simp add: sys_inv_def)
  then have "filter (\<lambda>x. 0 < pub x) xs = xs" by (intro filter_True) (auto simp: sl_inv_def)
  then have "chain (ss_list s) 0 0 xs" using inv_chain [OF sl, of 0] by (simp add: kMaxHeight_def)
  moreover have "sorted_wrt (\<lambda>x y. compare (nkey (ss_list s) x) (nkey (ss_list s) y) < 0) xs" using sl by (simp add: sl_inv_def)
  moreover have "nkey (ss_list s) ` set xs = ss_keys s" if "ss_writer s = WIdle" using inv that by (simp add: sys_inv_def)
  moreover have "insert (nkey (ss_list s) n) (nkey (ss_list s) ` set xs) = ss_keys s \<and> (0 < i \<longrightarrow> n \<in> set xs) \<and>
       (half \<longrightarrow> (\<exists>sl'. store_prev n prev i (ss_list s) = Inr sl')) \<and>
       (\<not> half \<and> i < h \<longrightarrow> (\<exists>sl'. store_new n prev i (ss_list s) = Inr sl'))" if w: "ss_writer s = WLink n h prev i half" for n h prev i half
    using key_order.store_inv [OF assms(1) inv, of n h prev i] key_order.publish_inv [OF assms(1) inv, of n h prev i] inv w
    by (cases half) (auto simp: sys_inv_def)
  moreover have "(\<exists>y j. ge_turn compare (ss_list s) k (x, i, None) = Inr (Inl (y, j, None))) \<or>
       ge_turn compare (ss_list s) k (x, i, None) = Inr (Inr (first (filter (\<lambda>y. \<not> compare (nkey (ss_list s) y) k < 0) xs), None))"
    if "ss_reader s = RSearch k x i" for k x i
    using key_order.search_round [OF assms(1) inv that] by blast
  ultimately show ?thesis by blast
qed

lemma int_order: "key_order (\<lambda>a b :: int. a - b) (\<lambda>_. True)"
  by unfold_locales auto

lemma insert_under_way:
  "\<exists>s0 s. sl_start (0 :: int) s0 \<and> (sl_step (\<lambda>a b. a - b) (\<lambda>_. True))\<^sup>*\<^sup>* s0 s \<and> ss_keys s = {5} \<and> ss_reader s = RSearch 3 0 0"
proof -
  let ?c = "\<lambda>a b :: int. a - b" and ?ok = "\<lambda>_ :: int. True"
  have "arena_ok Arena_new []" by (simp add: arena_ok_def Arena_new_def)
  then obtain sl where sl: "SkipList_new (0 :: int) Arena_new = Inr sl" "sl_rep ?c ?ok sl []"
    using SkipList_new_spec [of Arena_new "[]" 0 ?c ?ok] by auto
  obtain n h prev sl' where b: "insert_begin ?c 5 sl = Some (Inr (n, h, prev, sl'))"
    using key_order.insert_begin_spec [OF int_order sl(2) [unfolded sl_rep_def], of 5] by auto
  let ?s0 = "\<lparr>ss_list = sl, ss_writer = WIdle, ss_reader = RIdle, ss_keys = {}\<rparr>"
  let ?s1 = "?s0\<lparr>ss_reader := RSearch 3 0 (1 - 1)\<rparr>"
  let ?s2 = "?s1\<lparr>ss_list := sl', ss_writer := WLink n h prev 0 False, ss_keys := insert 5 (ss_keys ?s1)\<rparr>"
  have "sl_step ?c ?ok ?s0 ?s1"
    by (rule start_search) (use sl(2) in \<open>auto simp: sl_rep_def sl_inv_def GetMaxHeight_def\<close>)
  moreover have "sl_step ?c ?ok ?s1 ?s2" by (rule begin_insert) (simp_all add: b)
  ultimately have "(sl_step ?c ?ok)\<^sup>*\<^sup>* ?s0 ?s2" by (meson converse_rtranclp_into_rtranclp rtranclp.rtrancl_refl)
  moreover have "sl_start 0 ?s0" using sl(1) by (simp add: sl_start_def)
  ultimately show ?thesis by (intro exI [of _ ?s0] exI [of _ ?s2]) simp
qed

theorem search_during_insert_witness:
  "\<exists>s0 s. sl_start (0 :: int) s0 \<and> (sl_step (\<lambda>a b. a - b) (\<lambda>_. True))\<^sup>*\<^sup>* s0 s \<and> ss_keys s = {5} \<and> ss_reader s = RSearch 3 0 0 \<and>
    (\<exists>xs. chain (ss_list s) 0 0 xs \<and>
       ((\<exists>y j. ge_turn (\<lambda>a b. a - b) (ss_list s) 3 (0, 0, None) = Inr (Inl (y, j, None))) \<or>
        ge_turn (\<lambda>a b. a - b) (ss_list s) 3 (0, 0, None) =
          Inr (Inr (first (filter (\<lambda>y. \<not> nkey (ss_list s) y - 3 < 0) xs), None))))"
proof -
  obtain s0 s where s: "sl_start (0 :: int) s0" "(sl_step (\<lambda>a b. a - b) (\<lambda>_. True))\<^sup>*\<^sup>* s0 s" "ss_keys s = {5}" "ss_reader s = RSearch 3 0 0"
    using insert_under_way by blast
  obtain xs where xs: "chain (ss_list s) 0 0 xs"
      "(\<exists>y j. ge_turn (\<lambda>a b. a - b) (ss_list s) 3 (0, 0, None) = Inr (Inl (y, j, None))) \<or>
        ge_turn (\<lambda>a b. a - b) (ss_list s) 3 (0, 0, None) =
          Inr (Inr (first (filter (\<lambda>y. \<not> nkey (ss_list s) y - 3 < 0) xs), None))"
    using search_during_insert [OF int_order s(1,2)] s(4) by metis
  show ?thesis by (intro exI [of _ s0] exI [of _ s] conjI s exI [of _ xs] xs)
qed

end
