(* ===== verification/Ldb_Coding.thy ===== *)
theory Ldb_Coding
  imports Net_Prelude
begin

text \<open>
  The encodings of db/leveldb/util/coding.h and coding.cc: fixed-width integers, varints and
  length-prefixed strings. A \<open>Slice\<close> and a pointer range \<open>[p, limit)\<close> are byte lists; a \<open>Get\<close>
  routine returns \<open>None\<close> for false or NULL, and otherwise the value and the bytes that are left.
\<close>

section \<open>Fixed-width integers\<close>

text \<open>
  The argument \<open>little\<close> is \<open>port::kLittleEndian\<close>. The encodings do not depend on it, as shown
  below; the other components use the value of the platforms LevelDB is built for most.
\<close>

definition kLittleEndian :: bool where "kLittleEndian = True"

definition EncodeFixed32 :: "bool \<Rightarrow> u32 \<Rightarrow> bytes" where
  "EncodeFixed32 little value =
     (if little then host_bytes little 4 value
      else [ucast (value AND 0xff), ucast (drop_bit 8 value AND 0xff),
            ucast (drop_bit 16 value AND 0xff), ucast (drop_bit 24 value AND 0xff)])"

definition EncodeFixed64 :: "bool \<Rightarrow> u64 \<Rightarrow> bytes" where
  "EncodeFixed64 little value =
     (if little then host_bytes little 8 value
      else [ucast (value AND 0xff), ucast (drop_bit 8 value AND 0xff),
            ucast (drop_bit 16 value AND 0xff), ucast (drop_bit 24 value AND 0xff),
            ucast (drop_bit 32 value AND 0xff), ucast (drop_bit 40 value AND 0xff),
            ucast (drop_bit 48 value AND 0xff), ucast (drop_bit 56 value AND 0xff)])"

text \<open>Decoding reads outside the object when there are not enough bytes.\<close>

definition DecodeFixed32 :: "bool \<Rightarrow> bytes \<Rightarrow> mem_error + u32" where
  "DecodeFixed32 little p =
     (if length p < 4 then Inl OutOfBounds
      else if little then Inr (host_word little (take 4 p))
      else Inr (ucast (p ! 0) OR push_bit 8 (ucast (p ! 1)) OR push_bit 16 (ucast (p ! 2)) OR
                push_bit 24 (ucast (p ! 3))))"

definition DecodeFixed64 :: "bool \<Rightarrow> bytes \<Rightarrow> mem_error + u64" where
  "DecodeFixed64 little p =
     (if length p < 8 then Inl OutOfBounds
      else if little then Inr (host_word little (take 8 p))
      else bind_res (DecodeFixed32 little p) (\<lambda>lo. bind_res (DecodeFixed32 little (drop 4 p)) (\<lambda>hi.
             Inr (push_bit 32 (ucast hi) OR ucast lo))))"

text \<open>The values for callers that have checked the length.\<close>

definition fixed32 :: "bytes \<Rightarrow> u32" where
  "fixed32 p = (case DecodeFixed32 kLittleEndian p of Inr v \<Rightarrow> v | Inl _ \<Rightarrow> 0)"

definition fixed64 :: "bytes \<Rightarrow> u64" where
  "fixed64 p = (case DecodeFixed64 kLittleEndian p of Inr v \<Rightarrow> v | Inl _ \<Rightarrow> 0)"

definition PutFixed32 :: "bool \<Rightarrow> bytes \<Rightarrow> u32 \<Rightarrow> bytes" where
  "PutFixed32 little dst value = dst @ EncodeFixed32 little value"

definition PutFixed64 :: "bool \<Rightarrow> bytes \<Rightarrow> u64 \<Rightarrow> bytes" where
  "PutFixed64 little dst value = dst @ EncodeFixed64 little value"

section \<open>Varints\<close>

definition EncodeVarint32 :: "u32 \<Rightarrow> bytes" where
  "EncodeVarint32 v =
     (let B = 128; b = (\<lambda>w :: u32. ucast w :: byte) in
      if v < push_bit 7 1 then [b v]
      else if v < push_bit 14 1 then [b (v OR B), b (drop_bit 7 v)]
      else if v < push_bit 21 1 then [b (v OR B), b (drop_bit 7 v OR B), b (drop_bit 14 v)]
      else if v < push_bit 28 1 then
        [b (v OR B), b (drop_bit 7 v OR B), b (drop_bit 14 v OR B), b (drop_bit 21 v)]
      else [b (v OR B), b (drop_bit 7 v OR B), b (drop_bit 14 v OR B), b (drop_bit 21 v OR B),
            b (drop_bit 28 v)])"

lemma drop_bit_7_less: "128 \<le> v \<Longrightarrow> unat (drop_bit 7 v) < unat (v :: u64)"
  by (simp add: drop_bit_eq_div unat_div word_le_nat_alt)

function EncodeVarint64 :: "u64 \<Rightarrow> bytes" where
  "EncodeVarint64 v =
     (if 128 \<le> v then ucast (v AND 127 OR 128) # EncodeVarint64 (drop_bit 7 v) else [ucast v])"
  by pat_completeness auto
termination by (relation "measure unat") (simp_all add: drop_bit_7_less)

function VarintLength :: "u64 \<Rightarrow> nat" where
  "VarintLength v = (if 128 \<le> v then Suc (VarintLength (drop_bit 7 v)) else 1)"
  by pat_completeness auto
termination by (relation "measure unat") (simp_all add: drop_bit_7_less)

declare EncodeVarint64.simps [simp del] VarintLength.simps [simp del]

definition PutVarint32 :: "bytes \<Rightarrow> u32 \<Rightarrow> bytes" where "PutVarint32 dst v = dst @ EncodeVarint32 v"
definition PutVarint64 :: "bytes \<Rightarrow> u64 \<Rightarrow> bytes" where "PutVarint64 dst v = dst @ EncodeVarint64 v"

definition PutLengthPrefixedSlice :: "bytes \<Rightarrow> bytes \<Rightarrow> bytes" where
  "PutLengthPrefixedSlice dst value = PutVarint32 dst (of_nat (length value)) @ value"

text \<open>
  The loop that both widths share: it stops when the shift exceeds \<open>smax\<close>, when the bytes end
  and at the first byte without the continuation bit.
\<close>

fun get_varint_loop :: "nat \<Rightarrow> 'a::len word \<Rightarrow> nat \<Rightarrow> bytes \<Rightarrow> ('a word \<times> bytes) option" where
  "get_varint_loop smax result shift [] = None"
| "get_varint_loop smax result shift (p # ps) =
     (if smax < shift then None
      else (let byte = ucast p in
            if byte AND 128 \<noteq> 0
            then get_varint_loop smax (result OR push_bit shift (byte AND 127)) (shift + 7) ps
            else Some (result OR push_bit shift byte, ps)))"

definition GetVarint32PtrFallback :: "bytes \<Rightarrow> (u32 \<times> bytes) option" where
  "GetVarint32PtrFallback p = get_varint_loop 28 0 0 p"

definition GetVarint32Ptr :: "bytes \<Rightarrow> (u32 \<times> bytes) option" where
  "GetVarint32Ptr p =
     (case p of
        b # bs \<Rightarrow> if (ucast b :: u32) AND 128 = 0 then Some (ucast b, bs) else GetVarint32PtrFallback p
      | [] \<Rightarrow> GetVarint32PtrFallback p)"

definition GetVarint64Ptr :: "bytes \<Rightarrow> (u64 \<times> bytes) option" where
  "GetVarint64Ptr p = get_varint_loop 63 0 0 p"

definition GetVarint32 :: "bytes \<Rightarrow> (u32 \<times> bytes) option" where
  "GetVarint32 input = GetVarint32Ptr input"

definition GetVarint64 :: "bytes \<Rightarrow> (u64 \<times> bytes) option" where
  "GetVarint64 input = GetVarint64Ptr input"

definition GetLengthPrefixedSlicePtr :: "bytes \<Rightarrow> (bytes \<times> bytes) option" where
  "GetLengthPrefixedSlicePtr p =
     (case GetVarint32Ptr p of
        None \<Rightarrow> None
      | Some (len, q) \<Rightarrow> if length q < unat len then None else Some (take (unat len) q, drop (unat len) q))"

text \<open>When the length is too large the slice version has consumed the varint already.\<close>

definition GetLengthPrefixedSlice :: "bytes \<Rightarrow> (bytes \<times> bytes) option" where
  "GetLengthPrefixedSlice input =
     (case GetVarint32 input of
        None \<Rightarrow> None
      | Some (len, q) \<Rightarrow> if unat len \<le> length q then Some (take (unat len) q, drop (unat len) q) else None)"


section \<open>Round trips\<close>

text \<open>
  The contract of an encoding: decoding the encoding of a value in range, whatever follows it,
  gives the value and what follows. Clients parse records by it.
\<close>

locale codec =
  fixes enc :: "'v \<Rightarrow> bytes" and dec :: "bytes \<Rightarrow> ('v \<times> bytes) option" and valid :: "'v \<Rightarrow> bool"
  assumes dec_enc: "valid v \<Longrightarrow> dec (enc v @ rest) = Some (v, rest)"
begin

lemma dec_enc_nil: "valid v \<Longrightarrow> dec (enc v) = Some (v, [])"
  using dec_enc [of v "[]"] by simp

lemma enc_prefix_free:
  assumes "valid v" "valid w" "enc v @ r = enc w @ s"
  shows "v = w \<and> r = s"
  using assms dec_enc by (metis Pair_inject option.inject)

lemma enc_inj: "valid v \<Longrightarrow> valid w \<Longrightarrow> enc v = enc w \<Longrightarrow> v = w"
  using enc_prefix_free [of v w "[]" "[]"] by simp

lemma enc_concat_inj:
  assumes "\<forall>v \<in> set vs. valid v" "\<forall>w \<in> set ws. valid w" "length vs = length ws"
    and "concat (map enc vs) @ r = concat (map enc ws) @ s"
  shows "vs = ws \<and> r = s"
  using assms(3,1,2,4)
proof (induction vs ws rule: list_induct2)
  case (Cons v vs w ws)
  then show ?case using enc_prefix_free [of v w "concat (map enc vs) @ r" "concat (map enc ws) @ s"] by simp
qed simp

end

lemma ucast_and_ff [word_byte_simps]: "(ucast (v AND 0xff) :: byte) = ucast (v :: 'a::len word)"
proof -
  have m: "(0xff :: 'a word) = mask 8" by (simp add: mask_eq_exp_minus_1)
  show ?thesis unfolding m by (auto intro!: bit_word_eqI simp: bit_simps dest: bit_imp_le_length)
qed

lemma EncodeFixed32_host: "EncodeFixed32 little v = host_bytes True 4 v"
  by (simp add: EncodeFixed32_def host_bytes_def Let_def word_byte_simps upt_rec [of _ 4] numeral_eq_Suc)

lemma EncodeFixed64_host: "EncodeFixed64 little v = host_bytes True 8 v"
  by (simp add: EncodeFixed64_def host_bytes_def Let_def word_byte_simps upt_rec [of _ 8] numeral_eq_Suc)


lemma take_4_nth: "4 \<le> length p \<Longrightarrow> take 4 p = [p ! 0, p ! 1, p ! 2, p ! 3]"
  by (rule nth_equalityI) (auto simp: less_Suc_eq numeral_eq_Suc)

lemma DecodeFixed32_host:
  "DecodeFixed32 little p = (if length p < 4 then Inl OutOfBounds else Inr (host_word True (take 4 p)))"
  by (simp add: DecodeFixed32_def host_word_def take_4_nth push_bit_or)

lemma host_word_append_4:
  assumes "length xs = 4" "length ys = 4"
  shows "(host_word True (xs @ ys) :: u64) =
    push_bit 32 (ucast (host_word True ys :: u32)) OR ucast (host_word True xs :: u32)"
proof (rule bit_word_eqI)
  fix k assume k: "k < LENGTH(64)"
  show "bit (host_word True (xs @ ys) :: u64) k =
      bit (push_bit 32 (ucast (host_word True ys :: u32)) OR ucast (host_word True xs :: u32) :: u64) k"
  proof (cases "k < 32")
    case True
    then show ?thesis using assms k
      by (auto simp: bit_simps bit_host_word nth_append)
  next
    case False
    then obtain j where j: "k = 32 + j" using le_Suc_ex by force
    then have "k div 8 = 4 + j div 8" "k mod 8 = j mod 8" by presburger+
    then have "bit (host_word True (xs @ ys) :: u64) k \<longleftrightarrow> j div 8 < 4 \<and> bit (ys ! (j div 8)) (j mod 8)"
      using assms k by (simp add: bit_host_word nth_append)
    moreover have "bit (push_bit 32 (ucast (host_word True ys :: u32)) OR ucast (host_word True xs :: u32) :: u64) k
        \<longleftrightarrow> j div 8 < 4 \<and> bit (ys ! (j div 8)) (j mod 8)"
      using assms(2) k j by (auto simp: bit_simps bit_host_word)
    ultimately show ?thesis by simp
  qed
qed

lemma DecodeFixed64_host:
  "DecodeFixed64 little p = (if length p < 8 then Inl OutOfBounds else Inr (host_word True (take 8 p)))"
proof -
  have "take 8 p = take 4 p @ take 4 (drop 4 p)" using take_add [of 4 4 p] by simp
  then show ?thesis
    by (auto simp: DecodeFixed64_def DecodeFixed32_host host_word_append_4)
qed

lemma DecodeFixed32_Encode [codec_simps]:
  "DecodeFixed32 little (EncodeFixed32 little' v @ rest) = Inr v"
  by (simp add: DecodeFixed32_host EncodeFixed32_host host_word_bytes)

lemma DecodeFixed64_Encode [codec_simps]:
  "DecodeFixed64 little (EncodeFixed64 little' v @ rest) = Inr v"
  by (simp add: DecodeFixed64_host EncodeFixed64_host host_word_bytes)

lemma fixed_Encode [codec_simps]:
  "fixed32 (EncodeFixed32 little v @ rest) = v" "fixed64 (EncodeFixed64 little w @ rest) = w"
  by (simp_all add: fixed32_def fixed64_def codec_simps)

lemma EncodeFixed_length [simp]: "length (EncodeFixed32 little v) = 4" "length (EncodeFixed64 little w) = 8"
  by (simp_all add: EncodeFixed32_host EncodeFixed64_host)


text \<open>
  The reference encoding of a number: seven bits at a time, least significant first, with the
  continuation bit on all bytes but the last.
\<close>

function varint :: "nat \<Rightarrow> bytes" where
  "varint n = (if 128 \<le> n then of_nat (n mod 128 + 128) # varint (n div 128) else [of_nat n])"
  by pat_completeness auto
termination by (relation "measure id") simp_all

declare varint.simps [simp del]

lemma and_127: "v AND 127 = take_bit 7 (v :: 'a::len word)"
  by (simp add: take_bit_eq_mask mask_eq_exp_minus_1)

lemma and_128: "v AND 128 \<noteq> 0 \<longleftrightarrow> bit (v :: 'a::len word) 7"
  using and_exp_eq_0_iff_not_bit [of v 7] by simp

lemma varint_step:
  "r OR push_bit s (take_bit 7 v) OR push_bit (s + 7) (drop_bit 7 v) = r OR push_bit s (v :: 'a::len word)"
proof (rule bit_word_eqI)
  fix k assume "k < LENGTH('a)"
  moreover have "s + 7 \<le> k \<Longrightarrow> 7 + (k - (s + 7)) = k - s" by simp
  ultimately show "bit (r OR push_bit s (take_bit 7 v) OR push_bit (s + 7) (drop_bit 7 v)) k =
      bit (r OR push_bit s v) k"
    by (cases "s + 7 \<le> k") (auto simp: bit_simps not_le)
qed

lemma of_nat_mod_128: "of_nat (n mod 128) = take_bit 7 (of_nat n :: 'a::len word)"
proof -
  have "take_bit 7 n = n mod 128" by (simp add: take_bit_eq_mod)
  then show ?thesis by (metis take_bit_of_nat)
qed

lemma of_nat_div_128:
  assumes "n < 2 ^ LENGTH('a)"
  shows "of_nat (n div 128) = drop_bit 7 (of_nat n :: 'a::len word)"
proof -
  have "unat (of_nat n :: 'a word) = n" using assms by (simp add: unat_of_nat)
  then have "unat (drop_bit 7 (of_nat n :: 'a word)) = drop_bit 7 n" by (simp only: unat_drop_bit_eq)
  then have "unat (drop_bit 7 (of_nat n :: 'a word)) = n div 128" by (simp only: drop_bit_eq_div) simp
  then show ?thesis by (metis of_nat_unat ucast_id)
qed

lemma ucast_of_nat_byte: "k < 256 \<Longrightarrow> ucast (of_nat k :: byte) = (of_nat k :: 'a::len word)"
  by (simp add: unsigned_of_nat take_bit_nat_eq_self)

lemma more_byte:
  fixes n :: nat
  defines "b \<equiv> of_nat (n mod 128 + 128) :: byte"
  assumes "8 \<le> LENGTH('a)"
  shows "ucast b AND 128 \<noteq> (0 :: 'a::len word)"
    and "ucast b AND 127 = (take_bit 7 (of_nat n) :: 'a::len word)"
proof -
  have b: "ucast b = (of_nat (n mod 128 + 128) :: 'a word)"
    unfolding b_def by (rule ucast_of_nat_byte) (use mod_less_divisor [of 128 n] in simp)
  have "(n mod 128 + 128) div 128 = 1" by simp
  then have "bit (n mod 128 + 128) 7" by (simp add: bit_iff_odd)
  then show "ucast b AND 128 \<noteq> (0 :: 'a::len word)"
    unfolding b and_128 bit_of_nat_iff using assms(2) by simp
  show "ucast b AND 127 = (take_bit 7 (of_nat n) :: 'a::len word)"
  proof -
    have "(n mod 128 + 128) mod 128 = n mod 128" by simp
    then show ?thesis unfolding b and_127 of_nat_mod_128 [symmetric] by simp
  qed
qed

lemma last_byte:
  assumes "n < 128" "8 \<le> LENGTH('a)"
  shows "ucast (of_nat n :: byte) AND 128 = (0 :: 'a::len word)"
    and "ucast (of_nat n :: byte) = (of_nat n :: 'a::len word)"
proof -
  show u: "ucast (of_nat n :: byte) = (of_nat n :: 'a::len word)" using assms by (simp add: ucast_of_nat_byte)
  have "\<not> bit n 7" using assms(1) by (simp add: bit_iff_odd)
  then have "\<not> bit (of_nat n :: 'a word) 7" by (simp add: bit_of_nat_iff)
  then show "ucast (of_nat n :: byte) AND 128 = (0 :: 'a::len word)" using and_128 u by metis
qed

lemma get_varint_loop_varint:
  fixes r :: "'a::len word"
  assumes L: "8 \<le> LENGTH('a)" and smax: "\<And>t. t < LENGTH('a) \<Longrightarrow> 7 dvd t \<Longrightarrow> t \<le> smax"
  shows "n * 2 ^ s < 2 ^ LENGTH('a) \<Longrightarrow> 7 dvd s \<Longrightarrow> s < LENGTH('a) \<Longrightarrow>
     get_varint_loop smax r s (varint n @ rest) = Some (r OR push_bit s (of_nat n), rest)"
proof (induction n arbitrary: r s rule: varint.induct)
  case (1 n)
  note s = smax [OF "1.prems"(3,2)]
  show ?case
  proof (cases "128 \<le> n")
    case True
    have "2 ^ (s + 7) \<le> n * 2 ^ s" using True by (simp add: power_add)
    from order_le_less_trans [OF this "1.prems"(1)] have s7: "s + 7 < LENGTH('a)"
      by (rule power_less_imp_less_exp [rotated]) simp
    have "n div 128 * 2 ^ (s + 7) = n div 128 * 128 * 2 ^ s" by (simp add: power_add)
    also have "\<dots> \<le> n * 2 ^ s" by (simp add: div_times_less_eq_dividend)
    finally have "n div 128 * 2 ^ (s + 7) < 2 ^ LENGTH('a)" using "1.prems"(1) by simp
    note IH = "1.IH" [OF True this _ s7]
    have "n \<le> n * 2 ^ s" by simp
    then have "n < 2 ^ LENGTH('a)" using "1.prems"(1) by linarith
    note d = of_nat_div_128 [OF this]
    show ?thesis
      using True s more_byte [OF L, of n] IH "1.prems"(2) varint_step [of r s "of_nat n"]
      by (subst varint.simps) (simp add: d or.assoc)
  next
    case False
    then show ?thesis using s last_byte [OF _ L, of n] by (subst varint.simps) simp
  qed
qed

lemma bit_128: "bit (128 :: nat) k \<longleftrightarrow> k = 7" "bit (128 :: 'a::len word) k \<longleftrightarrow> k < LENGTH('a) \<and> k = 7"
proof -
  have "bit ((2::nat) ^ 7) k \<longleftrightarrow> k = 7" by (simp only: bit_exp_iff) auto
  then show "bit (128 :: nat) k \<longleftrightarrow> k = 7" by simp
  have "bit ((2::'a word) ^ 7) k \<longleftrightarrow> k < LENGTH('a) \<and> k = 7" by (simp only: bit_exp_iff) auto
  then show "bit (128 :: 'a::len word) k \<longleftrightarrow> k < LENGTH('a) \<and> k = 7" by simp
qed

lemma add_128_or: "n mod 128 + 128 = take_bit 7 n OR (128 :: nat)"
proof -
  have "take_bit 7 n + 128 = take_bit 7 n OR (128 :: nat)"
    by (rule disjunctive_add) (auto simp: bit_128 bit_take_bit_iff)
  then show ?thesis by (simp add: take_bit_eq_mod)
qed

lemma byte_or_128:
  assumes "8 \<le> LENGTH('a)"
  shows "(ucast (v OR 128) :: byte) = of_nat (unat (v :: 'a::len word) mod 128 + 128)"
proof (rule bit_word_eqI)
  fix k assume k: "k < LENGTH(8)"
  have "bit (ucast (v OR 128) :: byte) k \<longleftrightarrow> bit v k \<or> k = 7"
    unfolding bit_unsigned_iff bit_or_iff bit_128 using k assms by auto
  moreover have "bit (of_nat (unat v mod 128 + 128) :: byte) k \<longleftrightarrow> bit v k \<or> k = 7"
    unfolding add_128_or bit_of_nat_iff bit_or_iff bit_128
    using k by (auto simp: bit_take_bit_iff bit_unsigned_iff dest: bit_imp_le_length)
  ultimately show "bit (ucast (v OR 128) :: byte) k = bit (of_nat (unat v mod 128 + 128) :: byte) k" by simp
qed

lemma byte_of_word: "(ucast (v :: 'a::len word) :: byte) = of_nat (unat v)"
  by (simp add: of_nat_unat)

lemma EncodeVarint64_varint: "EncodeVarint64 v = varint (unat v)"
proof (induction v rule: EncodeVarint64.induct)
  case (1 v)
  have d: "unat (drop_bit 7 v) = unat v div 128"
    by (simp only: unat_drop_bit_eq) (simp add: drop_bit_eq_div)
  have b: "(ucast (v AND 127 OR 128) :: byte) = of_nat (unat v mod 128 + 128)"
  proof -
    have "unat (v AND 127) mod 128 = unat v mod 128"
      by (simp only: and_127 unsigned_take_bit_eq) (simp add: take_bit_eq_mod)
    then show ?thesis using byte_or_128 [of "v AND 127"] by simp
  qed
  have c: "128 \<le> v \<longleftrightarrow> 128 \<le> unat v" by (simp add: word_le_nat_alt)
  show ?case
  proof (cases "128 \<le> v")
    case True
    then have "EncodeVarint64 v = ucast (v AND 127 OR 128) # EncodeVarint64 (drop_bit 7 v)"
      by (subst EncodeVarint64.simps) simp
    also have "\<dots> = varint (unat v)"
      using True by (subst varint.simps) (simp only: 1 b d c if_True)
    finally show ?thesis .
  next
    case False
    then have "EncodeVarint64 v = [ucast v]" by (subst EncodeVarint64.simps) simp
    also have "\<dots> = varint (unat v)"
      using False by (subst varint.simps) (simp only: c byte_of_word if_False)
    finally show ?thesis .
  qed
qed

lemma EncodeVarint32_varint: "EncodeVarint32 v = varint (unat v)"
proof -
  let ?n = "unat v"
  have n: "?n < 2 ^ 32" using unsigned_less [of v] by simp
  have d: "unat (drop_bit k v) = ?n div 2 ^ k" for k
    by (simp only: unat_drop_bit_eq) (simp add: drop_bit_eq_div)
  have b: "(ucast (drop_bit k v OR 128) :: byte) = of_nat (?n div 2 ^ k mod 128 + 128)" for k
    using byte_or_128 [of "drop_bit k v"] d by simp
  have c: "v < push_bit 7 1 \<longleftrightarrow> ?n < 2 ^ 7" "v < push_bit 14 1 \<longleftrightarrow> ?n < 2 ^ 14"
    "v < push_bit 21 1 \<longleftrightarrow> ?n < 2 ^ 21" "v < push_bit 28 1 \<longleftrightarrow> ?n < 2 ^ 28"
    by (simp_all add: word_less_nat_alt)
  have dd: "?n div 2 ^ k div 128 = ?n div 2 ^ (k + 7)" for k
    by (simp add: power_add div_mult2_eq)
  have v1: "varint (?n div 2 ^ k) =
      (if 2 ^ (k + 7) \<le> ?n then of_nat (?n div 2 ^ k mod 128 + 128) # varint (?n div 2 ^ (k + 7))
       else [of_nat (?n div 2 ^ k)])" for k
  proof -
    have "128 \<le> ?n div 2 ^ k \<longleftrightarrow> 2 ^ (k + 7) \<le> ?n"
      by (simp add: less_eq_div_iff_mult_less_eq power_add mult.commute)
    then show ?thesis by (subst varint.simps) (simp add: dd)
  qed
  have e: "(ucast (drop_bit k v) :: byte) = of_nat (?n div 2 ^ k)" for k
    using byte_of_word [of "drop_bit k v"] d by simp
  define P E V where "P k = (of_nat (?n div 2 ^ k mod 128 + 128) :: byte)"
    and "E k = (of_nat (?n div 2 ^ k) :: byte)" and "V k = varint (?n div 2 ^ k)" for k
  note v = v1 [folded P_def E_def V_def] and b' = b [folded P_def] and e' = e [folded E_def]
  have v28: "V 28 = [E 28]" using n v [of 28] by simp
  have vs: "V 0 = (if ?n < 2 ^ 7 then [E 0] else P 0 # V 7)" "V 7 = (if ?n < 2 ^ 14 then [E 7] else P 7 # V 14)"
    "V 14 = (if ?n < 2 ^ 21 then [E 14] else P 14 # V 21)" "V 21 = (if ?n < 2 ^ 28 then [E 21] else P 21 # V 28)"
    using v [of 0] v [of 7] v [of 14] v [of 21] by simp_all
  have "EncodeVarint32 v = V 0"
    unfolding EncodeVarint32_def Let_def c vs v28 b' e' 
    using b' [of 0] e' [of 0] by (simp only: drop_bit_0 id_apply if_distrib [of "(#) _"])
  then show ?thesis by (simp add: V_def)
qed

lemma GetVarint32_varint: "n < 2 ^ 32 \<Longrightarrow> GetVarint32 (varint n @ rest) = Some (of_nat n, rest)"
proof -
  assume n: "n < 2 ^ 32"
  have "t \<le> 28" if "t < LENGTH(32)" "7 dvd t" for t
    using that by (auto simp: dvd_def)
  then have f: "GetVarint32PtrFallback (varint n @ rest) = Some (of_nat n, rest)"
    using get_varint_loop_varint [where 'a = 32, of 28 n 0 0 rest] n by (simp add: GetVarint32PtrFallback_def)
  show ?thesis
  proof (cases "n < 128")
    case True
    then have "varint n = [of_nat n]" by (subst varint.simps) simp
    then show ?thesis
      using True last_byte [where 'a = 32, of n] by (simp add: GetVarint32_def GetVarint32Ptr_def)
  next
    case False
    then have "varint n = of_nat (n mod 128 + 128) # varint (n div 128)" by (subst varint.simps) simp
    then show ?thesis
      using f more_byte(1) [where 'a = 32, of n] by (simp add: GetVarint32_def GetVarint32Ptr_def)
  qed
qed

lemma GetVarint64_varint: "n < 2 ^ 64 \<Longrightarrow> GetVarint64 (varint n @ rest) = Some (of_nat n, rest)"
  using get_varint_loop_varint [where 'a = 64, of 63 n 0 0 rest]
  by (simp add: GetVarint64_def GetVarint64Ptr_def)

lemma GetVarint32_Encode [codec_simps]: "GetVarint32 (EncodeVarint32 v @ rest) = Some (v, rest)"
  using GetVarint32_varint [of "unat v" rest] unsigned_less [of v]
  by (simp add: EncodeVarint32_varint of_nat_unat)

lemma GetVarint64_Encode [codec_simps]: "GetVarint64 (EncodeVarint64 v @ rest) = Some (v, rest)"
  using GetVarint64_varint [of "unat v" rest] unsigned_less [of v]
  by (simp add: EncodeVarint64_varint of_nat_unat)

interpretation fixed32: codec "EncodeFixed32 little"
  "\<lambda>bs. case DecodeFixed32 little bs of Inl _ \<Rightarrow> None | Inr v \<Rightarrow> Some (v, drop 4 bs)" "\<lambda>_. True"
  by unfold_locales (simp add: codec_simps)

interpretation fixed64: codec "EncodeFixed64 little"
  "\<lambda>bs. case DecodeFixed64 little bs of Inl _ \<Rightarrow> None | Inr v \<Rightarrow> Some (v, drop 8 bs)" "\<lambda>_. True"
  by unfold_locales (simp add: codec_simps)

interpretation varint32: codec EncodeVarint32 GetVarint32 "\<lambda>_. True"
  by unfold_locales (simp add: codec_simps)

interpretation varint64: codec EncodeVarint64 GetVarint64 "\<lambda>_. True"
  by unfold_locales (simp add: codec_simps)

lemma GetLengthPrefixedSlice_Put [codec_simps]:
  "length v < 2 ^ 32 \<Longrightarrow> GetLengthPrefixedSlice (PutLengthPrefixedSlice [] v @ rest) = Some (v, rest)"
  by (simp add: GetLengthPrefixedSlice_def PutLengthPrefixedSlice_def PutVarint32_def codec_simps unat_of_nat_u32)

lemma GetLengthPrefixedSlicePtr_eq: "GetLengthPrefixedSlicePtr = GetLengthPrefixedSlice"
  by (rule ext) (auto simp: GetLengthPrefixedSlicePtr_def GetLengthPrefixedSlice_def GetVarint32_def
      split: option.splits)

lemma PutLengthPrefixedSlice_append:
  "PutLengthPrefixedSlice dst v = dst @ PutLengthPrefixedSlice [] v"
  by (simp add: PutLengthPrefixedSlice_def PutVarint32_def)

interpretation prefixed: codec "PutLengthPrefixedSlice []" GetLengthPrefixedSlice "\<lambda>v. length v < 2 ^ 32"
  by unfold_locales (simp add: codec_simps)

text \<open>Parsing never goes backwards: what is left is a proper suffix of the input.\<close>

lemma get_varint_loop_suffix:
  "get_varint_loop smax r s p = Some (v, q) \<Longrightarrow> \<exists>used. p = used @ q \<and> used \<noteq> [] \<and> 7 * length used + s \<le> smax + 7"
proof (induction smax r s p rule: get_varint_loop.induct)
  case (2 smax r s b bs)
  show ?case
  proof (cases "ucast b AND 128 = (0 :: 'a word)")
    case True
    then show ?thesis using "2.prems" by (auto simp: Let_def split: if_splits intro!: exI [of _ "[b]"])
  next
    case False
    then obtain used where "bs = used @ q" "7 * length used + (s + 7) \<le> smax + 7"
      using 2 by (auto simp: Let_def split: if_splits)
    then show ?thesis by (intro exI [of _ "b # used"]) auto
  qed
qed simp

lemma GetVarint32_suffix:
  assumes "GetVarint32 p = Some (v, q)"
  shows "\<exists>used. p = used @ q \<and> used \<noteq> [] \<and> length used \<le> 5"
proof (cases p)
  case Nil
  then show ?thesis using assms by (simp add: GetVarint32_def GetVarint32Ptr_def GetVarint32PtrFallback_def)
next
  case (Cons b bs)
  show ?thesis
  proof (cases "(ucast b :: u32) AND 128 = 0")
    case True
    then have "p = [b] @ q" using assms Cons by (simp add: GetVarint32_def GetVarint32Ptr_def)
    then show ?thesis by (intro exI [of _ "[b]"]) simp
  next
    case False
    then show ?thesis
      using get_varint_loop_suffix [of 28 0 0 p v q] assms Cons
      by (auto simp: GetVarint32_def GetVarint32Ptr_def GetVarint32PtrFallback_def)
  qed
qed

lemma GetVarint64_suffix:
  "GetVarint64 p = Some (v, q) \<Longrightarrow> \<exists>used. p = used @ q \<and> used \<noteq> [] \<and> length used \<le> 10"
  using get_varint_loop_suffix [of 63 0 0 p v q] by (auto simp: GetVarint64_def GetVarint64Ptr_def)

lemma GetLengthPrefixedSlice_suffix:
  assumes "GetLengthPrefixedSlice p = Some (v, q)"
  shows "\<exists>used. p = used @ v @ q \<and> used \<noteq> []"
proof -
  obtain len r where g: "GetVarint32 p = Some (len, r)" and "unat len \<le> length r" "v = take (unat len) r" "q = drop (unat len) r"
    using assms by (auto simp: GetLengthPrefixedSlice_def split: option.splits if_splits)
  then have "r = v @ q" by simp
  then show ?thesis using GetVarint32_suffix [OF g] by auto
qed

lemma VarintLength_eq: "VarintLength v = length (EncodeVarint64 v)"
  by (induction v rule: VarintLength.induct) (subst VarintLength.simps, subst EncodeVarint64.simps, simp)

lemma varint_length_bound: "0 < k \<Longrightarrow> n < 2 ^ (7 * k) \<Longrightarrow> length (varint n) \<le> k"
proof (induction n arbitrary: k rule: varint.induct)
  case (1 n)
  show ?case
  proof (cases "128 \<le> n")
    case True
    then have "k \<noteq> 1" using 1(3) by (intro notI) simp
    then obtain j where j: "k = Suc j" "0 < j" using 1(2) by (cases k) auto
    then have "n div 128 < 2 ^ (7 * j)"
      using 1(3) by (simp add: less_mult_imp_div_less power_add mult.commute)
    then show ?thesis using 1(1) [OF True j(2)] True j by (subst varint.simps) simp
  next
    case False
    then show ?thesis using 1(2) by (subst varint.simps) simp
  qed
qed


lemma varint_max_length: "length (EncodeVarint32 v) \<le> 5" "length (EncodeVarint64 w) \<le> 10"
proof -
  have "unat v < 2 ^ (7 * 5)" "unat w < 2 ^ (7 * 10)" by (rule order_less_le_trans [OF unsigned_less], simp)+
  then show "length (EncodeVarint32 v) \<le> 5" "length (EncodeVarint64 w) \<le> 10"
    using varint_length_bound [of 5 "unat v"] varint_length_bound [of 10 "unat w"]
    by (simp_all add: EncodeVarint32_varint EncodeVarint64_varint)
qed

section \<open>Properties\<close>

text \<open>
  C32. Varints: the unrolled 32-bit encoder and the 64-bit loop both produce the seven-bit
  groups of the number, at most 5 and 10 bytes of them, \<open>VarintLength\<close> is the length, and
  decoding gives the value back and leaves what follows.
\<close>

theorem varint_roundtrip:
  "EncodeVarint32 v = varint (unat v) \<and> length (EncodeVarint32 v) \<le> 5 \<and>
   GetVarint32 (PutVarint32 [] v @ rest) = Some (v, rest) \<and>
   EncodeVarint64 w = varint (unat w) \<and> length (EncodeVarint64 w) \<le> 10 \<and> VarintLength w = length (EncodeVarint64 w) \<and>
   GetVarint64 (PutVarint64 [] w @ rest) = Some (w, rest)"
  using varint_max_length
  by (simp add: EncodeVarint32_varint EncodeVarint64_varint PutVarint32_def PutVarint64_def
      VarintLength_eq varint32.dec_enc [unfolded EncodeVarint32_varint]
      varint64.dec_enc [unfolded EncodeVarint64_varint])

text \<open>
  C33. Fixed-width integers: the encoding is the same on hosts of either byte order, and
  decoding on either host gives the value back.
\<close>

theorem fixed_roundtrip:
  "EncodeFixed32 True v = EncodeFixed32 False v \<and> EncodeFixed64 True w = EncodeFixed64 False w \<and>
   DecodeFixed32 little (PutFixed32 big [] v @ rest) = Inr v \<and>
   DecodeFixed64 little (PutFixed64 big [] w @ rest) = Inr w"
  by (simp add: EncodeFixed32_host EncodeFixed64_host PutFixed32_def PutFixed64_def
      codec_simps [unfolded EncodeFixed32_host EncodeFixed64_host])

text \<open>
  Length-prefixed strings: what was put is read back, for every string shorter than 4 GiB,
  and parsing any bytes only ever returns a piece of them.
\<close>

theorem prefixed_roundtrip:
  assumes "length v < 2 ^ 32"
  shows "GetLengthPrefixedSlice (PutLengthPrefixedSlice [] v @ rest) = Some (v, rest) \<and>
    (\<forall>p x q. GetLengthPrefixedSlice p = Some (x, q) \<longrightarrow> (\<exists>used. p = used @ x @ q))"
  using prefixed.dec_enc [OF assms] GetLengthPrefixedSlice_suffix by blast

theorem prefixed_roundtrip_witness:
  "GetLengthPrefixedSlice (PutLengthPrefixedSlice [] [1, 2, 3] @ [9]) = Some ([1, 2, 3], [9])"
  using prefixed_roundtrip [of "[1, 2, 3]" "[9]"] by simp


end
