(* ===== verification/Ldb_Comparator.thy ===== *)
theory Ldb_Comparator
  imports Ldb_Coding "HOL-Library.List_Lexorder"
begin

text \<open>
  Slices and comparators: db/leveldb/include/leveldb/slice.h, include/leveldb/comparator.h and
  util/comparator.cc. A slice is the list of its bytes. The order on byte lists is the
  lexicographic order of the library, with bytes as unsigned numbers.
\<close>

section \<open>Slices\<close>

text \<open>
  \<open>memcmp\<close> on the first \<open>n\<close> bytes; the C library fixes only the sign of the result, and the
  callers use only the sign.
\<close>

fun memcmp :: "bytes \<Rightarrow> bytes \<Rightarrow> nat \<Rightarrow> int" where
  "memcmp (x # xs) (y # ys) (Suc n) = (if x = y then memcmp xs ys n else if x < y then -1 else 1)"
| "memcmp _ _ _ = 0"

definition slice_compare :: "bytes \<Rightarrow> bytes \<Rightarrow> int" where
  "slice_compare a b =
     (let min_len = (if length a < length b then length a else length b);
          r = memcmp a b min_len
      in if r = 0 then (if length a < length b then -1 else if length b < length a then 1 else r) else r)"

definition slice_eq :: "bytes \<Rightarrow> bytes \<Rightarrow> bool" where
  "slice_eq x y \<longleftrightarrow> length x = length y \<and> memcmp x y (length x) = 0"

definition starts_with :: "bytes \<Rightarrow> bytes \<Rightarrow> bool" where
  "starts_with a x \<longleftrightarrow> length x \<le> length a \<and> memcmp a x (length x) = 0"

definition remove_prefix :: "nat \<Rightarrow> bytes \<Rightarrow> mem_error + bytes" where
  "remove_prefix n a = (if n \<le> length a then Inr (drop n a) else Inl OutOfBounds)"

lemma memcmp_self [simp]: "memcmp x x n = 0"
proof (induction n arbitrary: x)
  case (Suc n)
  then show ?case by (cases x) simp_all
qed simp

lemma memcmp_zero: "n \<le> length x \<Longrightarrow> n \<le> length y \<Longrightarrow> memcmp x y n = 0 \<longleftrightarrow> take n x = take n y"
  by (induction x y n rule: memcmp.induct) auto

lemma slice_compare_Cons:
  "slice_compare (x # xs) (y # ys) = (if x = y then slice_compare xs ys else if x < y then -1 else 1)"
  by (simp add: slice_compare_def Let_def)

lemma slice_compare_Nil [simp]:
  "slice_compare [] [] = 0" "slice_compare [] (y # ys) = -1" "slice_compare (x # xs) [] = 1"
  by (simp_all add: slice_compare_def)

lemma slice_compare_order:
  "slice_compare a b = (if a < b then -1 else if a = b then 0 else 1)"
proof (induction a arbitrary: b)
  case Nil
  show ?case by (cases b) simp_all
next
  case (Cons x xs)
  then show ?case by (cases b) (auto simp: slice_compare_Cons)
qed

lemma slice_compare_iff [simp]:
  "slice_compare a b < 0 \<longleftrightarrow> a < b" "slice_compare a b \<le> 0 \<longleftrightarrow> a \<le> b"
  "slice_compare a b = 0 \<longleftrightarrow> a = b" "0 < slice_compare a b \<longleftrightarrow> b < a"
  by (auto simp: slice_compare_order)

lemma slice_eq_iff [simp]: "slice_eq x y \<longleftrightarrow> x = y"
  by (auto simp: slice_eq_def memcmp_zero)

lemma starts_with_iff: "starts_with a x \<longleftrightarrow> (\<exists>r. a = x @ r)"
proof
  assume "starts_with a x"
  then have "a = x @ drop (length x) a"
    using memcmp_zero [of "length x" a x] append_take_drop_id [of "length x" a] by (auto simp: starts_with_def)
  then show "\<exists>r. a = x @ r" ..
qed (auto simp: starts_with_def memcmp_zero)

section \<open>The contract of comparators\<close>

record comparator =
  Compare :: "bytes \<Rightarrow> bytes \<Rightarrow> int"
  FindShortestSeparator :: "bytes \<Rightarrow> bytes \<Rightarrow> bytes"
  FindShortSuccessor :: "bytes \<Rightarrow> bytes"

text \<open>
  What comparator.h promises, on the keys \<open>ok\<close>: a total order, a separator in
  \<open>[start, limit)\<close> and a successor not below its argument.
\<close>

locale comparator_laws =
  fixes C :: comparator and ok :: "bytes \<Rightarrow> bool"
  assumes compare_eq: "ok a \<Longrightarrow> ok b \<Longrightarrow> Compare C a b = 0 \<longleftrightarrow> a = b"
    and compare_flip: "ok a \<Longrightarrow> ok b \<Longrightarrow> Compare C a b < 0 \<longleftrightarrow> 0 < Compare C b a"
    and compare_trans: "ok a \<Longrightarrow> ok b \<Longrightarrow> ok c \<Longrightarrow> Compare C a b < 0 \<Longrightarrow> Compare C b c < 0 \<Longrightarrow> Compare C a c < 0"
    and separator: "ok s \<Longrightarrow> ok l \<Longrightarrow> Compare C s l < 0 \<Longrightarrow>
      ok (FindShortestSeparator C s l) \<and> Compare C s (FindShortestSeparator C s l) \<le> 0 \<and>
      Compare C (FindShortestSeparator C s l) l < 0"
    and successor: "ok k \<Longrightarrow> ok (FindShortSuccessor C k) \<and> Compare C k (FindShortSuccessor C k) \<le> 0"
begin

lemma compare_refl: "ok a \<Longrightarrow> Compare C a a = 0"
  by (simp add: compare_eq)

lemma compare_le_trans:
  assumes "ok a" "ok b" "ok c" "Compare C a b \<le> 0" "Compare C b c \<le> 0"
  shows "Compare C a c \<le> 0"
  using assms compare_trans [of a b c] compare_eq [of a b] compare_eq [of b c]
  by (cases "Compare C a b = 0"; cases "Compare C b c = 0") auto

lemma compare_le_less_trans:
  assumes "ok a" "ok b" "ok c" "Compare C a b \<le> 0" "Compare C b c < 0"
  shows "Compare C a c < 0"
  using assms compare_trans [of a b c] compare_eq [of a b]
  by (cases "Compare C a b = 0") auto

lemma compare_less_le_trans:
  assumes "ok a" "ok b" "ok c" "Compare C a b < 0" "Compare C b c \<le> 0"
  shows "Compare C a c < 0"
  using assms compare_trans [of a b c] compare_eq [of b c]
  by (cases "Compare C b c = 0") auto

lemma compare_not_less: "ok a \<Longrightarrow> ok b \<Longrightarrow> \<not> Compare C a b < 0 \<longleftrightarrow> Compare C b a \<le> 0"
  using compare_flip [of b a] compare_flip [of a b] compare_eq [of a b] compare_eq [of b a] by fastforce

end

section \<open>The bytewise comparator\<close>

text \<open>The length of the common prefix.\<close>

fun diff_index :: "bytes \<Rightarrow> bytes \<Rightarrow> nat" where
  "diff_index (x # xs) (y # ys) = (if x = y then Suc (diff_index xs ys) else 0)"
| "diff_index _ _ = 0"

definition bytewise_separator :: "bytes \<Rightarrow> bytes \<Rightarrow> bytes" where
  "bytewise_separator start limit =
     (let d = diff_index start limit in
      if min (length start) (length limit) \<le> d then start
      else if start ! d < 0xff \<and> unat (start ! d) + 1 < unat (limit ! d)
      then take d start @ [start ! d + 1]
      else start)"

fun bytewise_successor :: "bytes \<Rightarrow> bytes" where
  "bytewise_successor [] = []"
| "bytewise_successor (b # bs) = (if b \<noteq> 0xff then [b + 1] else b # bytewise_successor bs)"

definition BytewiseComparator :: comparator where
  "BytewiseComparator =
     \<lparr>Compare = slice_compare, FindShortestSeparator = bytewise_separator,
      FindShortSuccessor = bytewise_successor\<rparr>"


lemma unat_byte_succ:
  assumes "b \<noteq> (0xff :: byte)"
  shows "unat (b + 1) = Suc (unat b)"
proof -
  have "1 + b \<noteq> 0"
  proof
    assume "1 + b = 0"
    then have "b = - 1" by (simp add: add_eq_0_iff)
    then show False using assms by simp
  qed
  then have "unat (1 + b) = Suc (unat b)" by (rule unatSuc)
  then show ?thesis by (simp add: add.commute)
qed

lemma byte_succ_gt: "b \<noteq> (0xff :: byte) \<Longrightarrow> b < b + 1"
  by (simp add: word_less_nat_alt unat_byte_succ)

lemma separator_step:
  "bytewise_separator (x # xs) (x # ys) = x # bytewise_separator xs ys"
  by (simp add: bytewise_separator_def Let_def)

lemma bytewise_separator_between:
  "s < l \<Longrightarrow> s \<le> bytewise_separator s l \<and> bytewise_separator s l < l"
proof (induction s l rule: diff_index.induct)
  case (1 x xs y ys)
  show ?case
  proof (cases "x = y")
    case True
    then show ?thesis using 1 by (auto simp: separator_step)
  next
    case False
    then have "x < y" using "1.prems" by simp
    show ?thesis
    proof (cases "x < 0xff \<and> unat x + 1 < unat y")
      case True
      then have "unat (x + 1) = unat x + 1" using unat_byte_succ [of x] by auto
      then have "x < x + 1" "x + 1 < y" using True by (simp_all add: word_less_nat_alt)
      then show ?thesis using True \<open>x \<noteq> y\<close> by (simp add: bytewise_separator_def)
    next
      case False
      then show ?thesis using "1.prems" \<open>x \<noteq> y\<close> by (auto simp: bytewise_separator_def Let_def)
    qed
  qed
qed (auto simp: bytewise_separator_def)

lemma bytewise_successor_ge: "k \<le> bytewise_successor k"
  by (induction k rule: bytewise_successor.induct) (simp_all add: byte_succ_gt)

lemma bytewise_short:
  "length (bytewise_separator s l) \<le> length s" "length (bytewise_successor k) \<le> length k"
proof -
  have "diff_index s l \<le> length s" by (induction s l rule: diff_index.induct) simp_all
  then show "length (bytewise_separator s l) \<le> length s" by (auto simp: bytewise_separator_def Let_def)
  show "length (bytewise_successor k) \<le> length k" by (induction k) simp_all
qed

lemma BytewiseComparator_simps [simp]:
  "Compare BytewiseComparator = slice_compare"
  "FindShortestSeparator BytewiseComparator = bytewise_separator"
  "FindShortSuccessor BytewiseComparator = bytewise_successor"
  by (simp_all add: BytewiseComparator_def)

interpretation bytewise: comparator_laws BytewiseComparator "\<lambda>_. True"
  by unfold_locales (auto simp: bytewise_separator_between bytewise_successor_ge)

section \<open>Properties\<close>

text \<open>
  C34. The bytewise comparator keeps the contract of comparator.h: it is the lexicographic order
  of unsigned bytes, the separator of \<open>start < limit\<close> lies in \<open>[start, limit)\<close>, the successor
  is not below its argument, and neither is longer than the key it replaces.
\<close>

theorem bytewise_contract:
  "Compare BytewiseComparator a b = (if a < b then -1 else if a = b then 0 else 1) \<and>
   (Compare BytewiseComparator a b < 0 \<longrightarrow>
      (let s = FindShortestSeparator BytewiseComparator a b in a \<le> s \<and> s < b \<and> length s \<le> length a)) \<and>
   (let s = FindShortSuccessor BytewiseComparator a in a \<le> s \<and> length s \<le> length a)"
  using bytewise.separator [of a b] bytewise.successor [of a]
  by (simp add: bytewise_short Let_def) (simp add: slice_compare_order)

theorem bytewise_contract_witness:
  "Compare BytewiseComparator [1, 5, 9] [1, 8] < 0 \<and>
   FindShortestSeparator BytewiseComparator [1, 5, 9] [1, 8] = [1, 6] \<and> [1, 5, 9] \<le> [1, 6 :: byte] \<and> [1, 6] < [1, 8 :: byte]"
proof -
  have "Compare BytewiseComparator [1, 5, 9] [1, 8] < 0"
    "FindShortestSeparator BytewiseComparator [1, 5, 9] [1, 8] = [1, 6]"
    by (simp_all add: bytewise_separator_def)
  then show ?thesis using bytewise_contract [of "[1, 5, 9]" "[1, 8]"] by (simp add: Let_def)
qed

end
