(* ===== verification/Ldb_Dbformat.thy ===== *)
theory Ldb_Dbformat
  imports Ldb_Comparator
begin

text \<open>
  Internal keys: db/leveldb/db/dbformat.h and dbformat.cc. An internal key is a user key followed
  by eight bytes that hold a 56-bit sequence number and a type. An assertion of the source on the
  size of a key is the error \<open>OutOfBounds\<close> here.
\<close>

section \<open>Keys\<close>

datatype value_type = kTypeDeletion | kTypeValue

primrec type_byte :: "value_type \<Rightarrow> byte" where
  "type_byte kTypeDeletion = 0"
| "type_byte kTypeValue = 1"

definition kValueTypeForSeek :: value_type where "kValueTypeForSeek = kTypeValue"

definition kMaxSequenceNumber :: u64 where "kMaxSequenceNumber = push_bit 56 1 - 1"

record parsed_key =
  user_key :: bytes
  seqno :: u64
  key_type :: value_type

definition InternalKeyEncodingLength :: "parsed_key \<Rightarrow> nat" where
  "InternalKeyEncodingLength k = length (user_key k) + 8"

definition PackSequenceAndType :: "u64 \<Rightarrow> value_type \<Rightarrow> u64" where
  "PackSequenceAndType s t = push_bit 8 s OR ucast (type_byte t)"

definition AppendInternalKey :: "bytes \<Rightarrow> parsed_key \<Rightarrow> bytes" where
  "AppendInternalKey result k =
     PutFixed64 kLittleEndian (result @ user_key k) (PackSequenceAndType (seqno k) (key_type k))"

definition ExtractUserKey :: "bytes \<Rightarrow> mem_error + bytes" where
  "ExtractUserKey k = (if length k < 8 then Inl OutOfBounds else Inr (take (length k - 8) k))"

definition extract_tag :: "bytes \<Rightarrow> mem_error + u64" where
  "extract_tag k =
     (if length k < 8 then Inl OutOfBounds else DecodeFixed64 kLittleEndian (drop (length k - 8) k))"

text \<open>The type of a key as the byte of the cast; values above 1 name no type.\<close>

definition ExtractValueType :: "bytes \<Rightarrow> mem_error + byte" where
  "ExtractValueType k = bind_res (extract_tag k) (\<lambda>num. Inr (ucast (num AND 0xff)))"

definition ParseInternalKey :: "bytes \<Rightarrow> parsed_key option" where
  "ParseInternalKey k =
     (if length k < 8 then None
      else (case DecodeFixed64 kLittleEndian (drop (length k - 8) k) of
              Inl _ \<Rightarrow> None
            | Inr num \<Rightarrow>
                (let c = (ucast (num AND 0xff) :: byte) in
                 if c \<le> type_byte kTypeValue
                 then Some \<lparr>user_key = take (length k - 8) k, seqno = drop_bit 8 num,
                            key_type = (if c = 0 then kTypeDeletion else kTypeValue)\<rparr>
                 else None)))"

section \<open>The order of internal keys\<close>

definition ik_compare :: "comparator \<Rightarrow> bytes \<Rightarrow> bytes \<Rightarrow> mem_error + int" where
  "ik_compare user a b =
     bind_res (ExtractUserKey a) (\<lambda>ua. bind_res (ExtractUserKey b) (\<lambda>ub.
       let r = Compare user ua ub in
       if r = 0
       then bind_res (extract_tag a) (\<lambda>anum. bind_res (extract_tag b) (\<lambda>bnum.
              Inr (if bnum < anum then -1 else if anum < bnum then 1 else r)))
       else Inr r))"

definition seek_tag :: bytes where
  "seek_tag = EncodeFixed64 kLittleEndian (PackSequenceAndType kMaxSequenceNumber kValueTypeForSeek)"

definition ik_separator :: "comparator \<Rightarrow> bytes \<Rightarrow> bytes \<Rightarrow> mem_error + bytes" where
  "ik_separator user start limit =
     bind_res (ExtractUserKey start) (\<lambda>user_start. bind_res (ExtractUserKey limit) (\<lambda>user_limit.
       let tmp = FindShortestSeparator user user_start user_limit in
       Inr (if length tmp < length user_start \<and> Compare user user_start tmp < 0
            then tmp @ seek_tag else start)))"

definition ik_successor :: "comparator \<Rightarrow> bytes \<Rightarrow> mem_error + bytes" where
  "ik_successor user k =
     bind_res (ExtractUserKey k) (\<lambda>ukey.
       let tmp = FindShortSuccessor user ukey in
       Inr (if length tmp < length ukey \<and> Compare user ukey tmp < 0 then tmp @ seek_tag else k))"

text \<open>The comparator object; outside internal keys it is never called.\<close>

definition InternalKeyComparator :: "comparator \<Rightarrow> comparator" where
  "InternalKeyComparator user =
     \<lparr>Compare = (\<lambda>a b. case ik_compare user a b of Inl _ \<Rightarrow> 0 | Inr r \<Rightarrow> r),
      FindShortestSeparator = (\<lambda>s l. case ik_separator user s l of Inl _ \<Rightarrow> s | Inr t \<Rightarrow> t),
      FindShortSuccessor = (\<lambda>k. case ik_successor user k of Inl _ \<Rightarrow> k | Inr t \<Rightarrow> t)\<rparr>"

section \<open>Lookup keys\<close>

text \<open>
  The buffer of a \<open>LookupKey\<close> has 200 bytes, or as many as needed for a longer key; the varint
  has at most five bytes. \<open>start\<close>, \<open>kstart\<close> and \<open>end\<close> are offsets into it.
\<close>

record lookup_key =
  lk_space :: bytes
  lk_kstart :: nat
  lk_end :: nat

definition LookupKey_new :: "bytes \<Rightarrow> u64 \<Rightarrow> mem_error + lookup_key" where
  "LookupKey_new ukey s =
     (let usize = length ukey; needed = usize + 13;
          cap = (if needed \<le> 200 then 200 else needed);
          v = EncodeVarint32 (of_nat (usize + 8));
          bs = v @ ukey @ EncodeFixed64 kLittleEndian (PackSequenceAndType s kValueTypeForSeek)
      in if cap < length bs then Inl OutOfBounds
         else Inr \<lparr>lk_space = bs @ replicate (cap - length bs) 0, lk_kstart = length v, lk_end = length bs\<rparr>)"

definition memtable_key :: "lookup_key \<Rightarrow> bytes" where
  "memtable_key k = take (lk_end k) (lk_space k)"

definition internal_key :: "lookup_key \<Rightarrow> bytes" where
  "internal_key k = take (lk_end k - lk_kstart k) (drop (lk_kstart k) (lk_space k))"

definition lookup_user_key :: "lookup_key \<Rightarrow> bytes" where
  "lookup_user_key k = take (lk_end k - lk_kstart k - 8) (drop (lk_kstart k) (lk_space k))"


section \<open>Tags\<close>

lemma host_bytes_word:
  assumes "length bs = n" and "8 * n = LENGTH('a)"
  shows "host_bytes True n (host_word True bs :: 'a::len word) = bs"
proof (rule nth_equalityI)
  fix i assume "i < length (host_bytes True n (host_word True bs :: 'a word))"
  then have i: "i < n" by simp
  show "host_bytes True n (host_word True bs :: 'a word) ! i = bs ! i"
  proof (rule bit_word_eqI)
    fix j assume j: "j < LENGTH(8)"
    have "(8 * i + j) div 8 = i" "(8 * i + j) mod 8 = j" "8 * i + j < LENGTH('a)"
      using i j assms(2) by auto
    then show "bit (host_bytes True n (host_word True bs :: 'a word) ! i) j = bit (bs ! i) j"
      using i j assms(1) by (simp add: host_bytes_def bit_simps bit_host_word)
  qed
qed (simp add: assms)

text \<open>An internal key is a user key and a tag.\<close>

definition with_tag :: "bytes \<Rightarrow> u64 \<Rightarrow> bytes" where
  "with_tag u tag = u @ EncodeFixed64 kLittleEndian tag"

lemma with_tag_simps [simp]:
  "ExtractUserKey (with_tag u tag) = Inr u" "extract_tag (with_tag u tag) = Inr tag"
  "8 \<le> length (with_tag u tag)" "length (with_tag u tag) = length u + 8"
  using DecodeFixed64_Encode [of kLittleEndian kLittleEndian tag "[]"]
  by (simp_all add: with_tag_def ExtractUserKey_def extract_tag_def)

lemma with_tag_cases:
  assumes "8 \<le> length k"
  obtains u tag where "k = with_tag u tag"
proof -
  let ?t = "drop (length k - 8) k"
  have "host_bytes True 8 (host_word True ?t :: u64) = ?t"
    by (rule host_bytes_word) (use assms in simp_all)
  then have "k = with_tag (take (length k - 8) k) (host_word True ?t)"
    by (simp add: with_tag_def EncodeFixed64_host)
  then show ?thesis by (rule that)
qed

lemma with_tag_eq [simp]: "with_tag u a = with_tag v b \<longleftrightarrow> u = v \<and> a = b"
  by (metis sum.inject(2) with_tag_simps(1,2))

lemma internal_compare:
  "Compare (InternalKeyComparator U) (with_tag u a) (with_tag v b) =
     (if Compare U u v = 0 then (if b < a then -1 else if a < b then 1 else 0) else Compare U u v)"
  by (simp add: InternalKeyComparator_def ik_compare_def Let_def)

definition seek_max :: u64 where "seek_max = PackSequenceAndType kMaxSequenceNumber kValueTypeForSeek"

lemma seek_tag_eq: "tmp @ seek_tag = with_tag tmp seek_max"
  by (simp add: seek_tag_def with_tag_def seek_max_def)

lemma internal_separator:
  "FindShortestSeparator (InternalKeyComparator U) (with_tag u a) (with_tag v b) =
     (let t = FindShortestSeparator U u v in
      if length t < length u \<and> Compare U u t < 0 then with_tag t seek_max else with_tag u a)"
  by (simp add: InternalKeyComparator_def ik_separator_def Let_def seek_tag_eq)

lemma internal_successor:
  "FindShortSuccessor (InternalKeyComparator U) (with_tag u a) =
     (let t = FindShortSuccessor U u in
      if length t < length u \<and> Compare U u t < 0 then with_tag t seek_max else with_tag u a)"
  by (simp add: InternalKeyComparator_def ik_successor_def Let_def seek_tag_eq)

text \<open>
  From the contract of the user's comparator follows that of the comparator of internal keys. One
  more law is needed, which comparator.h does not state: \<open>FindShortestSeparator\<close> is called with
  equal user keys too, and must not give a shorter and larger key then.
\<close>

locale user_comparator = comparator_laws U "\<lambda>_. True" for U :: comparator +
  assumes separator_self: "length (FindShortestSeparator U u u) < length u \<Longrightarrow>
      \<not> Compare U u (FindShortestSeparator U u u) < 0"
begin

lemma internal_laws: "comparator_laws (InternalKeyComparator U) (\<lambda>k. 8 \<le> length k)"
proof
  fix a b :: bytes assume "8 \<le> length a" "8 \<le> length b"
  then obtain u s v t where ab: "a = with_tag u s" "b = with_tag v t" by (metis with_tag_cases)
  show "Compare (InternalKeyComparator U) a b = 0 \<longleftrightarrow> a = b"
    using compare_eq [of u v] by (auto simp: ab internal_compare)
  show "Compare (InternalKeyComparator U) a b < 0 \<longleftrightarrow> 0 < Compare (InternalKeyComparator U) b a"
    using compare_flip [of u v] compare_eq [of u v] compare_eq [of v u] by (auto simp: ab internal_compare)
next
  fix a b c :: bytes assume "8 \<le> length a" "8 \<le> length b" "8 \<le> length c"
    and less: "Compare (InternalKeyComparator U) a b < 0" "Compare (InternalKeyComparator U) b c < 0"
  then obtain u s v t w x where abc: "a = with_tag u s" "b = with_tag v t" "c = with_tag w x" by (metis with_tag_cases)
  show "Compare (InternalKeyComparator U) a c < 0"
    using less compare_trans [of u v w] compare_eq [of u v] compare_eq [of v w] compare_eq [of u w]
    by (auto simp: abc internal_compare split: if_splits)
next
  fix a b :: bytes assume "8 \<le> length a" "8 \<le> length b" and less: "Compare (InternalKeyComparator U) a b < 0"
  then obtain u s v t where ab: "a = with_tag u s" "b = with_tag v t" by (metis with_tag_cases)
  let ?x = "FindShortestSeparator (InternalKeyComparator U) a b" and ?t = "FindShortestSeparator U u v"
  show "8 \<le> length ?x \<and> Compare (InternalKeyComparator U) a ?x \<le> 0 \<and> Compare (InternalKeyComparator U) ?x b < 0"
  proof (cases "length ?t < length u \<and> Compare U u ?t < 0")
    case True
    then have "u \<noteq> v" using separator_self [of u] by blast
    then have "Compare U u v < 0"
      using less compare_eq [of u v] by (auto simp: ab internal_compare split: if_splits)
    then have "Compare U ?t v < 0" using separator by simp
    then show ?thesis using True by (auto simp: ab internal_separator internal_compare Let_def)
  next
    case False
    then have "?x = a" by (auto simp: ab internal_separator Let_def)
    then show ?thesis using less compare_refl [of u] by (simp add: ab internal_compare)
  qed
next
  fix k :: bytes assume "8 \<le> length k"
  then obtain u s where k: "k = with_tag u s" by (metis with_tag_cases)
  let ?t = "FindShortSuccessor U u"
  have "Compare (InternalKeyComparator U) k k = 0"
    using compare_refl [of u] by (simp add: k internal_compare)
  moreover have "Compare (InternalKeyComparator U) k (with_tag ?t seek_max) \<le> 0" if "Compare U u ?t < 0"
    using that by (simp add: k internal_compare)
  ultimately show "8 \<le> length (FindShortSuccessor (InternalKeyComparator U) k) \<and>
      Compare (InternalKeyComparator U) k (FindShortSuccessor (InternalKeyComparator U) k) \<le> 0"
    by (simp add: k internal_successor Let_def)
qed

end


interpretation user_bytewise: user_comparator BytewiseComparator
proof
  have "bytewise_separator u u = u" for u
  proof -
    have "diff_index u u = length u" by (induction u) simp_all
    then show ?thesis by (simp add: bytewise_separator_def Let_def)
  qed
  then show "length (FindShortestSeparator BytewiseComparator u u) < length u \<Longrightarrow>
      \<not> Compare BytewiseComparator u (FindShortestSeparator BytewiseComparator u u) < 0" for u
    by simp
qed

interpretation internal: comparator_laws "InternalKeyComparator BytewiseComparator" "\<lambda>k. 8 \<le> length k"
  by (rule user_bytewise.internal_laws)

section \<open>Packed tags\<close>

lemma kMax: "unat kMaxSequenceNumber = 2 ^ 56 - 1" "s \<le> kMaxSequenceNumber \<longleftrightarrow> unat s < 2 ^ 56"
proof -
  have k: "kMaxSequenceNumber = 72057594037927935" by (simp add: kMaxSequenceNumber_def)
  show "unat kMaxSequenceNumber = 2 ^ 56 - 1" unfolding k by simp
  then show "s \<le> kMaxSequenceNumber \<longleftrightarrow> unat s < 2 ^ 56" by (auto simp: word_le_nat_alt)
qed

lemma type_byte_less: "unat (type_byte t) < 2"
  by (cases t) simp_all

lemma Pack_unat:
  assumes "s \<le> kMaxSequenceNumber"
  shows "unat (PackSequenceAndType s t) = unat s * 256 + unat (type_byte t)"
proof -
  have disj: "push_bit 8 s AND ucast (type_byte t) = (0 :: u64)"
    by (rule bit_word_eqI) (auto simp: bit_simps dest: bit_imp_le_length)
  have "PackSequenceAndType s t = push_bit 8 s + ucast (type_byte t)"
    using disjunctive_add_eq_or [OF disj] by (simp add: PackSequenceAndType_def)
  moreover have "push_bit 8 s = of_nat (unat s * 256)"
    by (simp add: push_bit_eq_mult)
  moreover have "(ucast (type_byte t) :: u64) = of_nat (unat (type_byte t))" by (cases t) simp_all
  ultimately have p: "PackSequenceAndType s t = of_nat (unat s * 256 + unat (type_byte t))"
    by (simp only: of_nat_add)
  have "unat s < 2 ^ 56" using assms kMax(2) by blast
  then have "unat s < 72057594037927936" by simp
  then have "unat s * 256 + unat (type_byte t) < 18446744073709551616" using type_byte_less [of t] by linarith
  then have "unat s * 256 + unat (type_byte t) < 2 ^ 64" by simp
  then show ?thesis unfolding p by (rule unat_of_nat_u64)
qed

lemma Pack_drop: "s \<le> kMaxSequenceNumber \<Longrightarrow> drop_bit 8 (PackSequenceAndType s t) = s"
proof -
  assume s: "s \<le> kMaxSequenceNumber"
  have "unat (drop_bit 8 (PackSequenceAndType s t)) = unat (PackSequenceAndType s t) div 256"
    by (simp only: unat_drop_bit_eq) (simp add: drop_bit_eq_div)
  also have "\<dots> = unat s" using type_byte_less [of t] by (simp add: Pack_unat [OF s])
  finally show ?thesis by (simp only: word_unat_eq_iff)
qed

lemma Pack_type: "(ucast (PackSequenceAndType s t AND 0xff) :: byte) = type_byte t"
  by (simp add: word_byte_simps) (auto intro!: bit_word_eqI simp: PackSequenceAndType_def bit_simps)

lemma AppendInternalKey_tag:
  "AppendInternalKey r k = r @ with_tag (user_key k) (PackSequenceAndType (seqno k) (key_type k))"
  by (simp add: AppendInternalKey_def PutFixed64_def with_tag_def)


text \<open>The internal key of a user key, a sequence number and a type.\<close>

definition ikey :: "bytes \<Rightarrow> u64 \<Rightarrow> value_type \<Rightarrow> bytes" where
  "ikey u s t = AppendInternalKey [] \<lparr>user_key = u, seqno = s, key_type = t\<rparr>"

lemma ikey_tag: "ikey u s t = with_tag u (PackSequenceAndType s t)"
  by (simp add: ikey_def AppendInternalKey_tag)

lemma ikey_length [simp]: "length (ikey u s t) = length u + 8"
  by (simp add: ikey_tag)

lemma Pack_less:
  assumes "s \<le> kMaxSequenceNumber" "s' \<le> kMaxSequenceNumber"
  shows "PackSequenceAndType s t < PackSequenceAndType s' t' \<longleftrightarrow>
    s < s' \<or> s = s' \<and> type_byte t < type_byte t'"
  using type_byte_less [of t] type_byte_less [of t']
  by (auto simp: word_less_nat_alt Pack_unat [OF assms(1)] Pack_unat [OF assms(2)] word_unat_eq_iff)

lemma ikey_compare:
  assumes "s \<le> kMaxSequenceNumber" "s' \<le> kMaxSequenceNumber"
  shows "Compare (InternalKeyComparator BytewiseComparator) (ikey u s t) (ikey v s' t') < 0 \<longleftrightarrow>
    u < v \<or> u = v \<and> (s' < s \<or> s = s' \<and> type_byte t' < type_byte t)"
  using Pack_less [OF assms(2,1), of t' t] by (auto simp: ikey_tag internal_compare)

lemma ParseInternalKey_ikey [codec_simps]:
  assumes "s \<le> kMaxSequenceNumber"
  shows "ParseInternalKey (ikey u s t) = Some \<lparr>user_key = u, seqno = s, key_type = t\<rparr>"
proof -
  let ?n = "PackSequenceAndType s t"
  have d: "DecodeFixed64 kLittleEndian (EncodeFixed64 kLittleEndian ?n) = Inr ?n"
    using DecodeFixed64_Encode [of _ _ ?n "[]"] by simp
  show ?thesis
    using Pack_drop [OF assms, of t] Pack_type [of s t]
    by (simp add: ParseInternalKey_def ikey_tag with_tag_def d Let_def) (cases t; simp)
qed

section \<open>Properties\<close>

text \<open>
  C35. Internal keys are parsed back: for every sequence number of at most 56 bits, parsing the
  appended key gives the user key, the sequence number and the type; a tag with another type
  byte is rejected.
\<close>

theorem internal_key_roundtrip:
  assumes "seqno k \<le> kMaxSequenceNumber"
  shows "ParseInternalKey (AppendInternalKey [] k) = Some k \<and>
    ExtractUserKey (AppendInternalKey [] k) = Inr (user_key k) \<and>
    ExtractValueType (AppendInternalKey [] k) = Inr (type_byte (key_type k)) \<and>
    length (AppendInternalKey [] k) = InternalKeyEncodingLength k"
proof -
  have "AppendInternalKey [] k = ikey (user_key k) (seqno k) (key_type k)" by (cases k) (simp add: ikey_def)
  then show ?thesis
    using ParseInternalKey_ikey [OF assms, of "user_key k" "key_type k"] Pack_type
    by (simp add: ikey_tag ExtractValueType_def InternalKeyEncodingLength_def)
qed

theorem internal_key_roundtrip_witness:
  "ParseInternalKey (AppendInternalKey [] \<lparr>user_key = [104, 105], seqno = 7, key_type = kTypeDeletion\<rparr>) =
     Some \<lparr>user_key = [104, 105], seqno = 7, key_type = kTypeDeletion\<rparr>"
  using internal_key_roundtrip [of "\<lparr>user_key = [104, 105], seqno = 7, key_type = kTypeDeletion\<rparr>"]
  by (simp add: kMaxSequenceNumber_def)

text \<open>
  C11. The order of internal keys: increasing user keys, then decreasing sequence numbers, then
  decreasing types; and separators and successors of internal keys keep the contract of
  comparator.h for the order.
\<close>

theorem internal_key_order:
  assumes "s \<le> kMaxSequenceNumber" and "s' \<le> kMaxSequenceNumber"
    and "C = InternalKeyComparator BytewiseComparator"
  shows "(Compare C (ikey u s t) (ikey v s' t') < 0 \<longleftrightarrow>
      u < v \<or> u = v \<and> (s' < s \<or> s = s' \<and> type_byte t' < type_byte t)) \<and>
    (Compare C (ikey u s t) (ikey v s' t') < 0 \<longrightarrow>
      Compare C (ikey u s t) (FindShortestSeparator C (ikey u s t) (ikey v s' t')) \<le> 0 \<and>
      Compare C (FindShortestSeparator C (ikey u s t) (ikey v s' t')) (ikey v s' t') < 0) \<and>
    Compare C (ikey u s t) (FindShortSuccessor C (ikey u s t)) \<le> 0"
  using ikey_compare [OF assms(1,2)] internal.separator [of "ikey u s t" "ikey v s' t'"]
    internal.successor [of "ikey u s t"] assms(3)
  by simp

theorem internal_key_order_witness:
  "Compare (InternalKeyComparator BytewiseComparator) (ikey [5] 9 kTypeValue) (ikey [5] 8 kTypeValue) < 0 \<and>
   \<not> Compare (InternalKeyComparator BytewiseComparator) (ikey [5] 9 kTypeDeletion) (ikey [5] 9 kTypeValue) < 0"
  using internal_key_order [OF _ _ refl, of 9 8 "[5]" kTypeValue "[5]" kTypeValue]
    internal_key_order [OF _ _ refl, of 9 9 "[5]" kTypeDeletion "[5]" kTypeValue]
  by (simp add: kMaxSequenceNumber_def)

lemma lookup_varint_length: "n < 2 ^ 32 \<Longrightarrow> length (EncodeVarint32 (of_nat n)) \<le> 5"
  using varint_length_bound [of 5 n] by (simp add: EncodeVarint32_varint unat_of_nat_u32)

lemma LookupKey_new_eq:
  fixes u :: bytes
  defines "v \<equiv> EncodeVarint32 (of_nat (length u + 8))"
  assumes "length u + 8 < 2 ^ 32"
  shows "\<exists>z. LookupKey_new u s = Inr \<lparr>lk_space = v @ ikey u s kValueTypeForSeek @ z, lk_kstart = length v,
      lk_end = length v + length u + 8\<rparr>"
proof -
  have "length v \<le> 5" unfolding v_def by (rule lookup_varint_length) (rule assms)
  then show ?thesis
    unfolding LookupKey_new_def Let_def v_def [symmetric] by (auto simp: ikey_tag with_tag_def)
qed

lemma seek_bound:
  assumes "s \<le> kMaxSequenceNumber" and "s' \<le> kMaxSequenceNumber"
  shows "Compare (InternalKeyComparator BytewiseComparator) (ikey u s kValueTypeForSeek) (ikey u s' t) \<le> 0 \<longleftrightarrow> s' \<le> s"
proof -
  let ?C = "InternalKeyComparator BytewiseComparator" and ?i = "ikey u s kValueTypeForSeek"
  have "\<not> type_byte kValueTypeForSeek < type_byte t" by (cases t) (simp_all add: kValueTypeForSeek_def)
  then have "Compare ?C (ikey u s' t) ?i < 0 \<longleftrightarrow> s < s'"
    by (simp add: ikey_compare [OF assms(2,1)])
  then show ?thesis
    using internal.compare_not_less [of "ikey u s' t" ?i] by (metis ikey_length le_add2 not_less)
qed

text \<open>
  C14. A lookup key fits its buffer, and its internal key is a lower bound of what it must find:
  for a snapshot \<open>s\<close>, it sorts at or before every version of the user key with a sequence number
  of at most \<open>s\<close> and after every later version.
\<close>

theorem lookup_key_bound:
  assumes "s \<le> kMaxSequenceNumber" and "s' \<le> kMaxSequenceNumber" and "length u + 8 < 2 ^ 32"
    and "C = InternalKeyComparator BytewiseComparator"
  shows "\<exists>k. LookupKey_new u s = Inr k \<and> lookup_user_key k = u \<and> internal_key k = ikey u s kValueTypeForSeek \<and>
    GetLengthPrefixedSlice (memtable_key k) = Some (internal_key k, []) \<and>
    (Compare C (internal_key k) (ikey u s' t) \<le> 0 \<longleftrightarrow> s' \<le> s)"
proof -
  let ?v = "EncodeVarint32 (of_nat (length u + 8))" and ?i = "ikey u s kValueTypeForSeek"
  obtain z k where new: "LookupKey_new u s = Inr k"
    and k: "k = \<lparr>lk_space = ?v @ ?i @ z, lk_kstart = length ?v, lk_end = length ?v + length u + 8\<rparr>"
    using LookupKey_new_eq [OF assms(3), of s] by blast
  have "memtable_key k = PutLengthPrefixedSlice [] ?i"
    unfolding k memtable_key_def PutLengthPrefixedSlice_def PutVarint32_def by simp
  then have m: "GetLengthPrefixedSlice (memtable_key k) = Some (?i, [])"
    using prefixed.dec_enc_nil [of ?i] assms(3) by simp
  have i: "internal_key k = ?i" "lookup_user_key k = u"
    unfolding k internal_key_def lookup_user_key_def by (simp_all add: ikey_tag with_tag_def)
  show ?thesis
    by (rule exI [of _ k]) (use i new m seek_bound [OF assms(1,2)] assms(4) in simp)
qed

theorem lookup_key_bound_witness:
  "\<exists>k. LookupKey_new [65] 10 = Inr k \<and> lookup_user_key k = [65] \<and>
     Compare (InternalKeyComparator BytewiseComparator) (internal_key k) (ikey [65] 10 kTypeDeletion) \<le> 0"
  using lookup_key_bound [OF _ _ _ refl, of 10 10 "[65]" kTypeDeletion] by (auto simp: kMaxSequenceNumber_def)

end
