(* ===== verification/Ldb_Status.thy ===== *)
theory Ldb_Status
  imports Ldb_Coding
begin

text \<open>
  Results of operations: db/leveldb/include/leveldb/status.h and util/status.cc. A status is the
  pointer \<open>state_\<close>: \<open>None\<close> for success, otherwise the bytes it points to, which hold the length of
  the message, the code and the message.
\<close>

section \<open>Text\<close>

definition str :: "string \<Rightarrow> bytes" where "str s = map of_char s"

text \<open>What \<open>%d\<close> and \<open>%llu\<close> print.\<close>

fun decimal :: "nat \<Rightarrow> bytes" where
  "decimal n = (if n < 10 then [of_nat (48 + n)] else decimal (n div 10) @ [of_nat (48 + n mod 10)])"

declare decimal.simps [simp del]

definition decimal_int :: "int \<Rightarrow> bytes" where
  "decimal_int i = (if i < 0 then 45 # decimal (nat (- i)) else decimal (nat i))"

section \<open>Status\<close>

type_synonym status = "bytes option"

datatype status_code = kOk | kNotFound | kCorruption | kNotSupported | kInvalidArgument | kIOError

fun code_byte :: "status_code \<Rightarrow> byte" where
  "code_byte kOk = 0"
| "code_byte kNotFound = 1"
| "code_byte kCorruption = 2"
| "code_byte kNotSupported = 3"
| "code_byte kInvalidArgument = 4"
| "code_byte kIOError = 5"

text \<open>
  The constructor: lengths are 32 bits wide and \<open>new\<close> leaves the bytes it returns undefined, here
  \<open>junk\<close>.
\<close>

definition Status_new :: "byte \<Rightarrow> status_code \<Rightarrow> bytes \<Rightarrow> bytes \<Rightarrow> mem_error + status" where
  "Status_new junk code msg msg2 =
     (let len1 = of_nat (length msg) :: u32; len2 = of_nat (length msg2) :: u32;
          size = len1 + (if len2 \<noteq> 0 then 2 + len2 else 0)
      in bind_res (memcpy (replicate (unat (size + 5)) junk) 0 (host_bytes kLittleEndian 4 size) 0 4) (\<lambda>r1.
         bind_res (memcpy r1 4 [code_byte code] 0 1) (\<lambda>r2.
         bind_res (memcpy r2 5 msg 0 (unat len1)) (\<lambda>r3.
         if len2 \<noteq> 0 then
           bind_res (memcpy r3 (unat (5 + len1)) (str '': '') 0 2) (\<lambda>r4.
           bind_res (memcpy r4 (unat (7 + len1)) msg2 0 (unat len2)) (\<lambda>r5. Inr (Some r5)))
         else Inr (Some r3)))))"

definition CopyState :: "bytes \<Rightarrow> mem_error + bytes" where
  "CopyState state =
     (if length state < 4 then Inl OutOfBounds
      else
        (let size = host_word kLittleEndian (take 4 state) :: u32
         in memcpy (replicate (unat (size + 5)) 0) 0 state 0 (unat (size + 5))))"

definition status_ok :: "status \<Rightarrow> bool" where "status_ok s \<longleftrightarrow> s = None"

definition status_code_byte :: "status \<Rightarrow> byte" where
  "status_code_byte s = (case s of None \<Rightarrow> 0 | Some state \<Rightarrow> state ! 4)"

definition IsNotFound :: "status \<Rightarrow> bool" where "IsNotFound s \<longleftrightarrow> status_code_byte s = code_byte kNotFound"
definition IsCorruption :: "status \<Rightarrow> bool" where "IsCorruption s \<longleftrightarrow> status_code_byte s = code_byte kCorruption"
definition IsIOError :: "status \<Rightarrow> bool" where "IsIOError s \<longleftrightarrow> status_code_byte s = code_byte kIOError"
definition IsNotSupportedError :: "status \<Rightarrow> bool" where
  "IsNotSupportedError s \<longleftrightarrow> status_code_byte s = code_byte kNotSupported"
definition IsInvalidArgument :: "status \<Rightarrow> bool" where
  "IsInvalidArgument s \<longleftrightarrow> status_code_byte s = code_byte kInvalidArgument"

definition status_type_name :: "byte \<Rightarrow> bytes" where
  "status_type_name c =
     (if c = 0 then str ''OK'' else if c = 1 then str ''NotFound: '' else if c = 2 then str ''Corruption: ''
      else if c = 3 then str ''Not implemented: '' else if c = 4 then str ''Invalid argument: ''
      else if c = 5 then str ''IO error: ''
      else str ''Unknown code('' @ decimal_int (sint c) @ str ''): '')"

definition status_ToString :: "status \<Rightarrow> bytes" where
  "status_ToString s =
     (case s of None \<Rightarrow> str ''OK''
      | Some state \<Rightarrow>
          status_type_name (status_code_byte s) @
          take (unat (host_word kLittleEndian (take 4 state) :: u32)) (drop 5 state))"

section \<open>The layout of an error\<close>

text \<open>
  The value that the constructor builds, for messages whose lengths fit in 32 bits. The components
  that return errors use it.
\<close>

definition status_text :: "bytes \<Rightarrow> bytes \<Rightarrow> bytes" where
  "status_text msg msg2 = msg @ (if msg2 = [] then [] else str '': '' @ msg2)"

definition status_error :: "status_code \<Rightarrow> bytes \<Rightarrow> bytes \<Rightarrow> status" where
  "status_error code msg msg2 =
     Some (host_bytes kLittleEndian 4 (of_nat (length (status_text msg msg2)) :: u32) @ [code_byte code] @
           status_text msg msg2)"

abbreviation "OK \<equiv> None :: status"
abbreviation "NotFound \<equiv> status_error kNotFound"
abbreviation "Corruption \<equiv> status_error kCorruption"
abbreviation "NotSupported \<equiv> status_error kNotSupported"
abbreviation "InvalidArgument \<equiv> status_error kInvalidArgument"
abbreviation "IOError \<equiv> status_error kIOError"

lemma status_ok_simps [simp]: "status_ok None" "\<not> status_ok (status_error c m m2)"
  by (simp_all add: status_ok_def status_error_def)

lemma str_length [simp]: "length (str s) = length s"
  by (simp add: str_def)

lemma status_error_ne [simp]: "status_error c m m2 \<noteq> None" "None \<noteq> status_error c m m2"
  by (simp_all add: status_error_def)

lemma status_code_error [simp]: "status_code_byte (status_error code msg msg2) = code_byte code"
  by (simp add: status_code_byte_def status_error_def nth_append)

lemma code_byte_inject [simp]: "code_byte a = code_byte b \<longleftrightarrow> a = b"
  by (cases a; cases b) simp_all

lemma status_text_length:
  "length (status_text msg msg2) = length msg + (if msg2 = [] then 0 else 2 + length msg2)"
  by (simp add: status_text_def)

lemma memcpy_fill:
  "length src = n \<Longrightarrow> n \<le> k \<Longrightarrow> d = length pre \<Longrightarrow>
   memcpy (pre @ replicate k j) d src 0 n = Inr ((pre @ src) @ replicate (k - n) j)"
  by (simp add: memcpy_def)

lemma Status_new_layout:
  assumes "length msg + length msg2 + 7 < 2 ^ 32"
  shows "Status_new junk code msg msg2 = Inr (status_error code msg msg2)"
proof -
  let ?l1 = "of_nat (length msg) :: u32" and ?l2 = "of_nat (length msg2) :: u32"
  let ?t = "length (status_text msg msg2)"
  have u: "unat ?l1 = length msg" "unat ?l2 = length msg2" using assms by (simp_all add: unat_of_nat_u32)
  have z: "?l2 = 0 \<longleftrightarrow> msg2 = []" using u(2) by (metis length_0_conv unat_eq_zero)
  have sz: "?l1 + (if ?l2 \<noteq> 0 then 2 + ?l2 else 0) = of_nat ?t"
    by (simp add: z status_text_length)
  have "?t + 5 < 2 ^ 32" using assms by (simp add: status_text_length)
  then have "unat (of_nat (?t + 5) :: u32) = ?t + 5" by (rule unat_of_nat_u32)
  then have t5: "unat (of_nat ?t + 5 :: u32) = ?t + 5" by simp
  have "unat (of_nat (5 + length msg) :: u32) = 5 + length msg" "unat (of_nat (7 + length msg) :: u32) = 7 + length msg"
    by (rule unat_of_nat_u32, use assms in simp)+
  then have off: "unat (5 + ?l1) = 5 + length msg" "unat (7 + ?l1) = 7 + length msg" by simp_all
  have first: "memcpy (replicate k junk) 0 x 0 4 = Inr (x @ replicate (k - 4) junk)" if "length x = 4" "4 \<le> k" for k and x :: bytes
    using memcpy_fill [of x 4 k 0 "[]" junk] that by simp
  define H where "H = host_bytes kLittleEndian 4 (of_nat ?t :: u32)"
  have H: "length H = 4" "status_error code msg msg2 = Some (H @ [code_byte code] @ status_text msg msg2)"
    by (simp_all add: H_def status_error_def)
  show ?thesis
    unfolding Status_new_def Let_def sz t5 u off H(2) H_def [symmetric]
    unfolding z status_text_length
    by (cases "msg2 = []") (simp_all add: first memcpy_fill H(1) status_text_def del: append_assoc replicate_Suc)
qed

lemma status_error_length:
  "length (status_text msg msg2) < 2 ^ 32 \<Longrightarrow>
   (host_word kLittleEndian (take 4 (the (status_error code msg msg2))) :: u32) = of_nat (length (status_text msg msg2))"
  by (simp add: status_error_def host_word_bytes)

text \<open>
  Status values: the constructor fills exactly the bytes it allocates, the copy is the same bytes,
  the code is read back, and the printed text is the name of the code and the message.
\<close>

lemma status_layout:
  assumes "length msg + length msg2 + 7 < 2 ^ 32"
  shows "Status_new junk code msg msg2 = Inr (status_error code msg msg2)"
    and "CopyState (the (status_error code msg msg2)) = Inr (the (status_error code msg msg2))"
    and "status_code_byte (status_error code msg msg2) = code_byte code"
    and "status_ToString (status_error code msg msg2) = status_type_name (code_byte code) @ status_text msg msg2"
proof -
  let ?t = "length (status_text msg msg2)"
  have t: "?t < 2 ^ 32" "?t + 5 < 2 ^ 32" using assms by (simp_all add: status_text_length)
  have u: "unat (of_nat ?t :: u32) = ?t" "unat (of_nat ?t + 5 :: u32) = ?t + 5"
    using unat_of_nat_u32 [OF t(1)] unat_of_nat_u32 [OF t(2)] by simp_all
  note len = status_error_length [OF t(1), of code]
  define H where "H = host_bytes kLittleEndian 4 (of_nat ?t :: u32)"
  have H: "length H = 4" "status_error code msg msg2 = Some (H @ [code_byte code] @ status_text msg msg2)"
    by (simp_all add: H_def status_error_def)
  show "CopyState (the (status_error code msg msg2)) = Inr (the (status_error code msg msg2))"
    unfolding CopyState_def Let_def len u(2) using H by (simp add: memcpy_def)
  have "the (status_error code msg msg2) = H @ [code_byte code] @ status_text msg msg2" by (simp add: H(2))
  then show "status_ToString (status_error code msg msg2) = status_type_name (code_byte code) @ status_text msg msg2"
    using len u(1) H by (simp add: status_ToString_def status_code_byte_def nth_append)
qed (simp_all add: Status_new_layout [OF assms])

end
