(* ===== verification/Ldb_Memtable.thy ===== *)
theory Ldb_Memtable
  imports Ldb_Skiplist_Insert Ldb_Dbformat Ldb_Status
begin

text \<open>
  The table in memory of db/leveldb/db/memtable.h and memtable.cc: a skip list of entries. The key of
  a node points to an entry in the arena that is written once, before it is inserted, and is that
  entry here.
\<close>

section \<open>Entries\<close>

text \<open>
  A length-prefixed string at a pointer, with what follows it. The varint reader stops after five
  bytes by itself, so that the limit \<open>p + 5\<close> has no effect; it returns a null pointer when they are not
  a varint.
\<close>

definition mem_prefixed :: "bytes \<Rightarrow> mem_error + bytes \<times> bytes" where
  "mem_prefixed data =
     (case GetVarint32Ptr data of
        None \<Rightarrow> Inl (if length data < 5 then OutOfBounds else NullDeref)
      | Some (len, p) \<Rightarrow> if unat len \<le> length p then Inr (take (unat len) p, drop (unat len) p) else Inl OutOfBounds)"

text \<open>The comparison of the skip list; entries in it always start with an internal key.\<close>

definition mem_compare :: "comparator \<Rightarrow> bytes \<Rightarrow> bytes \<Rightarrow> int" where
  "mem_compare user aptr bptr =
     (case mem_prefixed aptr of Inl _ \<Rightarrow> 0 | Inr (a, _) \<Rightarrow>
        (case mem_prefixed bptr of Inl _ \<Rightarrow> 0 | Inr (b, _) \<Rightarrow> Compare (InternalKeyComparator user) a b))"

definition EncodeKey :: "bytes \<Rightarrow> bytes" where
  "EncodeKey target = PutVarint32 [] (of_nat (length target)) @ target"

section \<open>The table\<close>

record memtable =
  mt_comparator :: comparator
  mt_refs :: int
  mt_table :: "bytes skiplist"

definition MemTable_new :: "comparator \<Rightarrow> mem_error + memtable" where
  "MemTable_new cmp = bind_res (SkipList_new [] Arena_new) (\<lambda>sl.
     Inr \<lparr>mt_comparator = cmp, mt_refs = 0, mt_table = sl\<rparr>)"

definition mt_Ref :: "memtable \<Rightarrow> memtable" where "mt_Ref mt = mt\<lparr>mt_refs := mt_refs mt + 1\<rparr>"

text \<open>\<open>None\<close> when the table is deleted.\<close>

definition mt_Unref :: "memtable \<Rightarrow> mem_error + memtable option" where
  "mt_Unref mt =
     (let refs = mt_refs mt - 1 in
      if refs < 0 then Inl AssertionFails
      else if refs \<le> 0 then Inr None else Inr (Some (mt\<lparr>mt_refs := refs\<rparr>)))"

definition ApproximateMemoryUsage :: "memtable \<Rightarrow> nat" where
  "ApproximateMemoryUsage mt = MemoryUsage (sl_arena (mt_table mt))"

definition mt_Add :: "u64 \<Rightarrow> value_type \<Rightarrow> bytes \<Rightarrow> bytes \<Rightarrow> memtable \<Rightarrow> (mem_error + memtable) option" where
  "mt_Add s type key val mt =
     (let key_size = length key; val_size = length val; internal_key_size = key_size + 8;
          encoded_len = VarintLength (of_nat internal_key_size) + internal_key_size + VarintLength (of_nat val_size) + val_size;
          buf = EncodeVarint32 (of_nat internal_key_size) @ key @
            EncodeFixed64 kLittleEndian (push_bit 8 s OR ucast (type_byte type)) @ EncodeVarint32 (of_nat val_size) @ val
      in bind_run (Some (Allocate encoded_len (sl_arena (mt_table mt)))) (\<lambda>(p, arena).
         if encoded_len < length buf then Some (Inl OutOfBounds)
         else if length buf \<noteq> encoded_len then Some (Inl AssertionFails)
         else bind_run (Insert (mem_compare (mt_comparator mt)) buf ((mt_table mt)\<lparr>sl_arena := arena\<rparr>)) (\<lambda>table.
                Some (Inr (mt\<lparr>mt_table := table\<rparr>)))))"

datatype get_result = Found bytes | Deleted status | Absent

text \<open>What \<open>Get\<close> does with the entry that the seek finds.\<close>

definition get_entry :: "comparator \<Rightarrow> bytes \<Rightarrow> bytes \<Rightarrow> mem_error + get_result" where
  "get_entry user entry ukey =
     bind_res (mem_prefixed entry) (\<lambda>(ik, rest).
     bind_res (ExtractUserKey ik) (\<lambda>user_key.
       if Compare user user_key ukey = 0 then
         bind_res (extract_tag ik) (\<lambda>tag.
           if (ucast (tag AND 0xff) :: byte) = type_byte kTypeValue then bind_res (mem_prefixed rest) (\<lambda>(v, _). Inr (Found v))
           else if (ucast (tag AND 0xff) :: byte) = type_byte kTypeDeletion then Inr (Deleted (NotFound [] []))
           else Inr Absent)
       else Inr Absent))"

definition mt_Get :: "lookup_key \<Rightarrow> memtable \<Rightarrow> (mem_error + get_result) option" where
  "mt_Get key mt =
     bind_run (iter_Seek (mem_compare (mt_comparator mt)) (mt_table mt) (memtable_key key)) (\<lambda>iter.
       if iter_Valid iter then
         Some (bind_res (iter_key (mt_table mt) iter) (\<lambda>entry. get_entry (mt_comparator mt) entry (lookup_user_key key)))
       else Some (Inr Absent))"

section \<open>The iterator\<close>

definition mti_Seek :: "bytes \<Rightarrow> memtable \<Rightarrow> (mem_error + nat option) option" where
  "mti_Seek k mt = iter_Seek (mem_compare (mt_comparator mt)) (mt_table mt) (EncodeKey k)"

definition mti_SeekToFirst :: "memtable \<Rightarrow> mem_error + nat option" where "mti_SeekToFirst mt = iter_SeekToFirst (mt_table mt)"
definition mti_SeekToLast :: "memtable \<Rightarrow> (mem_error + nat option) option" where "mti_SeekToLast mt = iter_SeekToLast (mt_table mt)"
definition mti_Next :: "memtable \<Rightarrow> nat option \<Rightarrow> mem_error + nat option" where "mti_Next mt it = iter_Next (mt_table mt) it"
definition mti_Prev :: "memtable \<Rightarrow> nat option \<Rightarrow> (mem_error + nat option) option" where
  "mti_Prev mt it = iter_Prev (mem_compare (mt_comparator mt)) (mt_table mt) it"

definition mti_key :: "memtable \<Rightarrow> nat option \<Rightarrow> mem_error + bytes" where
  "mti_key mt it = bind_res (iter_key (mt_table mt) it) (\<lambda>e. bind_res (mem_prefixed e) (\<lambda>(k, _). Inr k))"

definition mti_value :: "memtable \<Rightarrow> nat option \<Rightarrow> mem_error + bytes" where
  "mti_value mt it = bind_res (iter_key (mt_table mt) it) (\<lambda>e. bind_res (mem_prefixed e) (\<lambda>(_, rest).
     bind_res (mem_prefixed rest) (\<lambda>(v, _). Inr v)))"

section \<open>Versions of keys\<close>

text \<open>An entry holds a user key, a sequence number, a type and a value.\<close>

record version =
  v_key :: bytes
  v_seq :: u64
  v_type :: value_type
  v_value :: bytes

definition version_ok :: "version \<Rightarrow> bool" where
  "version_ok x \<longleftrightarrow> v_seq x \<le> kMaxSequenceNumber \<and> length (v_key x) + 8 < 2 ^ 32 \<and> length (v_value x) < 2 ^ 32"

definition v_ikey :: "version \<Rightarrow> bytes" where "v_ikey x = ikey (v_key x) (v_seq x) (v_type x)"

definition entry :: "version \<Rightarrow> bytes" where
  "entry x = PutLengthPrefixedSlice [] (v_ikey x) @ PutLengthPrefixedSlice [] (v_value x)"

definition entry_ok :: "bytes \<Rightarrow> bool" where
  "entry_ok e \<longleftrightarrow> (\<exists>ik rest. mem_prefixed e = Inr (ik, rest) \<and> 8 \<le> length ik)"

lemma mem_prefixed_Put: "length x < 2 ^ 32 \<Longrightarrow> mem_prefixed (PutLengthPrefixedSlice [] x @ rest) = Inr (x, rest)"
  using GetLengthPrefixedSlice_Put [of x rest]
  by (auto simp: mem_prefixed_def GetLengthPrefixedSlice_def GetVarint32_def split: option.splits if_splits)

lemma v_ikey_simps [simp]: "length (v_ikey x) = length (v_key x) + 8"
    "ExtractUserKey (v_ikey x) = Inr (v_key x)" "extract_tag (v_ikey x) = Inr (PackSequenceAndType (v_seq x) (v_type x))"
  by (simp_all add: v_ikey_def ikey_tag)

lemma entry_parts:
  assumes "version_ok x"
  shows "mem_prefixed (entry x) = Inr (v_ikey x, PutLengthPrefixedSlice [] (v_value x))"
    and "mem_prefixed (PutLengthPrefixedSlice [] (v_value x)) = Inr (v_value x, [])" and "entry_ok (entry x)"
proof -
  show 1: "mem_prefixed (entry x) = Inr (v_ikey x, PutLengthPrefixedSlice [] (v_value x))"
    unfolding entry_def by (rule mem_prefixed_Put) (use assms in \<open>simp add: version_ok_def\<close>)
  show "mem_prefixed (PutLengthPrefixedSlice [] (v_value x)) = Inr (v_value x, [])"
    using mem_prefixed_Put [of "v_value x" "[]"] assms by (simp add: version_ok_def)
  show "entry_ok (entry x)" using 1 by (simp add: entry_ok_def)
qed

text \<open>The size that \<open>Add\<close> computes is the size of what it writes.\<close>

lemma entry_length:
  assumes "version_ok x"
  shows "length (entry x) = VarintLength (of_nat (length (v_key x) + 8)) + (length (v_key x) + 8) +
    VarintLength (of_nat (length (v_value x))) + length (v_value x)"
proof -
  have v: "VarintLength (of_nat n) = length (EncodeVarint32 (of_nat n))" if "n < 2 ^ 32" for n
    using that by (simp add: VarintLength_eq EncodeVarint64_varint EncodeVarint32_varint unat_of_nat_u32 unat_of_nat_u64)
  have "length (v_key x) + 8 < 2 ^ 32" "length (v_value x) < 2 ^ 32" using assms by (simp_all add: version_ok_def)
  then show ?thesis by (simp only: v) (simp add: entry_def PutLengthPrefixedSlice_def PutVarint32_def)
qed

lemma mt_Add_entry:
  "version_ok x \<Longrightarrow> mt_Add (v_seq x) (v_type x) (v_key x) (v_value x) mt =
     bind_run (Some (Allocate (length (entry x)) (sl_arena (mt_table mt)))) (\<lambda>(p, arena).
       bind_run (Insert (mem_compare (mt_comparator mt)) (entry x) ((mt_table mt)\<lparr>sl_arena := arena\<rparr>)) (\<lambda>table.
         Some (Inr (mt\<lparr>mt_table := table\<rparr>))))"
proof -
  assume ok: "version_ok x"
  have e: "entry x = EncodeVarint32 (of_nat (length (v_key x) + 8)) @ v_key x @
      EncodeFixed64 kLittleEndian (push_bit 8 (v_seq x) OR ucast (type_byte (v_type x))) @ EncodeVarint32 (of_nat (length (v_value x))) @ v_value x"
    by (simp add: entry_def PutLengthPrefixedSlice_def PutVarint32_def v_ikey_def ikey_tag with_tag_def PackSequenceAndType_def)
  show ?thesis
    unfolding mt_Add_def Let_def e [symmetric] entry_length [OF ok, symmetric] by simp
qed

lemma lookup_parts:
  assumes "length u + 8 < 2 ^ 32" "LookupKey_new u s = Inr k"
  shows "memtable_key k = PutLengthPrefixedSlice [] (ikey u s kValueTypeForSeek)" and "lookup_user_key k = u"
  using LookupKey_new_eq [OF assms(1), of s] assms(2)
  by (auto simp: memtable_key_def lookup_user_key_def PutLengthPrefixedSlice_def PutVarint32_def ikey_tag with_tag_def)

lemma node_Next_arena [simp]: "node_Next (sl\<lparr>sl_arena := a\<rparr>) x i = node_Next sl x i"
  by (simp add: node_Next_def)

lemma chain_arena [simp]: "chain (sl\<lparr>sl_arena := a\<rparr>) i x ys = chain sl i x ys"
  by (induction ys arbitrary: x) simp_all

lemma sl_keys_arena:
  assumes "sl_keys compare ok sl ks" "arena_ok a ps"
  shows "sl_keys compare ok (sl\<lparr>sl_arena := a\<rparr>) ks"
proof -
  obtain xs where "sl_rep compare ok sl xs" "ks = map (nkey sl) xs" using assms(1) by (auto simp: sl_keys_def)
  then show ?thesis using assms(2) unfolding sl_keys_def sl_rep_def sl_inv_def by (intro exI [of _ xs]) auto
qed

text \<open>A table that holds the versions \<open>vs\<close>, in the order of their internal keys.\<close>

definition mt_rep :: "comparator \<Rightarrow> memtable \<Rightarrow> version list \<Rightarrow> bool" where
  "mt_rep U mt vs \<longleftrightarrow> mt_comparator mt = U \<and> list_all version_ok vs \<and>
     sl_keys (mem_compare U) entry_ok (mt_table mt) (map entry vs)"

definition insert_version :: "comparator \<Rightarrow> version \<Rightarrow> version list \<Rightarrow> version list" where
  "insert_version U x vs =
     filter (\<lambda>y. Compare (InternalKeyComparator U) (v_ikey y) (v_ikey x) < 0) vs @ x #
     filter (\<lambda>y. \<not> Compare (InternalKeyComparator U) (v_ikey y) (v_ikey x) < 0) vs"

lemma insert_version_set [simp]: "set (insert_version U x vs) = insert x (set vs)"
  by (auto simp: insert_version_def)

fun add_all :: "version list \<Rightarrow> memtable \<Rightarrow> (mem_error + memtable) option" where
  "add_all [] mt = Some (Inr mt)"
| "add_all (x # xs) mt = bind_run (mt_Add (v_seq x) (v_type x) (v_key x) (v_value x) mt) (add_all xs)"

text \<open>What a read at a snapshot should give: the version with the largest sequence number that it can see.\<close>

definition visible :: "version list \<Rightarrow> bytes \<Rightarrow> u64 \<Rightarrow> version list" where
  "visible vs u s = filter (\<lambda>x. v_key x = u \<and> v_seq x \<le> s) vs"

definition newest :: "version list \<Rightarrow> bytes \<Rightarrow> u64 \<Rightarrow> version option" where
  "newest vs u s = find (\<lambda>x. list_all (\<lambda>y. v_seq y \<le> v_seq x) (visible vs u s)) (visible vs u s)"

definition answer :: "version option \<Rightarrow> get_result" where
  "answer r = (case r of None \<Rightarrow> Absent
     | Some x \<Rightarrow> (case v_type x of kTypeValue \<Rightarrow> Found (v_value x) | kTypeDeletion \<Rightarrow> Deleted (NotFound [] [])))"

lemma newest_eq:
  assumes "x \<in> set (visible vs u s)" "\<forall>y\<in>set (visible vs u s). v_seq y \<le> v_seq x" "distinct (map (\<lambda>x. (v_key x, v_seq x)) vs)"
  shows "newest vs u s = Some x"
proof -
  let ?P = "\<lambda>x. list_all (\<lambda>y. v_seq y \<le> v_seq x) (visible vs u s)"
  have "?P x" using assms(2) by (simp add: list_all_iff)
  then have "find ?P (visible vs u s) \<noteq> None" using assms(1) by (auto simp: find_None_iff)
  then obtain y where y: "find ?P (visible vs u s) = Some y" by blast
  then have "?P y" "y \<in> set (visible vs u s)" by (auto simp: find_Some_iff)
  then have "v_seq y = v_seq x" "v_key y = v_key x" "x \<in> set vs" "y \<in> set vs"
    using assms(1,2) by (auto simp: list_all_iff visible_def intro: order_antisym)
  then have "y = x" using assms(3) by (auto simp: distinct_map inj_on_def)
  then show ?thesis using y by (simp add: newest_def)
qed

lemma newest_None: "visible vs u s = [] \<Longrightarrow> newest vs u s = None"
  by (simp add: newest_def)

context user_comparator
begin

lemma mem_compare_ik:
  "mem_prefixed a = Inr (x, r) \<Longrightarrow> mem_prefixed b = Inr (y, q) \<Longrightarrow> mem_compare U a b = Compare (InternalKeyComparator U) x y"
  by (simp add: mem_compare_def)

lemma mem_key_order: "key_order (mem_compare U) entry_ok"
proof
  note laws = internal_laws
  fix a b c assume "entry_ok a" "entry_ok b"
  then obtain x y r q where xy: "mem_prefixed a = Inr (x, r)" "8 \<le> length x" "mem_prefixed b = Inr (y, q)" "8 \<le> length y"
    by (auto simp: entry_ok_def)
  show "mem_compare U a b < 0 \<longleftrightarrow> 0 < mem_compare U b a"
    unfolding mem_compare_ik [OF xy(1,3)] mem_compare_ik [OF xy(3,1)] by (rule comparator_laws.compare_flip [OF laws xy(2,4)])
  assume "entry_ok c" and le: "mem_compare U a b \<le> 0" "mem_compare U b c \<le> 0"
  then obtain z p where z: "mem_prefixed c = Inr (z, p)" "8 \<le> length z" by (auto simp: entry_ok_def)
  show "mem_compare U a c \<le> 0"
    using le unfolding mem_compare_ik [OF xy(1,3)] mem_compare_ik [OF xy(3) z(1)] mem_compare_ik [OF xy(1) z(1)]
    by (rule comparator_laws.compare_le_trans [OF laws xy(2,4) z(2)])
qed

lemma v_compare:
  assumes "v_seq x \<le> kMaxSequenceNumber" "v_seq y \<le> kMaxSequenceNumber"
  shows "Compare (InternalKeyComparator U) (v_ikey x) (v_ikey y) < 0 \<longleftrightarrow>
    Compare U (v_key x) (v_key y) < 0 \<or>
    v_key x = v_key y \<and> (v_seq y < v_seq x \<or> v_seq x = v_seq y \<and> type_byte (v_type y) < type_byte (v_type x))"
  using Pack_less [OF assms(2,1), of "v_type y" "v_type x"] compare_eq [of "v_key x" "v_key y"]
  by (auto simp: v_ikey_def ikey_tag internal_compare)

lemma v_compare_neq:
  assumes "v_seq x \<le> kMaxSequenceNumber" "v_seq y \<le> kMaxSequenceNumber" "(v_key x, v_seq x) \<noteq> (v_key y, v_seq y)"
  shows "Compare (InternalKeyComparator U) (v_ikey x) (v_ikey y) \<noteq> 0"
proof -
  have "v_ikey x \<noteq> v_ikey y"
    using assms Pack_drop [OF assms(1), of "v_type x"] Pack_drop [OF assms(2), of "v_type y"]
    by (auto simp: v_ikey_def ikey_tag)
  then show ?thesis using comparator_laws.compare_eq [OF internal_laws, of "v_ikey x" "v_ikey y"] by simp
qed

lemma Add_spec:
  assumes rep: "mt_rep U mt vs" and x: "version_ok x" and new: "\<forall>y\<in>set vs. (v_key x, v_seq x) \<noteq> (v_key y, v_seq y)"
  shows "\<exists>mt'. mt_Add (v_seq x) (v_type x) (v_key x) (v_value x) mt = Some (Inr mt') \<and> mt_rep U mt' (insert_version U x vs)"
proof -
  have U: "mt_comparator mt = U" and oks: "\<forall>y\<in>set vs. version_ok y" and ks: "sl_keys (mem_compare U) entry_ok (mt_table mt) (map entry vs)"
    using rep by (auto simp: mt_rep_def list_all_iff)
  obtain ps where "arena_ok (sl_arena (mt_table mt)) ps" using ks by (auto simp: sl_keys_def sl_rep_def sl_inv_def)
  moreover have "0 < length (entry x)" by (simp add: entry_def PutLengthPrefixedSlice_def)
  ultimately obtain p a where al: "Allocate (length (entry x)) (sl_arena (mt_table mt)) = Inr (p, a)" "arena_ok a (ps @ [(p, length (entry x))])"
    by (rule Allocate_ok)
  have cmp: "mem_compare U (entry y) (entry z) = Compare (InternalKeyComparator U) (v_ikey y) (v_ikey z)" if "version_ok y" "version_ok z" for y z
    by (rule mem_compare_ik [OF entry_parts(1) [OF that(1)] entry_parts(1) [OF that(2)]])
  have "\<forall>k'\<in>set (map entry vs). mem_compare U (entry x) k' \<noteq> 0"
    using cmp x oks new v_compare_neq [of x] by (auto simp: version_ok_def)
  then obtain sl where sl: "Insert (mem_compare U) (entry x) ((mt_table mt)\<lparr>sl_arena := a\<rparr>) = Some (Inr sl)"
      "sl_keys (mem_compare U) entry_ok sl (insert_key (mem_compare U) (entry x) (map entry vs))"
    using key_order.Insert_keys [OF mem_key_order sl_keys_arena [OF ks al(2)] entry_parts(3) [OF x]] by blast
  have "filter (\<lambda>y. mem_compare U (entry y) (entry x) < 0) vs = filter (\<lambda>y. Compare (InternalKeyComparator U) (v_ikey y) (v_ikey x) < 0) vs"
    "filter (\<lambda>y. \<not> mem_compare U (entry y) (entry x) < 0) vs = filter (\<lambda>y. \<not> Compare (InternalKeyComparator U) (v_ikey y) (v_ikey x) < 0) vs"
    using cmp x oks by (auto intro!: filter_cong)
  then have "insert_key (mem_compare U) (entry x) (map entry vs) = map entry (insert_version U x vs)"
    by (simp add: insert_key_def insert_version_def filter_map comp_def)
  then have "mt_rep U (mt\<lparr>mt_table := sl\<rparr>) (insert_version U x vs)"
    using sl(2) U oks x by (auto simp: mt_rep_def list_all_iff)
  then show ?thesis using sl(1) al(1) U by (simp add: mt_Add_entry [OF x])
qed

lemma add_all_spec:
  assumes "mt_rep U mt vs" "list_all version_ok hs" "distinct (map (\<lambda>x. (v_key x, v_seq x)) hs)"
    "\<forall>x\<in>set hs. \<forall>y\<in>set vs. (v_key x, v_seq x) \<noteq> (v_key y, v_seq y)"
  shows "\<exists>mt' vs'. add_all hs mt = Some (Inr mt') \<and> mt_rep U mt' vs' \<and> set vs' = set (vs @ hs)"
  using assms
proof (induction hs arbitrary: mt vs)
  case (Cons x hs)
  have x: "version_ok x" and new: "\<forall>y\<in>set vs. (v_key x, v_seq x) \<noteq> (v_key y, v_seq y)" using Cons.prems by auto
  obtain mt1 where 1: "mt_Add (v_seq x) (v_type x) (v_key x) (v_value x) mt = Some (Inr mt1)" "mt_rep U mt1 (insert_version U x vs)"
    using Add_spec [OF Cons.prems(1) x new] by blast
  have "\<forall>z\<in>set hs. \<forall>y\<in>set (insert_version U x vs). (v_key z, v_seq z) \<noteq> (v_key y, v_seq y)"
    using Cons.prems(3,4) by (force simp: image_iff)
  then obtain mt' vs' where "add_all hs mt1 = Some (Inr mt')" "mt_rep U mt' vs'" "set vs' = set (insert_version U x vs @ hs)"
    using Cons.IH [OF 1(2)] Cons.prems(2,3) by auto
  then show ?case using 1 by auto
qed auto

lemma rep_sorted:
  assumes "mt_rep U mt vs"
  shows "sorted_wrt (\<lambda>x y. Compare (InternalKeyComparator U) (v_ikey x) (v_ikey y) < 0) vs"
proof -
  obtain xs where xs: "sl_inv (mem_compare U) entry_ok (mt_table mt) xs (\<lambda>x. height (mt_table mt) x)" "map entry vs = map (nkey (mt_table mt)) xs"
    using assms by (auto simp: mt_rep_def sl_keys_def sl_rep_def)
  have "sorted_wrt (\<lambda>a b. mem_compare U a b < 0) (map (nkey (mt_table mt)) xs)" using xs(1) by (simp add: sl_inv_def sorted_wrt_map)
  then have "sorted_wrt (\<lambda>x y. mem_compare U (entry x) (entry y) < 0) vs" unfolding xs(2) [symmetric] sorted_wrt_map .
  moreover have "mem_compare U (entry x) (entry y) = Compare (InternalKeyComparator U) (v_ikey x) (v_ikey y)" if "x \<in> set vs" "y \<in> set vs" for x y
    using assms that mem_compare_ik [OF entry_parts(1) entry_parts(1)] by (auto simp: mt_rep_def list_all_iff)
  ultimately show ?thesis by (metis (no_types, lifting) sorted_wrt_mono_rel)
qed

text \<open>A seek finds the first entry that is not before its target.\<close>

lemma seek_index:
  assumes rep: "mt_rep U mt vs" and mk: "mem_prefixed k = Inr (ik, rest)" "8 \<le> length ik"
  obtains xs where "sl_rep (mem_compare U) entry_ok (mt_table mt) xs" "length xs = length vs"
    "\<forall>i<length vs. nkey (mt_table mt) (xs ! i) = entry (vs ! i)"
    "iter_Seek (mem_compare U) (mt_table mt) k =
       Some (Inr (at_index xs (length (takeWhile (\<lambda>y. Compare (InternalKeyComparator U) (v_ikey y) ik < 0) vs))))"
proof -
  have oks: "\<forall>y\<in>set vs. version_ok y" using rep by (auto simp: mt_rep_def list_all_iff)
  obtain xs where xs: "sl_rep (mem_compare U) entry_ok (mt_table mt) xs" "map entry vs = map (nkey (mt_table mt)) xs"
    using rep by (auto simp: mt_rep_def sl_keys_def)
  have k: "entry_ok k" using mk by (simp add: entry_ok_def)
  have cmp: "mem_compare U (entry y) k < 0 \<longleftrightarrow> Compare (InternalKeyComparator U) (v_ikey y) ik < 0" if "y \<in> set vs" for y
    using mem_compare_ik [OF entry_parts(1) mk(1)] oks that by simp
  have len: "length xs = length vs" using xs(2) by (metis length_map)
  moreover have "\<forall>i<length vs. nkey (mt_table mt) (xs ! i) = entry (vs ! i)" using xs(2) len by (metis nth_map)
  moreover have "length (takeWhile (\<lambda>x. mem_compare U (nkey (mt_table mt) x) k < 0) xs) =
      length (takeWhile (\<lambda>e. mem_compare U e k < 0) (map entry vs))"
    unfolding xs(2) takeWhile_map by (simp add: comp_def)
  then have "length (takeWhile (\<lambda>x. mem_compare U (nkey (mt_table mt) x) k < 0) xs) =
      length (takeWhile (\<lambda>y. Compare (InternalKeyComparator U) (v_ikey y) ik < 0) vs)"
    using cmp by (simp add: takeWhile_map comp_def cong: takeWhile_cong)
  then have "iter_Seek (mem_compare U) (mt_table mt) k =
       Some (Inr (at_index xs (length (takeWhile (\<lambda>y. Compare (InternalKeyComparator U) (v_ikey y) ik < 0) vs))))"
    using key_order.Seek_spec [OF mem_key_order xs(1) k] by simp
  ultimately show ?thesis using that xs(1) by blast
qed

lemma get_entry_answer:
  assumes "version_ok y"
  shows "get_entry U (entry y) u = Inr (if v_key y = u then answer (Some y) else Absent)"
  using entry_parts [OF assms] compare_eq [of "v_key y" u] Pack_type [of "v_seq y" "v_type y"]
  by (cases "v_type y") (auto simp: get_entry_def answer_def)

lemma Get_spec:
  assumes rep: "mt_rep U mt vs" and s: "s \<le> kMaxSequenceNumber" and u: "length u + 8 < 2 ^ 32" and k: "LookupKey_new u s = Inr k"
    and dist: "distinct (map (\<lambda>x. (v_key x, v_seq x)) hs)" and hs: "set hs = set vs"
  shows "mt_Get k mt = Some (Inr (answer (newest hs u s)))"
proof -
  have U: "mt_comparator mt = U" and oks: "\<forall>y\<in>set vs. version_ok y" using rep by (auto simp: mt_rep_def list_all_iff)
  define t where "t = \<lparr>v_key = u, v_seq = s, v_type = kValueTypeForSeek, v_value = []\<rparr>"
  have t: "v_key t = u" "v_seq t = s" "v_type t = kValueTypeForSeek" by (simp_all add: t_def)
  have mk: "mem_prefixed (memtable_key k) = Inr (v_ikey t, [])" and uk: "lookup_user_key k = u"
    using lookup_parts [OF u k] mem_prefixed_Put [of "v_ikey t" "[]"] u by (simp_all add: v_ikey_def t)
  let ?before = "\<lambda>y. Compare (InternalKeyComparator U) (v_ikey y) (v_ikey t) < 0"
  let ?j = "length (takeWhile ?before vs)"
  obtain xs where xs: "sl_rep (mem_compare U) entry_ok (mt_table mt) xs" "length xs = length vs"
      "\<forall>i<length vs. nkey (mt_table mt) (xs ! i) = entry (vs ! i)"
      "iter_Seek (mem_compare U) (mt_table mt) (memtable_key k) = Some (Inr (at_index xs ?j))"
    using seek_index [OF rep mk] by auto
  have get: "mt_Get k mt = Some (Inr (if ?j < length vs \<and> v_key (vs ! ?j) = u then answer (Some (vs ! ?j)) else Absent))"
    using key_order.iterator_spec(1) [OF mem_key_order xs(1), of ?j] xs oks get_entry_answer [of "vs ! ?j" u]
    by (auto simp: mt_Get_def U uk iter_Valid_def at_index_def)
  have bef: "?before y \<longleftrightarrow> Compare U (v_key y) u < 0 \<or> v_key y = u \<and> s < v_seq y" if "y \<in> set vs" for y
    using v_compare [of y t] oks that s by (cases "v_type y") (auto simp: t version_ok_def kValueTypeForSeek_def)
  have srt: "sorted_wrt (\<lambda>x y. Compare (InternalKeyComparator U) (v_ikey x) (v_ikey y) < 0) vs" by (rule rep_sorted [OF rep])
  have vis: "set (visible hs u s) = {y \<in> set vs. v_key y = u \<and> v_seq y \<le> s}" using hs by (auto simp: visible_def)
  have nb: "\<not> ?before (vs ! ?j)" if "?j < length vs" using that nth_length_takeWhile by blast
  show ?thesis
  proof (cases "visible hs u s = []")
    case True
    have "v_key (vs ! ?j) \<noteq> u" if "?j < length vs"
      using True vis nb that bef [of "vs ! ?j"] by (auto simp: not_less)
    then show ?thesis using True newest_None get by (auto simp: answer_def)
  next
    case False
    have later: "?j < length vs \<and> v_key (vs ! ?j) = u \<and> v_seq (vs ! ?j) \<le> s \<and> v_seq z \<le> v_seq (vs ! ?j)" if z: "z \<in> set (visible hs u s)" for z
    proof -
      have zv: "z \<in> set vs" "v_key z = u" "v_seq z \<le> s" using z vis by auto
      then obtain i where i: "i < length vs" "vs ! i = z" by (auto simp: in_set_conv_nth)
      have "\<not> ?before z" using bef [OF zv(1)] zv compare_eq [of u u] by auto
      have "?before (vs ! i)" if "i < ?j"
        using that set_takeWhileD [OF nth_mem [OF that]] takeWhile_nth [OF that] by simp
      then have le: "?j \<le> i" using \<open>\<not> ?before z\<close> i(2) not_le by blast
      then have y: "vs ! ?j \<in> set vs" "?j < length vs" using i by simp_all
      have "vs ! ?j = z \<or> Compare (InternalKeyComparator U) (v_ikey (vs ! ?j)) (v_ikey z) < 0"
        using le i srt by (cases "?j = i") (auto simp: sorted_wrt_iff_nth_less)
      then show ?thesis
        using v_compare [of "vs ! ?j" z] oks y zv nb [OF y(2)] bef [OF y(1)] by (auto simp: version_ok_def)
    qed
    then have j: "?j < length vs" "v_key (vs ! ?j) = u" "v_seq (vs ! ?j) \<le> s" using last_in_set [OF False] by blast+
    then have "vs ! ?j \<in> set (visible hs u s)" unfolding vis by simp
    then have "newest hs u s = Some (vs ! ?j)" using newest_eq [OF _ _ dist] later by blast
    then show ?thesis using get j by simp
  qed
qed

text \<open>The iterator walks over the versions in the order of their internal keys.\<close>

lemma mti_spec:
  assumes rep: "mt_rep U mt vs"
  obtains xs where "length xs = length vs" "mti_SeekToFirst mt = Inr (at_index xs 0)"
    "mti_SeekToLast mt = Some (Inr (at_index xs (length vs - 1)))"
    "\<forall>j<length vs. mti_key mt (at_index xs j) = Inr (v_ikey (vs ! j)) \<and> mti_value mt (at_index xs j) = Inr (v_value (vs ! j)) \<and>
       mti_Next mt (at_index xs j) = Inr (at_index xs (j + 1)) \<and>
       mti_Prev mt (at_index xs j) = Some (Inr (if j = 0 then None else at_index xs (j - 1)))"
    "\<forall>k. 8 \<le> length k \<and> length k < 2 ^ 32 \<longrightarrow> mti_Seek k mt =
       Some (Inr (at_index xs (length (takeWhile (\<lambda>y. Compare (InternalKeyComparator U) (v_ikey y) k < 0) vs))))"
proof -
  have U: "mt_comparator mt = U" and oks: "\<forall>y\<in>set vs. version_ok y" using rep by (auto simp: mt_rep_def list_all_iff)
  obtain xs where xs: "sl_rep (mem_compare U) entry_ok (mt_table mt) xs" "map entry vs = map (nkey (mt_table mt)) xs"
    using rep by (auto simp: mt_rep_def sl_keys_def)
  have len: "length xs = length vs" using xs(2) by (metis length_map)
  have nk: "nkey (mt_table mt) (xs ! i) = entry (vs ! i)" if "i < length vs" for i using xs(2) len that by (metis nth_map)
  note it = key_order.iterator_spec [OF mem_key_order xs(1)]
  have "mti_key mt (at_index xs j) = Inr (v_ikey (vs ! j)) \<and> mti_value mt (at_index xs j) = Inr (v_value (vs ! j)) \<and>
       mti_Next mt (at_index xs j) = Inr (at_index xs (j + 1)) \<and>
       mti_Prev mt (at_index xs j) = Some (Inr (if j = 0 then None else at_index xs (j - 1)))" if j: "j < length vs" for j
    using it(1-3) [of j] nk [OF j] j len entry_parts(1,2) [of "vs ! j"] oks
    by (simp add: mti_key_def mti_value_def mti_Next_def mti_Prev_def U)
  moreover have "mti_Seek k mt = Some (Inr (at_index xs (length (takeWhile (\<lambda>y. Compare (InternalKeyComparator U) (v_ikey y) k < 0) vs))))"
    if "8 \<le> length k" "length k < 2 ^ 32" for k
  proof -
    have "mem_prefixed (EncodeKey k) = Inr (k, [])"
      using mem_prefixed_Put [of k "[]"] that by (simp add: EncodeKey_def PutLengthPrefixedSlice_def)
    then have ek: "entry_ok (EncodeKey k)" "\<And>y. version_ok y \<Longrightarrow> mem_compare U (entry y) (EncodeKey k) = Compare (InternalKeyComparator U) (v_ikey y) k"
      using that mem_compare_ik entry_parts(1) by (auto simp: entry_ok_def)
    have "length (takeWhile (\<lambda>x. mem_compare U (nkey (mt_table mt) x) (EncodeKey k) < 0) xs) =
        length (takeWhile (\<lambda>e. mem_compare U e (EncodeKey k) < 0) (map entry vs))"
      unfolding xs(2) takeWhile_map by (simp add: comp_def)
    also have "\<dots> = length (takeWhile (\<lambda>y. Compare (InternalKeyComparator U) (v_ikey y) k < 0) vs)"
      using ek(2) oks by (simp add: takeWhile_map comp_def cong: takeWhile_cong)
    finally show ?thesis using key_order.Seek_spec [OF mem_key_order xs(1) ek(1)] by (simp add: mti_Seek_def U)
  qed
  ultimately show ?thesis
    using that [of xs] len it(4,5) by (simp add: mti_SeekToFirst_def mti_SeekToLast_def)
qed

end

interpretation mem_bytewise: key_order "mem_compare BytewiseComparator" entry_ok
  by (rule user_bytewise.mem_key_order)

section \<open>Properties\<close>

lemma MemTable_new_rep: "\<exists>mt. MemTable_new U = Inr mt \<and> mt_rep U mt []"
proof -
  have "arena_ok Arena_new []" by (simp add: arena_ok_def Arena_new_def)
  then obtain sl where "SkipList_new [] Arena_new = Inr sl" "sl_rep (mem_compare U) entry_ok sl []"
    using SkipList_new_spec [of Arena_new "[]" "[]" "mem_compare U" entry_ok] by auto
  then show ?thesis by (auto simp: MemTable_new_def mt_rep_def sl_keys_def)
qed

text \<open>
  C1. A read at a snapshot sees exactly the past: after any sequence of additions to a new table, with no
  two for the same user key and sequence number, \<open>Get\<close> with the lookup key of a user key and a snapshot
  gives the value of the version with the largest sequence number not above the snapshot, \<open>NotFound\<close>
  when that version is a deletion, and nothing when there is none. No operation fails.
\<close>

theorem memtable_snapshot_read:
  assumes "user_comparator U" "list_all version_ok hs" "distinct (map (\<lambda>x. (v_key x, v_seq x)) hs)"
  shows "\<exists>mt0 mt. MemTable_new U = Inr mt0 \<and> add_all hs mt0 = Some (Inr mt) \<and>
    (\<forall>u s. s \<le> kMaxSequenceNumber \<and> length u + 8 < 2 ^ 32 \<longrightarrow>
      (\<exists>k. LookupKey_new u s = Inr k \<and> mt_Get k mt = Some (Inr (answer (newest hs u s)))))"
proof -
  obtain mt0 where 0: "MemTable_new U = Inr mt0" "mt_rep U mt0 []" using MemTable_new_rep by blast
  obtain mt vs where 1: "add_all hs mt0 = Some (Inr mt)" "mt_rep U mt vs" "set vs = set hs"
    using user_comparator.add_all_spec [OF assms(1) 0(2) assms(2,3)] by auto
  have "\<exists>k. LookupKey_new u s = Inr k \<and> mt_Get k mt = Some (Inr (answer (newest hs u s)))"
    if "s \<le> kMaxSequenceNumber" "length u + 8 < 2 ^ 32" for u s
    using LookupKey_new_eq [OF that(2), of s] user_comparator.Get_spec [OF assms(1) 1(2) that _ assms(3) 1(3) [symmetric]] by blast
  then show ?thesis using 0(1) 1(1) by blast
qed

theorem memtable_snapshot_read_witness:
  "\<exists>mt0 mt. MemTable_new BytewiseComparator = Inr mt0 \<and>
     add_all [\<lparr>v_key = [97], v_seq = 1, v_type = kTypeValue, v_value = [120]\<rparr>,
              \<lparr>v_key = [97], v_seq = 2, v_type = kTypeDeletion, v_value = []\<rparr>] mt0 = Some (Inr mt) \<and>
     (\<exists>k. LookupKey_new [97] 1 = Inr k \<and> mt_Get k mt = Some (Inr (Found [120]))) \<and>
     (\<exists>k. LookupKey_new [97] 5 = Inr k \<and> mt_Get k mt = Some (Inr (Deleted (NotFound [] []))))"
proof -
  let ?hs = "[\<lparr>v_key = [97], v_seq = 1, v_type = kTypeValue, v_value = [120]\<rparr>,
              \<lparr>v_key = [97], v_seq = 2, v_type = kTypeDeletion, v_value = []\<rparr>] :: version list"
  have u: "user_comparator BytewiseComparator" by (rule user_bytewise.user_comparator_axioms)
  have ok: "list_all version_ok ?hs" "distinct (map (\<lambda>x. (v_key x, v_seq x)) ?hs)"
    by (simp_all add: version_ok_def kMaxSequenceNumber_def)
  have n: "answer (newest ?hs [97] 1) = Found [120]" "answer (newest ?hs [97] 5) = Deleted (NotFound [] [])"
    by (simp_all add: newest_def visible_def answer_def word_le_nat_alt)
  have s: "(1 :: u64) \<le> kMaxSequenceNumber" "(5 :: u64) \<le> kMaxSequenceNumber" "length [97 :: byte] + 8 < 2 ^ 32"
    by (simp_all add: kMaxSequenceNumber_def)
  show ?thesis using memtable_snapshot_read [OF u ok] s n by metis
qed

end
