(* ===== verification/Ldb_Write_Batch.thy ===== *)
theory Ldb_Write_Batch
  imports Ldb_Memtable
begin

text \<open>
  Batches of updates: db/leveldb/db/write_batch.cc and write_batch_internal.h. A batch is the string
  \<open>rep_\<close>: a sequence number in eight bytes, a count in four and the records. The handler of \<open>Iterate\<close> is
  a record of its two operations on a state.
\<close>

section \<open>Batches\<close>

definition kHeader :: nat where "kHeader = 12"

definition wb_Clear :: bytes where "wb_Clear = replicate kHeader 0"

text \<open>A store into the middle of the string, as \<open>&rep_[i]\<close> allows.\<close>

definition overwrite :: "bytes \<Rightarrow> nat \<Rightarrow> bytes \<Rightarrow> mem_error + bytes" where
  "overwrite rep i bs = memcpy rep i bs 0 (length bs)"

definition Count :: "bytes \<Rightarrow> mem_error + u32" where
  "Count rep = (if length rep < 8 then Inl OutOfBounds else DecodeFixed32 kLittleEndian (drop 8 rep))"

definition SetCount :: "u32 \<Rightarrow> bytes \<Rightarrow> mem_error + bytes" where
  "SetCount n rep = overwrite rep 8 (EncodeFixed32 kLittleEndian n)"

definition Sequence :: "bytes \<Rightarrow> mem_error + u64" where "Sequence rep = DecodeFixed64 kLittleEndian rep"

definition SetSequence :: "u64 \<Rightarrow> bytes \<Rightarrow> mem_error + bytes" where
  "SetSequence s rep = overwrite rep 0 (EncodeFixed64 kLittleEndian s)"

text \<open>The counts are added as \<open>int\<close>.\<close>

definition add_count :: "u32 \<Rightarrow> u32 \<Rightarrow> mem_error + u32" where
  "add_count a b = (if sint a + sint b = sint (a + b) then Inr (a + b) else Inl SignedOverflow)"

definition bump_count :: "bytes \<Rightarrow> mem_error + bytes" where
  "bump_count rep = bind_res (Count rep) (\<lambda>c. bind_res (add_count c 1) (\<lambda>n. SetCount n rep))"

definition wb_Put :: "bytes \<Rightarrow> bytes \<Rightarrow> bytes \<Rightarrow> mem_error + bytes" where
  "wb_Put key val rep = bind_res (bump_count rep) (\<lambda>r.
     Inr (PutLengthPrefixedSlice (PutLengthPrefixedSlice (r @ [type_byte kTypeValue]) key) val))"

definition wb_Delete :: "bytes \<Rightarrow> bytes \<Rightarrow> mem_error + bytes" where
  "wb_Delete key rep = bind_res (bump_count rep) (\<lambda>r.
     Inr (PutLengthPrefixedSlice (r @ [type_byte kTypeDeletion]) key))"

definition SetContents :: "bytes \<Rightarrow> mem_error + bytes" where
  "SetContents contents = (if length contents < kHeader then Inl AssertionFails else Inr contents)"

definition wb_Append :: "bytes \<Rightarrow> bytes \<Rightarrow> mem_error + bytes" where
  "wb_Append dst src =
     bind_res (Count dst) (\<lambda>a. bind_res (Count src) (\<lambda>b. bind_res (add_count a b) (\<lambda>n.
     bind_res (SetCount n dst) (\<lambda>dst'.
       if length src < kHeader then Inl AssertionFails else Inr (dst' @ drop kHeader src)))))"

section \<open>Iteration\<close>

record 's handler =
  h_Put :: "bytes \<Rightarrow> bytes \<Rightarrow> 's \<Rightarrow> (mem_error + 's) option"
  h_Delete :: "bytes \<Rightarrow> 's \<Rightarrow> (mem_error + 's) option"

text \<open>The loop returns the number of records, or the message of an error.\<close>

function iterate_loop :: "'s handler \<Rightarrow> bytes \<Rightarrow> nat \<Rightarrow> 's \<Rightarrow> (mem_error + (string + nat) \<times> 's) option" where
  "iterate_loop h input found st =
     (case input of [] \<Rightarrow> Some (Inr (Inr found, st))
      | tag # rest \<Rightarrow>
          if tag = type_byte kTypeValue then
            (case GetLengthPrefixedSlice rest of None \<Rightarrow> Some (Inr (Inl ''bad WriteBatch Put'', st))
             | Some (key, r1) \<Rightarrow>
                 (case GetLengthPrefixedSlice r1 of None \<Rightarrow> Some (Inr (Inl ''bad WriteBatch Put'', st))
                  | Some (val, r2) \<Rightarrow> bind_run (h_Put h key val st) (\<lambda>st'. iterate_loop h r2 (found + 1) st')))
          else if tag = type_byte kTypeDeletion then
            (case GetLengthPrefixedSlice rest of None \<Rightarrow> Some (Inr (Inl ''bad WriteBatch Delete'', st))
             | Some (key, r1) \<Rightarrow> bind_run (h_Delete h key st) (\<lambda>st'. iterate_loop h r1 (found + 1) st'))
          else Some (Inr (Inl ''unknown WriteBatch tag'', st)))"
  by pat_completeness auto
termination
  by (relation "measure (\<lambda>(h, input, found, st). length input)") (auto dest!: GetLengthPrefixedSlice_suffix)

declare iterate_loop.simps [simp del]

definition Iterate :: "'s handler \<Rightarrow> bytes \<Rightarrow> 's \<Rightarrow> (mem_error + status \<times> 's) option" where
  "Iterate h rep st =
     (if length rep < kHeader then Some (Inr (Corruption (str ''malformed WriteBatch (too small)'') [], st))
      else bind_run (iterate_loop h (drop kHeader rep) 0 st) (\<lambda>(r, st').
        case r of Inl msg \<Rightarrow> Some (Inr (Corruption (str msg) [], st'))
        | Inr found \<Rightarrow> bind_run (Some (Count rep)) (\<lambda>c.
            if int found \<noteq> sint c then Some (Inr (Corruption (str ''WriteBatch has wrong count'') [], st'))
            else Some (Inr (OK, st')))))"

definition MemTableInserter :: "(u64 \<times> memtable) handler" where
  "MemTableInserter =
     \<lparr>h_Put = (\<lambda>key val (s, mem). bind_run (mt_Add s kTypeValue key val mem) (\<lambda>mem'. Some (Inr (s + 1, mem')))),
      h_Delete = (\<lambda>key (s, mem). bind_run (mt_Add s kTypeDeletion key [] mem) (\<lambda>mem'. Some (Inr (s + 1, mem'))))\<rparr>"

definition InsertInto :: "bytes \<Rightarrow> memtable \<Rightarrow> (mem_error + status \<times> memtable) option" where
  "InsertInto rep mem =
     bind_run (Some (Sequence rep)) (\<lambda>s.
     bind_run (Iterate MemTableInserter rep (s, mem)) (\<lambda>(st, (s', mem')). Some (Inr (st, mem'))))"

section \<open>What a batch holds\<close>

datatype batch_op = BPut bytes bytes | BDelete bytes

fun op_ok :: "batch_op \<Rightarrow> bool" where
  "op_ok (BPut k v) \<longleftrightarrow> length k + 8 < 2 ^ 32 \<and> length v < 2 ^ 32"
| "op_ok (BDelete k) \<longleftrightarrow> length k + 8 < 2 ^ 32"

fun op_bytes :: "batch_op \<Rightarrow> bytes" where
  "op_bytes (BPut k v) = type_byte kTypeValue # PutLengthPrefixedSlice [] k @ PutLengthPrefixedSlice [] v"
| "op_bytes (BDelete k) = type_byte kTypeDeletion # PutLengthPrefixedSlice [] k"

fun apply_op :: "batch_op \<Rightarrow> bytes \<Rightarrow> mem_error + bytes" where
  "apply_op (BPut k v) rep = wb_Put k v rep"
| "apply_op (BDelete k) rep = wb_Delete k rep"

fun apply_ops :: "batch_op list \<Rightarrow> bytes \<Rightarrow> mem_error + bytes" where
  "apply_ops [] rep = Inr rep"
| "apply_ops (x # xs) rep = bind_res (apply_op x rep) (apply_ops xs)"

definition batch_rep :: "u64 \<Rightarrow> batch_op list \<Rightarrow> bytes" where
  "batch_rep s ops = EncodeFixed64 kLittleEndian s @ EncodeFixed32 kLittleEndian (of_nat (length ops)) @ concat (map op_bytes ops)"

fun handle :: "'s handler \<Rightarrow> batch_op list \<Rightarrow> 's \<Rightarrow> (mem_error + 's) option" where
  "handle h [] st = Some (Inr st)"
| "handle h (BPut k v # xs) st = bind_run (h_Put h k v st) (handle h xs)"
| "handle h (BDelete k # xs) st = bind_run (h_Delete h k st) (handle h xs)"

lemma wb_Clear_rep: "wb_Clear = batch_rep 0 []"
  by code_simp

lemma Count_rep: "Count (batch_rep s ops) = Inr (of_nat (length ops))"
  by (simp add: Count_def batch_rep_def codec_simps)

lemma Sequence_rep: "Sequence (batch_rep s ops) = Inr s"
  by (simp add: Sequence_def batch_rep_def codec_simps)

lemma SetSequence_rep: "SetSequence s' (batch_rep s ops) = Inr (batch_rep s' ops)"
  by (simp add: SetSequence_def overwrite_def memcpy_def batch_rep_def)

lemma SetCount_rep: "SetCount (of_nat n) (batch_rep s ops) =
    Inr (EncodeFixed64 kLittleEndian s @ EncodeFixed32 kLittleEndian (of_nat n) @ concat (map op_bytes ops))"
  by (simp add: SetCount_def overwrite_def memcpy_def batch_rep_def)

lemma sint_count: "n < 2 ^ 31 \<Longrightarrow> sint (of_nat n :: u32) = int n"
  using sint_u32_small [of "of_nat n"] by (simp add: unat_of_nat_u32)

lemma add_count_nat: "a + b < 2 ^ 31 \<Longrightarrow> add_count (of_nat a) (of_nat b) = Inr (of_nat (a + b))"
  using sint_count [of a] sint_count [of b] sint_count [of "a + b"] by (simp add: add_count_def)

lemma apply_op_rep:
  assumes "length ops < 2 ^ 31 - 1"
  shows "apply_op x (batch_rep s ops) = Inr (batch_rep s (ops @ [x]))"
proof -
  have "bump_count (batch_rep s ops) =
      Inr (EncodeFixed64 kLittleEndian s @ EncodeFixed32 kLittleEndian (of_nat (length ops + 1)) @ concat (map op_bytes ops))"
    using add_count_nat [of "length ops" 1] assms SetCount_rep [of "length ops + 1" s ops] by (simp add: bump_count_def Count_rep)
  then show ?thesis
    by (cases x) (simp_all add: wb_Put_def wb_Delete_def batch_rep_def PutLengthPrefixedSlice_def PutVarint32_def)
qed

lemma apply_ops_rep:
  "length ops + length xs < 2 ^ 31 \<Longrightarrow> apply_ops xs (batch_rep s ops) = Inr (batch_rep s (ops @ xs))"
  by (induction xs arbitrary: ops) (simp_all add: apply_op_rep)

lemma wb_Append_rep:
  "length a + length b < 2 ^ 31 \<Longrightarrow> wb_Append (batch_rep s a) (batch_rep s' b) = Inr (batch_rep s (a @ b))"
  using add_count_nat [of "length a" "length b"] SetCount_rep [of "length a + length b" s a]
  by (simp add: wb_Append_def Count_rep) (simp add: batch_rep_def kHeader_def)

lemma iterate_loop_ops:
  assumes "list_all op_ok ops"
  shows "iterate_loop h (concat (map op_bytes ops)) n st = bind_run (handle h ops st) (\<lambda>st'. Some (Inr (Inr (n + length ops), st')))"
  using assms
proof (induction ops arbitrary: n st)
  case Nil
  then show ?case by (simp add: iterate_loop.simps)
next
  case (Cons x ops)
  show ?case
    using Cons by (cases x) (subst iterate_loop.simps, simp add: codec_simps bind_run_assoc cong: bind_run_cong)+
qed

lemma Iterate_rep:
  assumes "list_all op_ok ops" "length ops < 2 ^ 31"
  shows "Iterate h (batch_rep s ops) st = bind_run (handle h ops st) (\<lambda>st'. Some (Inr (OK, st')))"
proof -
  have d: "drop kHeader (batch_rep s ops) = concat (map op_bytes ops)" "\<not> length (batch_rep s ops) < kHeader"
    by (simp_all add: batch_rep_def kHeader_def)
  show ?thesis
    unfolding Iterate_def d iterate_loop_ops [OF assms(1)] bind_run_assoc using d(2) sint_count [OF assms(2)] by (simp add: Count_rep)
qed

text \<open>On any bytes and with a handler that always succeeds, \<open>Iterate\<close> returns without leaving the string.\<close>

lemma iterate_loop_total:
  assumes "\<And>k v st. \<exists>st'. h_Put h k v st = Some (Inr st')" "\<And>k st. \<exists>st'. h_Delete h k st = Some (Inr st')"
  shows "\<exists>r. iterate_loop h input found st = Some (Inr r)"
proof (induction input arbitrary: found st rule: length_induct)
  case (1 input)
  have put: "\<exists>r. bind_run (h_Put h k v st) (\<lambda>st'. iterate_loop h rest (found + 1) st') = Some (Inr r)" if "length rest < length input" for k v rest
    using 1 that assms(1) [of k v st] by fastforce
  have del: "\<exists>r. bind_run (h_Delete h k st) (\<lambda>st'. iterate_loop h rest (found + 1) st') = Some (Inr r)" if "length rest < length input" for k rest
    using 1 that assms(2) [of k st] by fastforce
  have sh: "length q < length p" if "GetLengthPrefixedSlice p = Some (v, q)" for p v q
    using GetLengthPrefixedSlice_suffix [OF that] by auto
  show ?case
  proof (cases input)
    case (Cons tag rest)
    show ?thesis
      unfolding iterate_loop.simps [of h input] using put del Cons
      by (auto split: option.splits simp del: bind_run_eq_Inr dest!: sh)
  qed (simp add: iterate_loop.simps)
qed

section \<open>A batch in the memory table\<close>

fun versions_of :: "u64 \<Rightarrow> batch_op list \<Rightarrow> version list" where
  "versions_of s [] = []"
| "versions_of s (BPut k v # xs) = \<lparr>v_key = k, v_seq = s, v_type = kTypeValue, v_value = v\<rparr> # versions_of (s + 1) xs"
| "versions_of s (BDelete k # xs) = \<lparr>v_key = k, v_seq = s, v_type = kTypeDeletion, v_value = []\<rparr> # versions_of (s + 1) xs"

lemma handle_inserter:
  "handle MemTableInserter ops (s, mem) = bind_run (add_all (versions_of s ops) mem) (\<lambda>mem'. Some (Inr (s + of_nat (length ops), mem')))"
proof (induction s ops arbitrary: mem rule: versions_of.induct)
  case (2 s k v xs)
  show ?case using 2 by (simp add: MemTableInserter_def bind_run_assoc algebra_simps cong: bind_run_cong)
next
  case (3 s k xs)
  show ?case using 3 by (simp add: MemTableInserter_def bind_run_assoc algebra_simps cong: bind_run_cong)
qed simp

lemma add_all_append: "add_all (xs @ ys) mt = bind_run (add_all xs mt) (add_all ys)"
  by (induction xs arbitrary: mt) (simp_all add: bind_run_assoc cong: bind_run_cong)

lemma versions_of_bounds:
  assumes "list_all op_ok ops" "unat s + length ops \<le> 2 ^ 56"
  shows "list_all version_ok (versions_of s ops) \<and> distinct (map v_seq (versions_of s ops)) \<and> (\<forall>x\<in>set (versions_of s ops). s \<le> v_seq x)"
  using assms
proof (induction s ops rule: versions_of.induct)
  case (2 s k v xs)
  have u: "unat (s + 1) = unat s + 1" using 2(3) by (simp add: unat_word_ariths)
  have "s \<le> kMaxSequenceNumber" using 2(3) by (simp add: kMax(2))
  moreover have "s < v_seq x" if "x \<in> set (versions_of (s + 1) xs)" for x
    using 2 that u by (force simp: word_less_nat_alt word_le_nat_alt)
  ultimately show ?case using 2 u by (force simp: version_ok_def)
next
  case (3 s k xs)
  have u: "unat (s + 1) = unat s + 1" using 3(3) by (simp add: unat_word_ariths)
  have "s \<le> kMaxSequenceNumber" using 3(3) by (simp add: kMax(2))
  moreover have "s < v_seq x" if "x \<in> set (versions_of (s + 1) xs)" for x
    using 3 that u by (force simp: word_less_nat_alt word_le_nat_alt)
  ultimately show ?case using 3 u by (force simp: version_ok_def)
qed simp

section \<open>Properties\<close>

text \<open>
  C3. A batch takes effect as a whole and in order. Updates put into a new batch and inserted into a table
  that holds earlier versions, with a sequence number above theirs, become versions with consecutive
  sequence numbers: reads at every snapshot see the last update of a key at or before it, deletions
  included. Every step succeeds, and iterating over the batch reports no corruption.
\<close>

theorem write_batch_insert:
  assumes "user_comparator U" "list_all op_ok ops" "unat s + length ops \<le> 2 ^ 56" "length ops < 2 ^ 31"
    and "list_all version_ok hs" "distinct (map (\<lambda>x. (v_key x, v_seq x)) hs)" "\<forall>x\<in>set hs. v_seq x < s"
  shows "\<exists>b rep mt0 mt1 mt. apply_ops ops wb_Clear = Inr b \<and> SetSequence s b = Inr rep \<and>
    MemTable_new U = Inr mt0 \<and> add_all hs mt0 = Some (Inr mt1) \<and> InsertInto rep mt1 = Some (Inr (OK, mt)) \<and>
    (\<forall>u s'. s' \<le> kMaxSequenceNumber \<and> length u + 8 < 2 ^ 32 \<longrightarrow>
      (\<exists>k. LookupKey_new u s' = Inr k \<and> mt_Get k mt = Some (Inr (answer (newest (hs @ versions_of s ops) u s')))))"
proof -
  let ?vs = "versions_of s ops"
  have vs: "list_all version_ok ?vs" "distinct (map v_seq ?vs)" "\<forall>x\<in>set ?vs. s \<le> v_seq x" using versions_of_bounds [OF assms(2,3)] by auto
  have "distinct (map (\<lambda>x. (v_key x, v_seq x)) ?vs)" using vs(2) by (auto simp: distinct_map inj_on_def)
  then have dist: "distinct (map (\<lambda>x. (v_key x, v_seq x)) (hs @ ?vs))" using assms(6,7) vs(3) by fastforce
  have "list_all version_ok (hs @ ?vs)" using assms(5) vs(1) by simp
  moreover obtain mt0 where 0: "MemTable_new U = Inr mt0" "mt_rep U mt0 []" using MemTable_new_rep by blast
  ultimately obtain mt ws where 1: "add_all (hs @ ?vs) mt0 = Some (Inr mt)" "mt_rep U mt ws" "set ws = set (hs @ ?vs)"
    using user_comparator.add_all_spec [OF assms(1) 0(2) _ dist] by auto
  then obtain mt1 where 2: "add_all hs mt0 = Some (Inr mt1)" "add_all ?vs mt1 = Some (Inr mt)" by (auto simp: add_all_append)
  have "InsertInto (batch_rep s ops) mt1 = Some (Inr (OK, mt))"
    using 2(2) by (simp add: InsertInto_def Sequence_rep Iterate_rep [OF assms(2,4)] handle_inserter)
  moreover have "apply_ops ops wb_Clear = Inr (batch_rep 0 ops)" using apply_ops_rep [of "[]" ops 0] assms(4) by (simp add: wb_Clear_rep)
  moreover have "\<exists>k. LookupKey_new u s' = Inr k \<and> mt_Get k mt = Some (Inr (answer (newest (hs @ ?vs) u s')))"
    if "s' \<le> kMaxSequenceNumber" "length u + 8 < 2 ^ 32" for u s'
    using LookupKey_new_eq [OF that(2), of s'] user_comparator.Get_spec [OF assms(1) 1(2) that _ dist 1(3) [symmetric]] by blast
  ultimately show ?thesis using 0(1) 2(1) SetSequence_rep by blast
qed

theorem write_batch_insert_witness:
  "\<exists>b rep mt0 mt. apply_ops [BPut [97] [120], BDelete [97]] wb_Clear = Inr b \<and> SetSequence 7 b = Inr rep \<and>
     MemTable_new BytewiseComparator = Inr mt0 \<and> InsertInto rep mt0 = Some (Inr (OK, mt)) \<and>
     (\<exists>k. LookupKey_new [97] 7 = Inr k \<and> mt_Get k mt = Some (Inr (Found [120]))) \<and>
     (\<exists>k. LookupKey_new [97] 8 = Inr k \<and> mt_Get k mt = Some (Inr (Deleted (NotFound [] []))))"
proof -
  let ?ops = "[BPut [97] [120], BDelete [97]]"
  have u: "user_comparator BytewiseComparator" by (rule user_bytewise.user_comparator_axioms)
  have n: "answer (newest ([] @ versions_of 7 ?ops) [97] 7) = Found [120]"
    "answer (newest ([] @ versions_of 7 ?ops) [97] 8) = Deleted (NotFound [] [])"
    by (simp_all add: newest_def visible_def answer_def word_le_nat_alt)
  have s: "(7 :: u64) \<le> kMaxSequenceNumber" "(8 :: u64) \<le> kMaxSequenceNumber" "length [97 :: byte] + 8 < 2 ^ 32"
    by (simp_all add: kMaxSequenceNumber_def)
  have "list_all op_ok ?ops" "unat (7 :: u64) + length ?ops \<le> 2 ^ 56" "length ?ops < 2 ^ 31" by simp_all
  then obtain b rep mt0 mt where w: "apply_ops ?ops wb_Clear = Inr b" "SetSequence 7 b = Inr rep" "MemTable_new BytewiseComparator = Inr mt0"
      "InsertInto rep mt0 = Some (Inr (OK, mt))" and
      g: "\<And>u s'. s' \<le> kMaxSequenceNumber \<Longrightarrow> length u + 8 < 2 ^ 32 \<Longrightarrow>
        \<exists>k. LookupKey_new u s' = Inr k \<and> mt_Get k mt = Some (Inr (answer (newest ([] @ versions_of 7 ?ops) u s')))"
    using write_batch_insert [OF u, of ?ops 7 "[]"] by (auto simp del: apply_ops.simps versions_of.simps)
  show ?thesis using w g [OF s(1,3)] g [OF s(2,3)] unfolding n by blast
qed

end
