(* ===== verification/Ldb_Iterator.thy ===== *)
theory Ldb_Iterator
  imports Ldb_Comparator Ldb_Status Ldb_Loop
begin

text \<open>
  Iterators: db/leveldb/include/leveldb/iterator.h, table/iterator.cc and table/iterator_wrapper.h. The
  virtual functions of a class of iterators are the fields of \<open>iterator\<close>, over the type of its
  objects. What a client may rely on is the locale \<open>cursor\<close>: a position in a list of entries.
\<close>

section \<open>The interface\<close>

record 's iterator =
  it_Valid :: "'s \<Rightarrow> bool"
  it_SeekToFirst :: "'s \<Rightarrow> (mem_error + 's) option"
  it_SeekToLast :: "'s \<Rightarrow> (mem_error + 's) option"
  it_Seek :: "bytes \<Rightarrow> 's \<Rightarrow> (mem_error + 's) option"
  it_Next :: "'s \<Rightarrow> (mem_error + 's) option"
  it_Prev :: "'s \<Rightarrow> (mem_error + 's) option"
  it_key :: "'s \<Rightarrow> mem_error + bytes"
  it_value :: "'s \<Rightarrow> mem_error + bytes"
  it_status :: "'s \<Rightarrow> mem_error + status"

text \<open>The object of an iterator without entries is its status.\<close>

definition EmptyIterator_class :: "status iterator" where
  "EmptyIterator_class =
     \<lparr>it_Valid = (\<lambda>_. False), it_SeekToFirst = (\<lambda>s. Some (Inr s)), it_SeekToLast = (\<lambda>s. Some (Inr s)),
      it_Seek = (\<lambda>_ s. Some (Inr s)), it_Next = (\<lambda>_. Some (Inl AssertionFails)), it_Prev = (\<lambda>_. Some (Inl AssertionFails)),
      it_key = (\<lambda>_. Inl AssertionFails), it_value = (\<lambda>_. Inl AssertionFails), it_status = Inr\<rparr>"

definition NewEmptyIterator :: status where "NewEmptyIterator = OK"

definition NewErrorIterator :: "status \<Rightarrow> status" where "NewErrorIterator s = s"

text \<open>A call of a virtual function on an object of one class or another.\<close>

definition inl_run :: "('e + 'a) option \<Rightarrow> ('e + ('a + 'b)) option" where "inl_run r = bind_run r (\<lambda>x. Some (Inr (Inl x)))"
definition inr_run :: "('e + 'b) option \<Rightarrow> ('e + ('a + 'b)) option" where "inr_run r = bind_run r (\<lambda>x. Some (Inr (Inr x)))"

definition either_class :: "'a iterator \<Rightarrow> 'b iterator \<Rightarrow> ('a + 'b) iterator" where
  "either_class I J =
     \<lparr>it_Valid = case_sum (it_Valid I) (it_Valid J),
      it_SeekToFirst = case_sum (\<lambda>a. inl_run (it_SeekToFirst I a)) (\<lambda>b. inr_run (it_SeekToFirst J b)),
      it_SeekToLast = case_sum (\<lambda>a. inl_run (it_SeekToLast I a)) (\<lambda>b. inr_run (it_SeekToLast J b)),
      it_Seek = (\<lambda>t. case_sum (\<lambda>a. inl_run (it_Seek I t a)) (\<lambda>b. inr_run (it_Seek J t b))),
      it_Next = case_sum (\<lambda>a. inl_run (it_Next I a)) (\<lambda>b. inr_run (it_Next J b)),
      it_Prev = case_sum (\<lambda>a. inl_run (it_Prev I a)) (\<lambda>b. inr_run (it_Prev J b)),
      it_key = case_sum (it_key I) (it_key J), it_value = case_sum (it_value I) (it_value J),
      it_status = case_sum (it_status I) (it_status J)\<rparr>"

section \<open>Cleanup functions\<close>

text \<open>
  The cleanup functions of an iterator, with their arguments: the node inside the object, whose
  function is null at first, and the list behind it. The destructor runs them in this order.
\<close>

record 'c cleanups =
  cl_head :: "'c option"
  cl_next :: "'c list"

definition Iterator_new :: "'c cleanups" where "Iterator_new = \<lparr>cl_head = None, cl_next = []\<rparr>"

definition RegisterCleanup :: "'c \<Rightarrow> 'c cleanups \<Rightarrow> 'c cleanups" where
  "RegisterCleanup c l =
     (case cl_head l of None \<Rightarrow> l\<lparr>cl_head := Some c\<rparr> | Some _ \<Rightarrow> l\<lparr>cl_next := c # cl_next l\<rparr>)"

definition cleanup_order :: "'c cleanups \<Rightarrow> 'c list" where
  "cleanup_order l = (case cl_head l of None \<Rightarrow> [] | Some c \<Rightarrow> c # cl_next l)"

definition Iterator_delete :: "('c \<Rightarrow> 'e \<Rightarrow> mem_error + 'e) \<Rightarrow> 'c cleanups \<Rightarrow> 'e \<Rightarrow> mem_error + 'e" where
  "Iterator_delete run l e = fold (\<lambda>c r. bind_res r (run c)) (cleanup_order l) (Inr e)"

lemma cleanup_registered:
  assumes "fs \<noteq> []"
  shows "cleanup_order (fold RegisterCleanup fs Iterator_new) = hd fs # rev (tl fs)"
proof -
  have "fold RegisterCleanup gs \<lparr>cl_head = Some c, cl_next = ns\<rparr> = \<lparr>cl_head = Some c, cl_next = rev gs @ ns\<rparr>" for c gs and ns :: "'a list"
    by (induction gs arbitrary: ns) (simp_all add: RegisterCleanup_def)
  then show ?thesis using assms by (cases fs) (simp_all add: RegisterCleanup_def Iterator_new_def cleanup_order_def)
qed

section \<open>The wrapper\<close>

record 's wrapper =
  w_iter :: "'s option"
  w_valid :: bool
  w_key :: bytes

definition w_none :: "'s wrapper" where "w_none = \<lparr>w_iter = None, w_valid = False, w_key = []\<rparr>"

definition w_Update :: "'s iterator \<Rightarrow> 's \<Rightarrow> 's wrapper \<Rightarrow> mem_error + 's wrapper" where
  "w_Update I s w =
     (if it_Valid I s then bind_res (it_key I s) (\<lambda>k. Inr \<lparr>w_iter = Some s, w_valid = True, w_key = k\<rparr>)
      else Inr (w\<lparr>w_iter := Some s, w_valid := False\<rparr>))"

text \<open>\<open>Set\<close> deletes the iterator the wrapper has, which the caller accounts for.\<close>

definition w_Set :: "'s iterator \<Rightarrow> 's option \<Rightarrow> 's wrapper \<Rightarrow> mem_error + 's wrapper" where
  "w_Set I iter w = (case iter of None \<Rightarrow> Inr (w\<lparr>w_iter := None, w_valid := False\<rparr>) | Some s \<Rightarrow> w_Update I s w)"

definition w_get_key :: "'s wrapper \<Rightarrow> mem_error + bytes" where
  "w_get_key w = (if w_valid w then Inr (w_key w) else Inl AssertionFails)"

definition w_get_value :: "'s iterator \<Rightarrow> 's wrapper \<Rightarrow> mem_error + bytes" where
  "w_get_value I w =
     (if w_valid w then (case w_iter w of None \<Rightarrow> Inl NullDeref | Some s \<Rightarrow> it_value I s) else Inl AssertionFails)"

definition w_status :: "'s iterator \<Rightarrow> 's wrapper \<Rightarrow> mem_error + status" where
  "w_status I w = (case w_iter w of None \<Rightarrow> Inl AssertionFails | Some s \<Rightarrow> it_status I s)"

definition w_move :: "'s iterator \<Rightarrow> ('s \<Rightarrow> (mem_error + 's) option) \<Rightarrow> 's wrapper \<Rightarrow> (mem_error + 's wrapper) option" where
  "w_move I f w =
     (case w_iter w of None \<Rightarrow> Some (Inl AssertionFails) | Some s \<Rightarrow> bind_run (f s) (\<lambda>s'. Some (w_Update I s' w)))"

definition w_Next :: "'s iterator \<Rightarrow> 's wrapper \<Rightarrow> (mem_error + 's wrapper) option" where
  "w_Next I = w_move I (it_Next I)"
definition w_Prev :: "'s iterator \<Rightarrow> 's wrapper \<Rightarrow> (mem_error + 's wrapper) option" where
  "w_Prev I = w_move I (it_Prev I)"
definition w_Seek :: "'s iterator \<Rightarrow> bytes \<Rightarrow> 's wrapper \<Rightarrow> (mem_error + 's wrapper) option" where
  "w_Seek I k = w_move I (it_Seek I k)"
definition w_SeekToFirst :: "'s iterator \<Rightarrow> 's wrapper \<Rightarrow> (mem_error + 's wrapper) option" where
  "w_SeekToFirst I = w_move I (it_SeekToFirst I)"
definition w_SeekToLast :: "'s iterator \<Rightarrow> 's wrapper \<Rightarrow> (mem_error + 's wrapper) option" where
  "w_SeekToLast I = w_move I (it_SeekToLast I)"

section \<open>Cursors\<close>

text \<open>
  The entries below a target, of which a sorted list has a prefix: a key before one that is below
  the target is below it too.
\<close>

definition below :: "comparator \<Rightarrow> bytes \<Rightarrow> bytes \<times> bytes \<Rightarrow> bool" where
  "below C target kv \<longleftrightarrow> Compare C (fst kv) target < 0"

definition lower_bound :: "comparator \<Rightarrow> bytes \<Rightarrow> (bytes \<times> bytes) list \<Rightarrow> nat" where
  "lower_bound C target kvs = length (takeWhile (below C target) kvs)"

definition split_by :: "comparator \<Rightarrow> bytes \<Rightarrow> (bytes \<times> bytes) list \<Rightarrow> bool" where
  "split_by C target kvs \<longleftrightarrow> (\<forall>i j. i < j \<and> j < length kvs \<and> below C target (kvs ! j) \<longrightarrow> below C target (kvs ! i))"

lemma lower_bound_le: "lower_bound C target kvs \<le> length kvs"
  by (simp add: lower_bound_def length_takeWhile_le)

lemma below_iff:
  assumes "split_by C target kvs" "i < length kvs"
  shows "below C target (kvs ! i) \<longleftrightarrow> i < lower_bound C target kvs"
proof
  assume "i < lower_bound C target kvs"
  then show "below C target (kvs ! i)" unfolding lower_bound_def by (metis nth_mem set_takeWhileD takeWhile_nth)
next
  assume b: "below C target (kvs ! i)"
  show "i < lower_bound C target kvs"
  proof (rule ccontr)
    let ?p = "lower_bound C target kvs"
    assume "\<not> i < ?p"
    then have p: "?p \<le> i" "?p < length kvs" using assms(2) by auto
    then have "below C target (kvs ! ?p)" using b assms unfolding split_by_def by (metis le_neq_implies_less)
    then show False using p(2) nth_length_takeWhile [of "below C target" kvs] by (simp add: lower_bound_def)
  qed
qed

text \<open>Strictly increasing keys, which the comparator's laws cover.\<close>

definition sorted_keys :: "comparator \<Rightarrow> (bytes \<times> bytes) list \<Rightarrow> bool" where
  "sorted_keys C kvs \<longleftrightarrow> sorted_wrt (\<lambda>x y. Compare C (fst x) (fst y) < 0) kvs"

context comparator_laws
begin

lemma sorted_split:
  assumes "sorted_keys C kvs" "\<forall>kv \<in> set kvs. ok (fst kv)" "ok target"
  shows "split_by C target kvs"
  unfolding split_by_def below_def
proof (intro allI impI, elim conjE)
  fix i j assume ij: "i < j" "j < length kvs" "Compare C (fst (kvs ! j)) target < 0"
  then have "Compare C (fst (kvs ! i)) (fst (kvs ! j)) < 0" using assms(1) by (simp add: sorted_keys_def sorted_wrt_iff_nth_less)
  then show "Compare C (fst (kvs ! i)) target < 0"
    using ij assms(2,3) compare_trans [of "fst (kvs ! i)" "fst (kvs ! j)" target] by simp
qed

end

text \<open>
  An iterator at position \<open>i\<close> of a list of entries, where the position behind the last one stands
  for an iterator that is not valid. \<open>seekable\<close> are the targets that \<open>Seek\<close> may have.
\<close>

locale cursor =
  fixes I :: "'s iterator" and C :: comparator and seekable :: "bytes \<Rightarrow> bool" and kvs :: "(bytes \<times> bytes) list"
    and at :: "'s \<Rightarrow> nat \<Rightarrow> bool"
  assumes at_le: "at s i \<Longrightarrow> i \<le> length kvs"
    and at_valid: "at s i \<Longrightarrow> it_Valid I s \<longleftrightarrow> i < length kvs"
    and at_key: "at s i \<Longrightarrow> i < length kvs \<Longrightarrow> it_key I s = Inr (fst (kvs ! i))"
    and at_value: "at s i \<Longrightarrow> i < length kvs \<Longrightarrow> it_value I s = Inr (snd (kvs ! i))"
    and at_status: "at s i \<Longrightarrow> it_status I s = Inr OK"
    and at_first: "at s i \<Longrightarrow> \<exists>s'. it_SeekToFirst I s = Some (Inr s') \<and> at s' 0"
    and at_last: "at s i \<Longrightarrow> \<exists>s'. it_SeekToLast I s = Some (Inr s') \<and> at s' (length kvs - 1)"
    and at_seek: "seekable t \<Longrightarrow> at s i \<Longrightarrow> \<exists>s'. it_Seek I t s = Some (Inr s') \<and> at s' (lower_bound C t kvs)"
    and at_next: "at s i \<Longrightarrow> i < length kvs \<Longrightarrow> \<exists>s'. it_Next I s = Some (Inr s') \<and> at s' (Suc i)"
    and at_prev: "at s i \<Longrightarrow> i < length kvs \<Longrightarrow>
      \<exists>s'. it_Prev I s = Some (Inr s') \<and> at s' (if i = 0 then length kvs else i - 1)"
begin

text \<open>A wrapper around an iterator at a position, whose cached key is the iterator's.\<close>

definition w_at :: "'s wrapper \<Rightarrow> nat \<Rightarrow> bool" where
  "w_at w i \<longleftrightarrow> (\<exists>s. w_iter w = Some s \<and> at s i) \<and> (w_valid w \<longleftrightarrow> i < length kvs) \<and> (i < length kvs \<longrightarrow> w_key w = fst (kvs ! i))"

lemma Update_at: "at s i \<Longrightarrow> \<exists>w'. w_Update I s w = Inr w' \<and> w_at w' i"
  using at_valid [of s i] at_key [of s i] at_le [of s i] by (cases "i < length kvs") (auto simp: w_Update_def w_at_def)

lemma move_at:
  assumes "w_iter w = Some s" "f s = Some (Inr s')" "at s' j"
  shows "\<exists>w'. w_move I f w = Some (Inr w') \<and> w_at w' j"
  using Update_at [OF assms(3), of w] assms(1,2) by (auto simp: w_move_def)

lemma w_at_valid: "w_at w i \<Longrightarrow> w_valid w \<longleftrightarrow> i < length kvs" and w_at_some: "w_at w i \<Longrightarrow> w_iter w \<noteq> None"
  and w_at_le: "w_at w i \<Longrightarrow> i \<le> length kvs"
  by (auto simp: w_at_def dest: at_le)

lemma w_at_first: "w_at w i \<Longrightarrow> \<exists>w'. w_SeekToFirst I w = Some (Inr w') \<and> w_at w' 0"
  unfolding w_SeekToFirst_def using at_first move_at by (metis w_at_def)

lemma w_at_last: "w_at w i \<Longrightarrow> \<exists>w'. w_SeekToLast I w = Some (Inr w') \<and> w_at w' (length kvs - 1)"
  unfolding w_SeekToLast_def using at_last move_at by (metis w_at_def)

lemma w_at_seek: "seekable t \<Longrightarrow> w_at w i \<Longrightarrow> \<exists>w'. w_Seek I t w = Some (Inr w') \<and> w_at w' (lower_bound C t kvs)"
  unfolding w_Seek_def using at_seek move_at by (metis w_at_def)

lemma w_at_next: "w_at w i \<Longrightarrow> i < length kvs \<Longrightarrow> \<exists>w'. w_Next I w = Some (Inr w') \<and> w_at w' (Suc i)"
  unfolding w_Next_def using at_next move_at by (metis w_at_def)

lemma w_at_prev:
  "w_at w i \<Longrightarrow> i < length kvs \<Longrightarrow> \<exists>w'. w_Prev I w = Some (Inr w') \<and> w_at w' (if i = 0 then length kvs else i - 1)"
  unfolding w_Prev_def using at_prev move_at by (metis w_at_def)

lemma w_at_read:
  assumes "w_at w i"
  shows "i < length kvs \<Longrightarrow> w_get_key w = Inr (fst (kvs ! i))" "i < length kvs \<Longrightarrow> w_get_value I w = Inr (snd (kvs ! i))"
    "w_status I w = Inr OK"
  using assms at_value at_status by (auto simp: w_at_def w_get_key_def w_get_value_def w_status_def)

end

interpretation empty_cursor: cursor EmptyIterator_class C "\<lambda>_. True" "[]" "\<lambda>s i. s = OK \<and> i = 0"
  by unfold_locales (auto simp: EmptyIterator_class_def lower_bound_def)

text \<open>An object of one of two classes is a cursor when it is one of its own class.\<close>

lemma inl_run_Inr [simp]: "inl_run (Some (Inr a)) = Some (Inr (Inl a))"
  and inr_run_Inr [simp]: "inr_run (Some (Inr b)) = Some (Inr (Inr b))"
  by (simp_all add: inl_run_def inr_run_def)

lemma either_left:
  assumes c: "cursor I C sk kvs at"
  shows "cursor (either_class I J) C sk kvs (case_sum at (\<lambda>_ _. False))"
  apply unfold_locales
  subgoal for s i using cursor.at_le [OF c, of "projl s" i] by (cases s) (auto simp: either_class_def)
  subgoal for s i using cursor.at_valid [OF c, of "projl s" i] by (cases s) (auto simp: either_class_def)
  subgoal for s i using cursor.at_key [OF c, of "projl s" i] by (cases s) (auto simp: either_class_def)
  subgoal for s i using cursor.at_value [OF c, of "projl s" i] by (cases s) (auto simp: either_class_def)
  subgoal for s i using cursor.at_status [OF c, of "projl s" i] by (cases s) (auto simp: either_class_def)
  subgoal for s i using cursor.at_first [OF c, of "projl s" i] by (cases s) (auto simp: either_class_def)
  subgoal for s i using cursor.at_last [OF c, of "projl s" i] by (cases s) (auto simp: either_class_def)
  subgoal for t s i using cursor.at_seek [OF c, of t "projl s" i] by (cases s) (auto simp: either_class_def)
  subgoal for s i using cursor.at_next [OF c, of "projl s" i] by (cases s) (auto simp: either_class_def)
  subgoal for s i using cursor.at_prev [OF c, of "projl s" i] by (cases s) (auto simp: either_class_def)
  done

lemma either_right:
  assumes c: "cursor J C sk kvs at"
  shows "cursor (either_class I J) C sk kvs (case_sum (\<lambda>_ _. False) at)"
  apply unfold_locales
  subgoal for s i using cursor.at_le [OF c, of "projr s" i] by (cases s) (auto simp: either_class_def)
  subgoal for s i using cursor.at_valid [OF c, of "projr s" i] by (cases s) (auto simp: either_class_def)
  subgoal for s i using cursor.at_key [OF c, of "projr s" i] by (cases s) (auto simp: either_class_def)
  subgoal for s i using cursor.at_value [OF c, of "projr s" i] by (cases s) (auto simp: either_class_def)
  subgoal for s i using cursor.at_status [OF c, of "projr s" i] by (cases s) (auto simp: either_class_def)
  subgoal for s i using cursor.at_first [OF c, of "projr s" i] by (cases s) (auto simp: either_class_def)
  subgoal for s i using cursor.at_last [OF c, of "projr s" i] by (cases s) (auto simp: either_class_def)
  subgoal for t s i using cursor.at_seek [OF c, of t "projr s" i] by (cases s) (auto simp: either_class_def)
  subgoal for s i using cursor.at_next [OF c, of "projr s" i] by (cases s) (auto simp: either_class_def)
  subgoal for s i using cursor.at_prev [OF c, of "projr s" i] by (cases s) (auto simp: either_class_def)
  done

text \<open>A condition on the entries may be part of the position.\<close>

lemma cursor_guard:
  assumes "P \<Longrightarrow> cursor I C sk kvs at"
  shows "cursor I C sk kvs (\<lambda>s i. P \<and> at s i)"
proof (cases P)
  case True
  then show ?thesis using assms by simp
next
  case False
  then show ?thesis by unfold_locales simp_all
qed

end
