(* ===== verification/Ldb_Block.thy ===== *)
theory Ldb_Block
  imports Ldb_Iterator
begin

text \<open>
  Blocks of tables: db/leveldb/table/block_builder.h and block_builder.cc write them, block.h and
  block.cc read them. A pointer into a block is its offset. Offsets and lengths have 32 bits in the
  reader: what is narrowed to them is taken modulo \<open>2 ^ 32\<close>.
\<close>

section \<open>Building\<close>

record block_builder =
  bb_interval :: nat
  bb_comparator :: comparator
  bb_buffer :: bytes
  bb_restarts :: "u32 list"
  bb_counter :: nat
  bb_finished :: bool
  bb_last_key :: bytes

definition BlockBuilder_new :: "comparator \<Rightarrow> nat \<Rightarrow> mem_error + block_builder" where
  "BlockBuilder_new cmp interval =
     (if interval < 1 then Inl AssertionFails
      else Inr \<lparr>bb_interval = interval, bb_comparator = cmp, bb_buffer = [], bb_restarts = [0], bb_counter = 0,
                bb_finished = False, bb_last_key = []\<rparr>)"

definition bb_Reset :: "block_builder \<Rightarrow> block_builder" where
  "bb_Reset b = b\<lparr>bb_buffer := [], bb_restarts := [0], bb_counter := 0, bb_finished := False, bb_last_key := []\<rparr>"

definition CurrentSizeEstimate :: "block_builder \<Rightarrow> nat" where
  "CurrentSizeEstimate b = length (bb_buffer b) + length (bb_restarts b) * 4 + 4"

definition bb_empty :: "block_builder \<Rightarrow> bool" where "bb_empty b \<longleftrightarrow> bb_buffer b = []"

definition put_restarts :: "u32 list \<Rightarrow> bytes \<Rightarrow> bytes" where
  "put_restarts rs buffer = fold (\<lambda>r buf. PutFixed32 kLittleEndian buf r) rs buffer"

definition bb_Finish :: "block_builder \<Rightarrow> bytes \<times> block_builder" where
  "bb_Finish b =
     (let buffer = PutFixed32 kLittleEndian (put_restarts (bb_restarts b) (bb_buffer b)) (of_nat (length (bb_restarts b)))
      in (buffer, b\<lparr>bb_buffer := buffer, bb_finished := True\<rparr>))"

fun shared_prefix :: "bytes \<Rightarrow> bytes \<Rightarrow> nat" where
  "shared_prefix (x # xs) (y # ys) = (if x = y then Suc (shared_prefix xs ys) else 0)"
| "shared_prefix xs ys = 0"

definition entry_bytes :: "nat \<Rightarrow> bytes \<Rightarrow> bytes \<Rightarrow> bytes" where
  "entry_bytes shared key val =
     EncodeVarint32 (of_nat shared) @ EncodeVarint32 (of_nat (length key - shared)) @ EncodeVarint32 (of_nat (length val)) @
     drop shared key @ val"

definition bb_Add :: "bytes \<Rightarrow> bytes \<Rightarrow> block_builder \<Rightarrow> mem_error + block_builder" where
  "bb_Add key val b =
     (if bb_finished b \<or> bb_interval b < bb_counter b \<or>
         \<not> (bb_buffer b = [] \<or> 0 < Compare (bb_comparator b) key (bb_last_key b)) then Inl AssertionFails
      else
        (let b1 = (if bb_counter b < bb_interval b then b
                   else b\<lparr>bb_restarts := bb_restarts b @ [of_nat (length (bb_buffer b))], bb_counter := 0\<rparr>);
             shared = (if bb_counter b < bb_interval b then shared_prefix (bb_last_key b) key else 0);
             last = take shared (bb_last_key b) @ drop shared key
         in if last \<noteq> key then Inl AssertionFails
            else Inr (b1\<lparr>bb_buffer := bb_buffer b @ entry_bytes shared key val, bb_last_key := last, bb_counter := bb_counter b1 + 1\<rparr>)))"

section \<open>Reading\<close>

record block =
  bl_data :: bytes
  bl_size :: nat
  bl_restart_offset :: nat

definition NumRestarts :: "bytes \<Rightarrow> nat \<Rightarrow> mem_error + nat" where
  "NumRestarts data sz =
     (if sz < 4 then Inl AssertionFails
      else bind_res (DecodeFixed32 kLittleEndian (drop (sz - 4) data)) (\<lambda>n. Inr (unat n)))"

definition Block_new :: "bytes \<Rightarrow> mem_error + block" where
  "Block_new data =
     (let sz = length data in
      if sz < 4 then Inr \<lparr>bl_data = data, bl_size = 0, bl_restart_offset = 0\<rparr>
      else bind_res (NumRestarts data sz) (\<lambda>n.
        if (sz - 4) div 4 < n then Inr \<lparr>bl_data = data, bl_size = 0, bl_restart_offset = 0\<rparr>
        else Inr \<lparr>bl_data = data, bl_size = sz, bl_restart_offset = (sz - (1 + n) mod 2 ^ 32 * 4) mod 2 ^ 32\<rparr>))"

text \<open>
  The three numbers of the entry at an offset and the offset of the key behind them. The check of
  the lengths adds them as 32-bit numbers.
\<close>

definition DecodeEntry :: "bytes \<Rightarrow> nat \<Rightarrow> nat \<Rightarrow> (nat \<times> u32 \<times> u32 \<times> u32) option" where
  "DecodeEntry data p limit =
     (let rest = take (limit - p) (drop p data) in
      if length rest < 3 then None
      else
        (let a = rest ! 0; b = rest ! 1; c = rest ! 2;
             parsed =
               (if (ucast a :: u32) OR ucast b OR ucast c < 128 then Some (ucast a, ucast b, ucast c, drop 3 rest)
                else (case GetVarint32Ptr rest of None \<Rightarrow> None
                      | Some (shared, r1) \<Rightarrow>
                          (case GetVarint32Ptr r1 of None \<Rightarrow> None
                           | Some (non_shared, r2) \<Rightarrow>
                               (case GetVarint32Ptr r2 of None \<Rightarrow> None
                                | Some (value_length, r3) \<Rightarrow> Some (shared, non_shared, value_length, r3)))))
         in (case parsed of None \<Rightarrow> None
             | Some (shared, non_shared, value_length, r) \<Rightarrow>
                 if (of_nat (length r) :: u32) < non_shared + value_length then None
                 else Some (limit - length r, shared, non_shared, value_length))))"

text \<open>\<open>bi_value\<close> is the offset and the length of the value; \<open>None\<close> as an offset is a pointer outside the block.\<close>

record block_iter =
  bi_comparator :: comparator
  bi_data :: bytes
  bi_restarts :: nat
  bi_num :: nat
  bi_current :: nat
  bi_restart_index :: nat
  bi_key :: bytes
  bi_value :: "nat option \<times> nat"
  bi_status :: status

definition Iter_new :: "comparator \<Rightarrow> bytes \<Rightarrow> nat \<Rightarrow> nat \<Rightarrow> mem_error + block_iter" where
  "Iter_new cmp data restarts num =
     (if num = 0 then Inl AssertionFails
      else Inr \<lparr>bi_comparator = cmp, bi_data = data, bi_restarts = restarts, bi_num = num, bi_current = restarts,
                bi_restart_index = num, bi_key = [], bi_value = (None, 0), bi_status = OK\<rparr>)"

definition NextEntryOffset :: "block_iter \<Rightarrow> mem_error + nat" where
  "NextEntryOffset it =
     (case bi_value it of (None, _) \<Rightarrow> Inl OutOfBounds | (Some off, n) \<Rightarrow> Inr ((off + n) mod 2 ^ 32))"

definition GetRestartPoint :: "nat \<Rightarrow> block_iter \<Rightarrow> mem_error + nat" where
  "GetRestartPoint index it =
     (if index < bi_num it
      then bind_res (DecodeFixed32 kLittleEndian (drop (bi_restarts it + index * 4) (bi_data it))) (\<lambda>r. Inr (unat r))
      else Inl AssertionFails)"

definition SeekToRestartPoint :: "nat \<Rightarrow> block_iter \<Rightarrow> mem_error + block_iter" where
  "SeekToRestartPoint index it =
     bind_res (GetRestartPoint index it) (\<lambda>offset.
       Inr (it\<lparr>bi_key := [], bi_restart_index := index, bi_value := (Some offset, 0)\<rparr>))"

definition bi_Valid :: "block_iter \<Rightarrow> bool" where "bi_Valid it \<longleftrightarrow> bi_current it < bi_restarts it"

definition bi_get_key :: "block_iter \<Rightarrow> mem_error + bytes" where
  "bi_get_key it = (if bi_Valid it then Inr (bi_key it) else Inl AssertionFails)"

text \<open>The bytes of a slice into the block.\<close>

definition slice_bytes :: "bytes \<Rightarrow> nat \<Rightarrow> nat \<Rightarrow> mem_error + bytes" where
  "slice_bytes data off n = (if off + n \<le> length data then Inr (take n (drop off data)) else Inl OutOfBounds)"

definition bi_get_value :: "block_iter \<Rightarrow> mem_error + bytes" where
  "bi_get_value it =
     (if bi_Valid it
      then (case bi_value it of (None, _) \<Rightarrow> Inr [] | (Some off, n) \<Rightarrow> slice_bytes (bi_data it) off n)
      else Inl AssertionFails)"

definition CorruptionError :: "block_iter \<Rightarrow> block_iter" where
  "CorruptionError it =
     it\<lparr>bi_current := bi_restarts it, bi_restart_index := bi_num it, bi_status := Corruption (str ''bad entry in block'') [],
        bi_key := [], bi_value := (None, 0)\<rparr>"

declare bind_res_cong [fundef_cong]

function advance_restart :: "block_iter \<Rightarrow> mem_error + block_iter" where
  "advance_restart it =
     (if bi_restart_index it + 1 < bi_num it then
        bind_res (GetRestartPoint (bi_restart_index it + 1) it) (\<lambda>r.
          if r < bi_current it then advance_restart (it\<lparr>bi_restart_index := bi_restart_index it + 1\<rparr>) else Inr it)
      else Inr it)"
  by pat_completeness auto
termination
  by (relation "measure (\<lambda>it. bi_num it - bi_restart_index it)") auto

declare advance_restart.simps [simp del]

definition ParseNextKey :: "block_iter \<Rightarrow> mem_error + bool \<times> block_iter" where
  "ParseNextKey it =
     bind_res (NextEntryOffset it) (\<lambda>current.
       let it1 = it\<lparr>bi_current := current\<rparr> in
       if bi_restarts it \<le> current then
         Inr (False, it1\<lparr>bi_current := bi_restarts it, bi_restart_index := bi_num it\<rparr>)
       else
         (case DecodeEntry (bi_data it) current (bi_restarts it) of
            None \<Rightarrow> Inr (False, CorruptionError it1)
          | Some (p, shared, non_shared, value_length) \<Rightarrow>
              if length (bi_key it) < unat shared then Inr (False, CorruptionError it1)
              else
                bind_res (slice_bytes (bi_data it) p (unat non_shared)) (\<lambda>delta.
                bind_res (advance_restart (it1\<lparr>bi_key := take (unat shared) (bi_key it) @ delta,
                                              bi_value := (Some (p + unat non_shared), unat value_length)\<rparr>)) (\<lambda>it2.
                  Inr (True, it2)))))"

definition bi_Next :: "block_iter \<Rightarrow> mem_error + block_iter" where
  "bi_Next it = (if bi_Valid it then bind_res (ParseNextKey it) (\<lambda>(_, it'). Inr it') else Inl AssertionFails)"

text \<open>Back to a restart point before the offset \<open>original\<close>; \<open>None\<close> when there is none.\<close>

fun back_restart :: "nat \<Rightarrow> nat \<Rightarrow> block_iter \<Rightarrow> mem_error + nat option" where
  "back_restart original index it =
     bind_res (GetRestartPoint index it) (\<lambda>r.
       if original \<le> r then (case index of 0 \<Rightarrow> Inr None | Suc i \<Rightarrow> back_restart original i it) else Inr (Some index))"

definition skip_turn :: "nat \<Rightarrow> block_iter \<Rightarrow> mem_error + (block_iter + block_iter)" where
  "skip_turn stop it =
     bind_res (ParseNextKey it) (\<lambda>(more, it').
       if more then bind_res (NextEntryOffset it') (\<lambda>next. Inr (if next < stop then Inl it' else Inr it')) else Inr (Inr it'))"

definition bi_Prev :: "block_iter \<Rightarrow> (mem_error + block_iter) option" where
  "bi_Prev it =
     (if bi_Valid it then
        bind_run (Some (back_restart (bi_current it) (bi_restart_index it) it)) (\<lambda>r.
          case r of
            None \<Rightarrow> Some (Inr (it\<lparr>bi_current := bi_restarts it, bi_restart_index := bi_num it\<rparr>))
          | Some index \<Rightarrow>
              bind_run (Some (SeekToRestartPoint index it)) (\<lambda>it1. run_loop (skip_turn (bi_current it)) it1))
      else Some (Inl AssertionFails))"

text \<open>The binary search over the restart points: the last one with a key below the target, or \<open>None\<close> for a bad entry.\<close>

definition search_turn :: "bytes \<Rightarrow> block_iter \<Rightarrow> nat \<times> nat \<Rightarrow> mem_error + (nat \<times> nat + nat option)" where
  "search_turn target it = (\<lambda>(left, right).
     if left < right then
       (let mid = (left + right + 1) mod 2 ^ 32 div 2 in
        bind_res (GetRestartPoint mid it) (\<lambda>region_offset.
          case DecodeEntry (bi_data it) region_offset (bi_restarts it) of
            None \<Rightarrow> Inr (Inr None)
          | Some (key_ptr, shared, non_shared, value_length) \<Rightarrow>
              if shared \<noteq> 0 then Inr (Inr None)
              else bind_res (slice_bytes (bi_data it) key_ptr (unat non_shared)) (\<lambda>mid_key.
                Inr (Inl (if Compare (bi_comparator it) mid_key target < 0 then (mid, right)
                          else (left, (mid + 2 ^ 32 - 1) mod 2 ^ 32))))))
     else Inr (Inr (Some left)))"

definition scan_turn :: "bytes \<Rightarrow> block_iter \<Rightarrow> mem_error + (block_iter + block_iter)" where
  "scan_turn target it =
     bind_res (ParseNextKey it) (\<lambda>(more, it').
       Inr (if more \<and> Compare (bi_comparator it) (bi_key it') target < 0 then Inl it' else Inr it'))"

definition bi_Seek :: "bytes \<Rightarrow> block_iter \<Rightarrow> (mem_error + block_iter) option" where
  "bi_Seek target it =
     bind_run (run_loop (search_turn target it) (0, bi_num it - 1)) (\<lambda>r.
       case r of None \<Rightarrow> Some (Inr (CorruptionError it))
       | Some left \<Rightarrow> bind_run (Some (SeekToRestartPoint left it)) (run_loop (scan_turn target)))"

definition bi_SeekToFirst :: "block_iter \<Rightarrow> mem_error + block_iter" where
  "bi_SeekToFirst it = bind_res (SeekToRestartPoint 0 it) (\<lambda>it1. bind_res (ParseNextKey it1) (\<lambda>(_, it2). Inr it2))"

definition bi_SeekToLast :: "block_iter \<Rightarrow> (mem_error + block_iter) option" where
  "bi_SeekToLast it =
     bind_run (Some (SeekToRestartPoint (bi_num it - 1) it)) (run_loop (skip_turn (bi_restarts it)))"

definition Iter_class :: "block_iter iterator" where
  "Iter_class =
     \<lparr>it_Valid = bi_Valid, it_SeekToFirst = (\<lambda>it. Some (bi_SeekToFirst it)), it_SeekToLast = bi_SeekToLast, it_Seek = bi_Seek,
      it_Next = (\<lambda>it. Some (bi_Next it)), it_Prev = bi_Prev, it_key = bi_get_key, it_value = bi_get_value, it_status = (\<lambda>it. Inr (bi_status it))\<rparr>"

text \<open>The iterator of a block is one without entries, with a status, or an \<open>Iter\<close>.\<close>

definition Block_NewIterator :: "comparator \<Rightarrow> block \<Rightarrow> mem_error + (status + block_iter)" where
  "Block_NewIterator cmp b =
     (if bl_size b < 4 then Inr (Inl (NewErrorIterator (Corruption (str ''bad block contents'') [])))
      else bind_res (NumRestarts (bl_data b) (bl_size b)) (\<lambda>n.
        if n = 0 then Inr (Inl NewEmptyIterator)
        else bind_res (Iter_new cmp (bl_data b) (bl_restart_offset b) n) (\<lambda>it. Inr (Inr it))))"

definition block_iterator :: "(status + block_iter) iterator" where
  "block_iterator = either_class EmptyIterator_class Iter_class"

end
