(* ===== verification/Ldb_Block_Correct.thy ===== *)
theory Ldb_Block_Correct
  imports Ldb_Block
begin

text \<open>
  Correctness of blocks: the layout of what the builder writes, and the cursor that the iterator is on
  such a block.
\<close>

section \<open>Layout\<close>

text \<open>Entry \<open>i\<close> shares a prefix with its predecessor unless it is a restart point.\<close>

definition shared_at :: "nat \<Rightarrow> (bytes \<times> bytes) list \<Rightarrow> nat \<Rightarrow> nat" where
  "shared_at R kvs i = (if i mod R = 0 then 0 else shared_prefix (fst (kvs ! (i - 1))) (fst (kvs ! i)))"

definition ebytes :: "nat \<Rightarrow> (bytes \<times> bytes) list \<Rightarrow> nat \<Rightarrow> bytes" where
  "ebytes R kvs i = entry_bytes (shared_at R kvs i) (fst (kvs ! i)) (snd (kvs ! i))"

definition body :: "nat \<Rightarrow> (bytes \<times> bytes) list \<Rightarrow> nat \<Rightarrow> bytes" where
  "body R kvs n = concat (map (ebytes R kvs) [0..<n])"

definition off :: "nat \<Rightarrow> (bytes \<times> bytes) list \<Rightarrow> nat \<Rightarrow> nat" where "off R kvs i = length (body R kvs i)"

definition num_restarts :: "nat \<Rightarrow> nat \<Rightarrow> nat" where "num_restarts R n = (if n = 0 then 1 else (n - 1) div R + 1)"

definition restart_list :: "nat \<Rightarrow> (bytes \<times> bytes) list \<Rightarrow> nat list" where
  "restart_list R kvs = map (\<lambda>j. off R kvs (j * R)) [0..<num_restarts R (length kvs)]"

definition restart_bytes :: "nat list \<Rightarrow> bytes" where
  "restart_bytes rs = concat (map (\<lambda>r. EncodeFixed32 kLittleEndian (of_nat r)) rs)"

definition block_bytes :: "nat \<Rightarrow> (bytes \<times> bytes) list \<Rightarrow> bytes" where
  "block_bytes R kvs = body R kvs (length kvs) @ restart_bytes (restart_list R kvs) @
     EncodeFixed32 kLittleEndian (of_nat (num_restarts R (length kvs)))"

lemma body_Suc: "body R kvs (Suc i) = body R kvs i @ ebytes R kvs i"
  by (simp add: body_def)

lemma body_0 [simp]: "body R kvs 0 = []" "off R kvs 0 = 0"
  by (simp_all add: body_def off_def)

lemma off_Suc: "off R kvs (Suc i) = off R kvs i + length (ebytes R kvs i)"
  by (simp add: off_def body_Suc)

lemma varint_pos: "0 < length (EncodeVarint32 v)"
  by (simp add: EncodeVarint32_varint) (subst varint.simps, simp)

lemma ebytes_length: "3 \<le> length (ebytes R kvs i)"
  using varint_pos [of "of_nat (shared_at R kvs i)"] varint_pos [of "of_nat (length (fst (kvs ! i)) - shared_at R kvs i)"]
    varint_pos [of "of_nat (length (snd (kvs ! i)))"]
  unfolding ebytes_def entry_bytes_def length_append by linarith

lemma off_strict: "i < j \<Longrightarrow> off R kvs i < off R kvs j"
proof (induction j)
  case (Suc j)
  then show ?case using ebytes_length [of R kvs j] by (cases "i = j") (auto simp: off_Suc)
qed simp

lemma off_less [simp]: "off R kvs i < off R kvs j \<longleftrightarrow> i < j"
  using off_strict [of i j R kvs] off_strict [of j i R kvs] by (cases i j rule: linorder_cases) auto

lemma off_le [simp]: "off R kvs i \<le> off R kvs j \<longleftrightarrow> i \<le> j"
  using off_less [of R kvs j i] by (simp add: linorder_not_less [symmetric] del: off_less)

lemma body_split: "i \<le> n \<Longrightarrow> body R kvs n = body R kvs i @ concat (map (ebytes R kvs) [i..<n])"
  using upt_add_eq_append [of 0 i "n - i"] by (simp add: body_def)

section \<open>The builder\<close>

lemma shared_prefix_spec:
  "shared_prefix xs ys \<le> length xs \<and> shared_prefix xs ys \<le> length ys \<and>
   take (shared_prefix xs ys) xs = take (shared_prefix xs ys) ys"
  by (induction xs ys rule: shared_prefix.induct) auto

definition built :: "comparator \<Rightarrow> nat \<Rightarrow> (bytes \<times> bytes) list \<Rightarrow> block_builder \<Rightarrow> bool" where
  "built C R kvs b \<longleftrightarrow> bb_interval b = R \<and> bb_comparator b = C \<and> bb_buffer b = body R kvs (length kvs) \<and>
     bb_restarts b = map of_nat (restart_list R kvs) \<and> \<not> bb_finished b \<and>
     bb_counter b = (if kvs = [] then 0 else (length kvs - 1) mod R + 1) \<and>
     bb_last_key b = (if kvs = [] then [] else fst (last kvs))"

fun bb_AddAll :: "(bytes \<times> bytes) list \<Rightarrow> block_builder \<Rightarrow> mem_error + block_builder" where
  "bb_AddAll [] b = Inr b"
| "bb_AddAll ((k, v) # kvs) b = bind_res (bb_Add k v b) (bb_AddAll kvs)"

lemma ebytes_append: "i < length kvs \<Longrightarrow> ebytes R (kvs @ ys) i = ebytes R kvs i"
  by (simp add: ebytes_def shared_at_def nth_append)

lemma body_append: "n \<le> length kvs \<Longrightarrow> body R (kvs @ ys) n = body R kvs n"
  by (auto simp: body_def ebytes_append intro!: arg_cong [where f = concat])

lemma restart_before: "j < num_restarts R n \<Longrightarrow> n \<noteq> 0 \<Longrightarrow> j * R < n"
proof -
  assume "j < num_restarts R n" "n \<noteq> 0"
  then have "j \<le> (n - 1) div R" by (simp add: num_restarts_def)
  then have "j * R \<le> (n - 1) div R * R" by (rule mult_le_mono1)
  also have "\<dots> \<le> n - 1" by (rule div_times_less_eq_dividend)
  finally show ?thesis using \<open>n \<noteq> 0\<close> by simp
qed

lemma div_pred:
  assumes "1 \<le> R" "0 < (n :: nat)"
  shows "n div R = (n - 1) div R + (if n mod R = 0 then 1 else 0)"
proof -
  have "n div R = Suc (n - 1) div R" using assms by simp
  then show ?thesis using assms div_Suc [of "n - 1" R] by simp
qed

lemma restart_append:
  assumes "1 \<le> R"
  shows "restart_list R (kvs @ [x]) =
    restart_list R kvs @ (if kvs \<noteq> [] \<and> length kvs mod R = 0 then [off R kvs (length kvs)] else [])"
proof -
  let ?n = "length kvs"
  have same: "off R (kvs @ [x]) (j * R) = off R kvs (j * R)" if "j < num_restarts R ?n" for j
    using restart_before [OF that] body_append [of "j * R" kvs R "[x]"] that
    by (cases "kvs = []") (auto simp: off_def num_restarts_def)
  have m: "map (\<lambda>j. off R (kvs @ [x]) (j * R)) [0..<num_restarts R ?n] = restart_list R kvs"
    unfolding restart_list_def using same by simp
  show ?thesis
  proof (cases "kvs \<noteq> [] \<and> ?n mod R = 0")
    case True
    then have nr: "num_restarts R (?n + 1) = Suc (num_restarts R ?n)" "num_restarts R ?n = ?n div R"
      using div_pred [OF assms, of ?n] by (auto simp: num_restarts_def)
    have "num_restarts R ?n * R = ?n" using True by (auto simp: nr(2))
    then show ?thesis using True m nr(1) body_append [of ?n kvs R "[x]"]
      by (simp add: restart_list_def [of R "kvs @ [x]"] off_def)
  next
    case False
    then have "num_restarts R (?n + 1) = num_restarts R ?n"
      using div_pred [OF assms, of ?n] by (auto simp: num_restarts_def)
    then show ?thesis using False m by (simp add: restart_list_def [of R "kvs @ [x]"])
  qed
qed

lemma mod_pred:
  assumes "1 \<le> R" "0 < (n :: nat)"
  shows "(n - 1) mod R + 1 < R \<longleftrightarrow> n mod R \<noteq> 0" and "n mod R \<noteq> 0 \<Longrightarrow> n mod R = (n - 1) mod R + 1"
proof -
  obtain m where n: "n = Suc m" using assms(2) by (cases n) auto
  have "m mod R < R" using assms(1) by simp
  then show "(n - 1) mod R + 1 < R \<longleftrightarrow> n mod R \<noteq> 0" "n mod R \<noteq> 0 \<Longrightarrow> n mod R = (n - 1) mod R + 1"
    unfolding n using mod_Suc [of m R] by (auto split: if_splits)
qed

lemma Add_built:
  assumes b: "built C R kvs b" and R: "1 \<le> R" and new: "kvs = [] \<or> 0 < Compare C k (fst (last kvs))"
  shows "\<exists>b'. bb_Add k v b = Inr b' \<and> built C R (kvs @ [(k, v)]) b'"
proof -
  let ?n = "length kvs"
  define L where "L = (if kvs = [] then [] else fst (last kvs))"
  define sh where "sh = (if bb_counter b < R then shared_prefix L k else 0)"
  have cnt: "bb_counter b < R \<longleftrightarrow> kvs = [] \<or> ?n mod R \<noteq> 0"
  proof (cases "kvs = []")
    case False
    then show ?thesis using b mod_pred(1) [OF R, of ?n] by (simp add: built_def)
  qed (use b R in \<open>simp add: built_def\<close>)
  have at: "shared_at R (kvs @ [(k, v)]) ?n = sh"
    using cnt by (auto simp: shared_at_def sh_def nth_append last_conv_nth L_def)
  have key: "take sh L @ drop sh k = k"
    using shared_prefix_spec [of L k] append_take_drop_id [of sh k] by (auto simp: sh_def)
  have "bb_counter b \<le> R" using b R mod_less_divisor [of R "?n - 1"] by (auto simp: built_def Suc_le_eq)
  moreover have "\<not> bb_finished b" "bb_interval b = R" "bb_comparator b = C" "bb_last_key b = L" using b by (auto simp: built_def L_def)
  moreover have "bb_buffer b = [] \<or> 0 < Compare C k L" using new b by (auto simp: built_def L_def)
  ultimately have add: "bb_Add k v b = Inr ((if bb_counter b < R then b
      else b\<lparr>bb_restarts := bb_restarts b @ [of_nat (length (bb_buffer b))], bb_counter := 0\<rparr>)
      \<lparr>bb_buffer := bb_buffer b @ entry_bytes sh k v, bb_last_key := k, bb_counter := (if bb_counter b < R then bb_counter b else 0) + 1\<rparr>)"
    using key by (auto simp: bb_Add_def Let_def sh_def not_less)
  have body: "body R (kvs @ [(k, v)]) (length (kvs @ [(k, v)])) = body R kvs ?n @ entry_bytes sh k v"
    by (simp add: body_Suc body_append ebytes_def at)
  have "(if bb_counter b < R then bb_counter b else 0) + 1 = ?n mod R + 1"
    using cnt b mod_pred(2) [OF R, of ?n] by (cases "kvs = []") (auto simp: built_def)
  then have "built C R (kvs @ [(k, v)]) ((if bb_counter b < R then b
      else b\<lparr>bb_restarts := bb_restarts b @ [of_nat (length (bb_buffer b))], bb_counter := 0\<rparr>)
      \<lparr>bb_buffer := bb_buffer b @ entry_bytes sh k v, bb_last_key := k, bb_counter := (if bb_counter b < R then bb_counter b else 0) + 1\<rparr>)"
    using b body restart_append [OF R, of kvs "(k, v)"] cnt by (auto simp: built_def off_def)
  then show ?thesis using add by blast
qed

lemma AddAll_built:
  assumes "built C R ys b" "1 \<le> R" "sorted_wrt (\<lambda>x y. 0 < Compare C (fst y) (fst x)) (ys @ kvs)"
  shows "\<exists>b'. bb_AddAll kvs b = Inr b' \<and> built C R (ys @ kvs) b'"
  using assms(1,3)
proof (induction kvs arbitrary: ys b)
  case (Cons kv kvs)
  obtain k v where kv: "kv = (k, v)" by fastforce
  have "ys = [] \<or> 0 < Compare C k (fst (last ys))" using Cons.prems(2) kv by (cases ys rule: rev_cases) (auto simp: sorted_wrt_append)
  then obtain b1 where "bb_Add k v b = Inr b1" "built C R (ys @ [kv]) b1" using Add_built [OF Cons.prems(1) assms(2)] kv by blast
  then show ?case using Cons.IH [of "ys @ [kv]" b1] Cons.prems(2) kv by simp
qed simp

lemma put_restarts_bytes: "put_restarts rs buf = buf @ concat (map (EncodeFixed32 kLittleEndian) rs)"
  by (induction rs arbitrary: buf) (simp_all add: put_restarts_def PutFixed32_def)

lemma Finish_built: "built C R kvs b \<Longrightarrow> fst (bb_Finish b) = block_bytes R kvs"
  by (simp add: bb_Finish_def Let_def put_restarts_bytes built_def PutFixed32_def block_bytes_def restart_bytes_def comp_def
      restart_list_def)

lemma BlockBuilder_new_built: "1 \<le> R \<Longrightarrow> \<exists>b. BlockBuilder_new C R = Inr b \<and> built C R [] b"
  by (simp add: BlockBuilder_new_def built_def restart_list_def num_restarts_def)

section \<open>Entries read back\<close>

lemma or_less_128: "(a :: u32) OR b OR c < 128 \<Longrightarrow> a AND 128 = 0 \<and> b AND 128 = 0 \<and> c AND 128 = 0"
proof -
  assume "a OR b OR c < 128"
  then have "unat (a OR b OR c) < 2 ^ 7" by (simp add: word_less_nat_alt)
  then have "\<not> bit (unat (a OR b OR c)) 7" by (simp add: bit_iff_odd)
  then have "\<not> bit (a OR b OR c) 7" by (simp add: bit_unsigned_iff)
  then show ?thesis using and_128 [of a] and_128 [of b] and_128 [of c] by (auto simp: bit_or_iff)
qed

text \<open>The path for short numbers agrees with the general one.\<close>

definition read_entry :: "bytes \<Rightarrow> (u32 \<times> u32 \<times> u32 \<times> bytes) option" where
  "read_entry rest =
     (case GetVarint32Ptr rest of None \<Rightarrow> None | Some (s, r1) \<Rightarrow>
       (case GetVarint32Ptr r1 of None \<Rightarrow> None | Some (n, r2) \<Rightarrow>
         (case GetVarint32Ptr r2 of None \<Rightarrow> None | Some (v, r3) \<Rightarrow> Some (s, n, v, r3))))"

lemma DecodeEntry_general:
  assumes "rest = take (limit - p) (drop p data)" "3 \<le> length rest"
  shows "DecodeEntry data p limit =
    (case read_entry rest of None \<Rightarrow> None | Some (s, n, v, r) \<Rightarrow>
       if (of_nat (length r) :: u32) < n + v then None else Some (limit - length r, s, n, v))"
proof -
  obtain a b c r where rest: "rest = a # b # c # r" using assms(2) by (metis Suc_le_length_iff numeral_3_eq_3)
  have fast: "read_entry rest = Some (ucast a, ucast b, ucast c, r)" if "(ucast a :: u32) OR ucast b OR ucast c < 128"
    using or_less_128 [OF that] by (simp add: read_entry_def GetVarint32Ptr_def rest)
  show ?thesis
    unfolding DecodeEntry_def Let_def assms(1) [symmetric] using fast
    by (auto simp: rest read_entry_def split: option.splits)
qed

lemma DecodeEntry_entry:
  assumes "data = pre @ entry_bytes s k v @ post" "m \<le> length post" "s \<le> length k"
    and lim: "limit = length pre + length (entry_bytes s k v) + m" "limit < 2 ^ 32" and long: "3 \<le> length (entry_bytes s k v)"
  shows "DecodeEntry data (length pre) limit =
    Some (length pre + length (entry_bytes s k v) - (length k - s + length v), of_nat s, of_nat (length k - s), of_nat (length v))"
proof -
  let ?rest = "entry_bytes s k v @ take m post"
  have r: "?rest = take (limit - length pre) (drop (length pre) data)" using assms by simp
  have "read_entry ?rest = Some (of_nat s, of_nat (length k - s), of_nat (length v), drop s k @ v @ take m post)"
    using GetVarint32_Encode by (simp add: read_entry_def entry_bytes_def GetVarint32_def)
  moreover have "\<not> (of_nat (length (drop s k @ v @ take m post)) :: u32) < of_nat (length k - s) + of_nat (length v)"
  proof -
    have "length (drop s k @ v @ take m post) < 2 ^ 32" using lim assms(2) by (simp add: entry_bytes_def)
    moreover have "(of_nat (length k - s) + of_nat (length v) :: u32) = of_nat (length k - s + length v)" by simp
    moreover have "length k - s + length v < 2 ^ 32" using lim by (simp add: entry_bytes_def)
    ultimately show ?thesis by (simp only: word_less_nat_alt unat_of_nat_u32) simp
  qed
  ultimately show ?thesis
    using DecodeEntry_general [OF r] long lim assms(2) by simp
qed

text \<open>A block as the reader sees it.\<close>

definition block_of :: "nat \<Rightarrow> (bytes \<times> bytes) list \<Rightarrow> bytes \<Rightarrow> bool" where
  "block_of R kvs data \<longleftrightarrow> 1 \<le> R \<and> data = block_bytes R kvs \<and> length data < 2 ^ 32"

lemma shared_at_le: "shared_at R kvs i \<le> length (fst (kvs ! i))" "shared_at R kvs i \<noteq> 0 \<Longrightarrow> 0 < i \<and> shared_at R kvs i \<le> length (fst (kvs ! (i - 1)))"
  using shared_prefix_spec [of "fst (kvs ! (i - 1))" "fst (kvs ! i)"] by (auto simp: shared_at_def split: if_splits intro: gr0I)

lemma key_bound: "length (fst (kvs ! i)) \<le> off R kvs (Suc i)"
proof (induction i)
  case 0
  then show ?case by (simp add: off_Suc ebytes_def entry_bytes_def shared_at_def)
next
  case (Suc i)
  have "shared_at R kvs (Suc i) \<le> off R kvs (Suc i)" using Suc shared_at_le(2) [of R kvs "Suc i"] by (cases "shared_at R kvs (Suc i) = 0") auto
  then show ?case by (simp add: off_Suc [of R kvs "Suc i"] ebytes_def entry_bytes_def)
qed

lemma block_parts:
  assumes "block_of R kvs data" "i < length kvs"
  shows "\<exists>post. data = body R kvs i @ ebytes R kvs i @ post \<and> off R kvs (length kvs) - off R kvs (Suc i) \<le> length post"
proof -
  have b: "body R kvs (length kvs) = body R kvs i @ ebytes R kvs i @ concat (map (ebytes R kvs) [Suc i..<length kvs])"
    using assms(2) body_split [of "Suc i" "length kvs" R kvs] by (simp add: body_Suc)
  then have "data = body R kvs i @ ebytes R kvs i @ concat (map (ebytes R kvs) [Suc i..<length kvs]) @ restart_bytes (restart_list R kvs) @
     EncodeFixed32 kLittleEndian (of_nat (num_restarts R (length kvs)))"
    using assms(1) by (simp add: block_of_def block_bytes_def)
  moreover have "off R kvs (length kvs) - off R kvs (Suc i) = length (concat (map (ebytes R kvs) [Suc i..<length kvs]))"
    unfolding off_def b body_Suc by simp
  ultimately show ?thesis by (metis le_add1 length_append)
qed

lemma block_size:
  assumes "block_of R kvs data" "i \<le> length kvs"
  shows "off R kvs i < 2 ^ 32"
proof -
  have "off R kvs (length kvs) \<le> length data" using assms(1) by (simp add: block_of_def block_bytes_def off_def)
  moreover have "off R kvs i \<le> off R kvs (length kvs)" "length data < 2 ^ 32" using assms by (auto simp: block_of_def)
  ultimately show ?thesis by linarith
qed

text \<open>Where the value of an entry is.\<close>

definition voff :: "nat \<Rightarrow> (bytes \<times> bytes) list \<Rightarrow> nat \<Rightarrow> nat" where
  "voff R kvs i = off R kvs (Suc i) - length (snd (kvs ! i))"

lemma voff_end: "voff R kvs i + length (snd (kvs ! i)) = off R kvs (Suc i)"
  by (simp add: voff_def off_Suc ebytes_def entry_bytes_def)

lemma entry_at:
  assumes blk: "block_of R kvs data" and i: "i < length kvs"
  shows "\<exists>p. DecodeEntry data (off R kvs i) (off R kvs (length kvs)) =
      Some (p, of_nat (shared_at R kvs i), of_nat (length (fst (kvs ! i)) - shared_at R kvs i), of_nat (length (snd (kvs ! i)))) \<and>
    p + (length (fst (kvs ! i)) - shared_at R kvs i) = voff R kvs i \<and>
    slice_bytes data p (length (fst (kvs ! i)) - shared_at R kvs i) = Inr (drop (shared_at R kvs i) (fst (kvs ! i))) \<and>
    slice_bytes data (voff R kvs i) (length (snd (kvs ! i))) = Inr (snd (kvs ! i))"
proof -
  define s where "s = shared_at R kvs i"
  define k where "k = fst (kvs ! i)"
  define v where "v = snd (kvs ! i)"
  obtain post where d: "data = body R kvs i @ entry_bytes s k v @ post" "off R kvs (length kvs) - off R kvs (Suc i) \<le> length post"
    using block_parts [OF assms] by (auto simp: ebytes_def s_def k_def v_def)
  have e: "off R kvs (Suc i) = length (body R kvs i) + length (entry_bytes s k v)"
    by (simp add: off_Suc ebytes_def s_def k_def v_def) (simp add: off_def)
  have lim: "off R kvs (length kvs) = length (body R kvs i) + length (entry_bytes s k v) + (off R kvs (length kvs) - off R kvs (Suc i))"
  proof -
    have "off R kvs (Suc i) \<le> off R kvs (length kvs)" using i by simp
    then show ?thesis using e by linarith
  qed
  have sk: "s \<le> length k" using shared_at_le(1) by (simp add: s_def k_def)
  have "3 \<le> length (entry_bytes s k v)" using ebytes_length [of R kvs i] by (simp add: ebytes_def s_def k_def v_def)
  then have dec: "DecodeEntry data (off R kvs i) (off R kvs (length kvs)) =
      Some (length (body R kvs i) + length (entry_bytes s k v) - (length k - s + length v), of_nat s, of_nat (length k - s), of_nat (length v))"
    using DecodeEntry_entry [OF d(1) d(2) sk lim] block_size [OF blk order_refl] unfolding off_def by blast
  define h where "h = EncodeVarint32 (of_nat s) @ EncodeVarint32 (of_nat (length k - s)) @ EncodeVarint32 (of_nat (length v))"
  have eb: "entry_bytes s k v = h @ drop s k @ v" by (simp add: entry_bytes_def h_def)
  have p: "length (body R kvs i) + length (entry_bytes s k v) - (length k - s + length v) = length (body R kvs i @ h)" by (simp add: eb)
  have "voff R kvs i = length (body R kvs i @ h @ drop s k)" unfolding voff_def e v_def [symmetric] by (simp add: eb)
  then show ?thesis
    unfolding s_def [symmetric] k_def [symmetric] v_def [symmetric] using dec p d(1) by (auto simp: slice_bytes_def eb)
qed

lemma restart_bytes_length [simp]: "length (restart_bytes rs) = 4 * length rs"
  by (induction rs) (simp_all add: restart_bytes_def)

lemma restart_bytes_drop:
  "j < length rs \<Longrightarrow>
   drop (j * 4) (restart_bytes rs) = EncodeFixed32 kLittleEndian (of_nat (rs ! j)) @ drop (j * 4 + 4) (restart_bytes rs)"
proof (induction rs arbitrary: j)
  case (Cons r rs)
  then show ?case by (cases j) (simp_all add: restart_bytes_def add.commute)
qed simp

lemma restart_at:
  assumes blk: "block_of R kvs data" and it: "bi_data it = data" "bi_restarts it = off R kvs (length kvs)" "bi_num it = num_restarts R (length kvs)"
    and j: "j < num_restarts R (length kvs)"
  shows "GetRestartPoint j it = Inr (off R kvs (j * R))"
proof -
  let ?n = "num_restarts R (length kvs)"
  have "length (restart_list R kvs) = ?n" "restart_list R kvs ! j = off R kvs (j * R)" using j by (simp_all add: restart_list_def)
  then have "drop (off R kvs (length kvs) + j * 4) data = EncodeFixed32 kLittleEndian (of_nat (off R kvs (j * R))) @
      drop (j * 4 + 4) (restart_bytes (restart_list R kvs)) @ EncodeFixed32 kLittleEndian (of_nat ?n)"
    using blk j restart_bytes_drop [of j "restart_list R kvs"] by (simp add: block_of_def block_bytes_def off_def)
  moreover have "off R kvs (j * R) < 2 ^ 32"
    using restart_before [OF j] block_size [OF blk, of "j * R"] j by (cases "kvs = []") (auto simp: num_restarts_def)
  ultimately show ?thesis using it j by (simp add: GetRestartPoint_def codec_simps unat_of_nat_u32)
qed

section \<open>The cursor\<close>

text \<open>What an iterator on a block always is, and the restart point it remembers.\<close>

definition on_block :: "comparator \<Rightarrow> nat \<Rightarrow> (bytes \<times> bytes) list \<Rightarrow> bytes \<Rightarrow> block_iter \<Rightarrow> bool" where
  "on_block C R kvs data it \<longleftrightarrow> block_of R kvs data \<and> bi_comparator it = C \<and> bi_data it = data \<and>
     bi_restarts it = off R kvs (length kvs) \<and> bi_num it = num_restarts R (length kvs) \<and> bi_status it = OK"

definition restart_ok :: "nat \<Rightarrow> (bytes \<times> bytes) list \<Rightarrow> block_iter \<Rightarrow> nat \<Rightarrow> bool" where
  "restart_ok R kvs it i \<longleftrightarrow> bi_restart_index it < num_restarts R (length kvs) \<and> bi_restart_index it * R \<le> i"

text \<open>An iterator at entry \<open>i\<close>, and one whose next entry is \<open>i\<close>.\<close>

definition at_entry :: "comparator \<Rightarrow> nat \<Rightarrow> (bytes \<times> bytes) list \<Rightarrow> bytes \<Rightarrow> block_iter \<Rightarrow> nat \<Rightarrow> bool" where
  "at_entry C R kvs data it i \<longleftrightarrow> on_block C R kvs data it \<and> i < length kvs \<and> bi_current it = off R kvs i \<and>
     bi_key it = fst (kvs ! i) \<and> bi_value it = (Some (voff R kvs i), length (snd (kvs ! i))) \<and> restart_ok R kvs it i"

definition before_entry :: "comparator \<Rightarrow> nat \<Rightarrow> (bytes \<times> bytes) list \<Rightarrow> bytes \<Rightarrow> block_iter \<Rightarrow> nat \<Rightarrow> bool" where
  "before_entry C R kvs data it i \<longleftrightarrow> on_block C R kvs data it \<and> i \<le> length kvs \<and> NextEntryOffset it = Inr (off R kvs i) \<and>
     (i < length kvs \<longrightarrow> shared_at R kvs i \<le> length (bi_key it) \<and>
        take (shared_at R kvs i) (bi_key it) = take (shared_at R kvs i) (fst (kvs ! i))) \<and> restart_ok R kvs it i"

definition past_end :: "comparator \<Rightarrow> nat \<Rightarrow> (bytes \<times> bytes) list \<Rightarrow> bytes \<Rightarrow> block_iter \<Rightarrow> bool" where
  "past_end C R kvs data it \<longleftrightarrow> on_block C R kvs data it \<and> bi_current it = off R kvs (length kvs)"

lemma advance_restart_spec:
  assumes "on_block C R kvs data it" "bi_current it = off R kvs i" "i < length kvs" "restart_ok R kvs it i"
  shows "\<exists>r. advance_restart it = Inr (it\<lparr>bi_restart_index := r\<rparr>) \<and> restart_ok R kvs (it\<lparr>bi_restart_index := r\<rparr>) i"
  using assms
proof (induction it rule: advance_restart.induct)
  case (1 it)
  let ?j = "bi_restart_index it + 1"
  note blk = "1.prems"(1) [unfolded on_block_def]
  show ?case
  proof (cases "?j < bi_num it")
    case True
    then have r: "GetRestartPoint ?j it = Inr (off R kvs (?j * R))" using blk by (intro restart_at [of R kvs data]) auto
    show ?thesis
    proof (cases "off R kvs (?j * R) < bi_current it")
      case less: True
      let ?it = "it\<lparr>bi_restart_index := ?j\<rparr>"
      have "?j * R \<le> i" using less "1.prems"(2) by simp
      then have "restart_ok R kvs ?it i" using True blk by (simp add: restart_ok_def)
      moreover have "on_block C R kvs data ?it" "bi_current ?it = off R kvs i" using "1.prems" by (simp_all add: on_block_def)
      ultimately obtain q where "advance_restart ?it = Inr (?it\<lparr>bi_restart_index := q\<rparr>)" "restart_ok R kvs (?it\<lparr>bi_restart_index := q\<rparr>) i"
        using "1.IH" [OF True r less] "1.prems"(3) by blast
      then show ?thesis using True r less by (subst advance_restart.simps) auto
    next
      case False
      then have "advance_restart it = Inr (it\<lparr>bi_restart_index := bi_restart_index it\<rparr>)" using True r by (subst advance_restart.simps) simp
      then show ?thesis using "1.prems"(4) by (intro exI [of _ "bi_restart_index it"]) simp
    qed
  next
    case False
    then have "advance_restart it = Inr (it\<lparr>bi_restart_index := bi_restart_index it\<rparr>)" by (subst advance_restart.simps) simp
    then show ?thesis using "1.prems"(4) by (intro exI [of _ "bi_restart_index it"]) simp
  qed
qed

lemma parse_entry:
  assumes bef: "before_entry C R kvs data it i" and i: "i < length kvs"
  shows "\<exists>it'. ParseNextKey it = Inr (True, it') \<and> at_entry C R kvs data it' i"
proof -
  let ?s = "shared_at R kvs i" and ?k = "fst (kvs ! i)" and ?v = "snd (kvs ! i)"
  have on: "on_block C R kvs data it" and nx: "NextEntryOffset it = Inr (off R kvs i)" and key: "?s \<le> length (bi_key it)" "take ?s (bi_key it) = take ?s ?k"
    and ri: "restart_ok R kvs it i" using bef i by (auto simp: before_entry_def)
  have blk: "block_of R kvs data" and d: "bi_data it = data" "bi_restarts it = off R kvs (length kvs)" using on by (auto simp: on_block_def)
  obtain p where e: "DecodeEntry data (off R kvs i) (off R kvs (length kvs)) =
      Some (p, of_nat ?s, of_nat (length ?k - ?s), of_nat (length ?v))" "p + (length ?k - ?s) = voff R kvs i"
      "slice_bytes data p (length ?k - ?s) = Inr (drop ?s ?k)"
    using entry_at [OF blk i] by blast
  have "off R kvs (Suc i) < 2 ^ 32" using block_size [OF blk] i by simp
  then have "length ?k < 2 ^ 32" "length ?v < 2 ^ 32" using key_bound [of kvs i R] voff_end [of R kvs i] by linarith+
  moreover have "?s \<le> length ?k" by (rule shared_at_le)
  ultimately have u: "unat (of_nat ?s :: u32) = ?s" "unat (of_nat (length ?k - ?s) :: u32) = length ?k - ?s" "unat (of_nat (length ?v) :: u32) = length ?v"
    by (intro unat_of_nat_u32; linarith)+
  let ?it = "it\<lparr>bi_current := off R kvs i, bi_key := ?k, bi_value := (Some (voff R kvs i), length ?v)\<rparr>"
  have "on_block C R kvs data ?it" "restart_ok R kvs ?it i" using on ri by (simp_all add: on_block_def restart_ok_def)
  then obtain r where a: "advance_restart ?it = Inr (?it\<lparr>bi_restart_index := r\<rparr>)" "restart_ok R kvs (?it\<lparr>bi_restart_index := r\<rparr>) i"
    using advance_restart_spec [of C R kvs data ?it i] i by auto
  have "take ?s (bi_key it) @ drop ?s ?k = ?k" by (simp add: key(2))
  then have "ParseNextKey it = Inr (True, ?it\<lparr>bi_restart_index := r\<rparr>)"
    using nx d e i key(1) a(1) by (simp add: ParseNextKey_def Let_def u)
  moreover have "at_entry C R kvs data (?it\<lparr>bi_restart_index := r\<rparr>) i" using on i a(2) by (simp add: at_entry_def on_block_def)
  ultimately show ?thesis by blast
qed

lemma parse_past_end:
  assumes "before_entry C R kvs data it (length kvs)"
  shows "\<exists>it'. ParseNextKey it = Inr (False, it') \<and> past_end C R kvs data it'"
  using assms by (auto simp: ParseNextKey_def before_entry_def on_block_def past_end_def Let_def)

lemma at_before:
  assumes "at_entry C R kvs data it i"
  shows "before_entry C R kvs data it (Suc i)" "NextEntryOffset it = Inr (off R kvs (Suc i))"
proof -
  have blk: "block_of R kvs data" and i: "i < length kvs" using assms by (auto simp: at_entry_def on_block_def)
  show nx: "NextEntryOffset it = Inr (off R kvs (Suc i))"
    using assms voff_end [of R kvs i] block_size [OF blk, of "Suc i"] i by (simp add: NextEntryOffset_def at_entry_def)
  have "shared_at R kvs (Suc i) \<le> length (fst (kvs ! i)) \<and> take (shared_at R kvs (Suc i)) (fst (kvs ! i)) = take (shared_at R kvs (Suc i)) (fst (kvs ! Suc i))"
    using shared_prefix_spec [of "fst (kvs ! i)" "fst (kvs ! Suc i)"] by (simp add: shared_at_def)
  then show "before_entry C R kvs data it (Suc i)" using assms nx by (auto simp: before_entry_def at_entry_def restart_ok_def)
qed

lemma seek_restart:
  assumes on: "on_block C R kvs data it" and j: "j < num_restarts R (length kvs)"
  shows "\<exists>it'. SeekToRestartPoint j it = Inr it' \<and> before_entry C R kvs data it' (j * R)"
proof -
  have blk: "block_of R kvs data" using on by (simp add: on_block_def)
  have "j * R \<le> length kvs" using restart_before [OF j] j by (cases "kvs = []") (auto simp: num_restarts_def)
  moreover have "GetRestartPoint j it = Inr (off R kvs (j * R))" using on j by (intro restart_at [OF blk]) (auto simp: on_block_def)
  ultimately show ?thesis
    using on j block_size [OF blk, of "j * R"] by (simp add: SeekToRestartPoint_def before_entry_def on_block_def NextEntryOffset_def restart_ok_def shared_at_def)
qed

lemma skip_run:
  assumes "before_entry C R kvs data it i" "i < m" "m \<le> length kvs"
  shows "\<exists>it'. run_loop (skip_turn (off R kvs m)) it = Some (Inr it') \<and> at_entry C R kvs data it' (m - 1)"
  using assms
proof (induction "m - i" arbitrary: i it)
  case (Suc d)
  then obtain it' where p: "ParseNextKey it = Inr (True, it')" "at_entry C R kvs data it' i" using parse_entry [of C R kvs data it i] by auto
  note n = at_before [OF p(2)]
  show ?case
  proof (cases "Suc i < m")
    case True
    then have "skip_turn (off R kvs m) it = Inr (Inl it')" using p n by (simp add: skip_turn_def)
    then show ?thesis using Suc.hyps(1) [OF _ n(1) True] Suc.hyps(2) Suc.prems(3) run_loop_simps(2) [of "skip_turn (off R kvs m)" it] by auto
  next
    case False
    then have "skip_turn (off R kvs m) it = Inr (Inr it')" using p n by (simp add: skip_turn_def)
    moreover have "i = m - 1" using False Suc.prems(2) by simp
    ultimately show ?thesis using p(2) run_loop_simps(3) [of "skip_turn (off R kvs m)" it] by auto
  qed
qed simp

text \<open>The position of an iterator: an entry, or the number of entries when it is not valid.\<close>

definition block_at :: "comparator \<Rightarrow> nat \<Rightarrow> (bytes \<times> bytes) list \<Rightarrow> bytes \<Rightarrow> block_iter \<Rightarrow> nat \<Rightarrow> bool" where
  "block_at C R kvs data it i \<longleftrightarrow> at_entry C R kvs data it i \<or> i = length kvs \<and> past_end C R kvs data it"

lemma block_at_on: "block_at C R kvs data it i \<Longrightarrow> on_block C R kvs data it \<and> i \<le> length kvs"
  by (auto simp: block_at_def at_entry_def past_end_def)

lemma block_at_valid: "block_at C R kvs data it i \<Longrightarrow> bi_Valid it \<longleftrightarrow> i < length kvs"
  by (auto simp: block_at_def at_entry_def past_end_def bi_Valid_def on_block_def)

lemma block_at_entry: "block_at C R kvs data it i \<Longrightarrow> i < length kvs \<Longrightarrow> at_entry C R kvs data it i"
  by (auto simp: block_at_def)

lemma parse_block_at:
  assumes "before_entry C R kvs data it i"
  shows "\<exists>more it'. ParseNextKey it = Inr (more, it') \<and> more = (i < length kvs) \<and> block_at C R kvs data it' i"
proof (cases "i < length kvs")
  case True
  then show ?thesis using parse_entry [OF assms True] by (auto simp: block_at_def)
next
  case False
  then have "i = length kvs" using assms by (simp add: before_entry_def)
  then show ?thesis using parse_past_end [of C R kvs data it] assms by (auto simp: block_at_def)
qed

lemma bi_Next_at:
  assumes "block_at C R kvs data it i" "i < length kvs"
  shows "\<exists>it'. bi_Next it = Inr it' \<and> block_at C R kvs data it' (Suc i)"
  using parse_block_at [OF at_before(1) [OF block_at_entry [OF assms]]] block_at_valid [OF assms(1)] assms(2) by (auto simp: bi_Next_def)

lemma num_restarts_pos [simp]: "0 < num_restarts R n"
  by (simp add: num_restarts_def)

lemma bi_SeekToFirst_at:
  assumes "on_block C R kvs data it"
  shows "\<exists>it'. bi_SeekToFirst it = Inr it' \<and> block_at C R kvs data it' 0"
  using seek_restart [OF assms num_restarts_pos] parse_block_at [of C R kvs data _ 0] by (fastforce simp: bi_SeekToFirst_def)

lemma bi_SeekToLast_at:
  assumes on: "on_block C R kvs data it"
  shows "\<exists>it'. bi_SeekToLast it = Some (Inr it') \<and> block_at C R kvs data it' (length kvs - 1)"
proof -
  let ?n = "length kvs" and ?j = "num_restarts R (length kvs) - 1"
  have j: "?j < num_restarts R ?n" by simp
  obtain it1 where s: "SeekToRestartPoint ?j it = Inr it1" "before_entry C R kvs data it1 (?j * R)"
    using seek_restart [OF on j] by blast
  have b: "bi_num it = num_restarts R ?n" "bi_restarts it = off R kvs ?n" using on by (auto simp: on_block_def)
  have "\<exists>it'. run_loop (skip_turn (off R kvs ?n)) it1 = Some (Inr it') \<and> block_at C R kvs data it' (?n - 1)"
  proof (cases "kvs = []")
    case True
    then have "before_entry C R kvs data it1 (length kvs)" using s(2) by (simp add: num_restarts_def)
    then obtain it2 where "ParseNextKey it1 = Inr (False, it2)" "past_end C R kvs data it2" using parse_past_end by blast
    then show ?thesis using True run_loop_simps(3) [of "skip_turn (off R kvs ?n)" it1 it2] by (auto simp: skip_turn_def block_at_def)
  next
    case False
    then have "?j * R < ?n" using restart_before [OF j] by simp
    then show ?thesis using skip_run [OF s(2) _ order_refl] by (auto simp: block_at_def)
  qed
  then show ?thesis using s(1) b by (auto simp: bi_SeekToLast_def)
qed

lemma back_restart_spec:
  assumes "on_block C R kvs data it" "index < num_restarts R (length kvs)" "index * R \<le> i"
  shows "\<exists>r. back_restart (off R kvs i) index it = Inr r \<and>
    (case r of None \<Rightarrow> i = 0 | Some j \<Rightarrow> j < num_restarts R (length kvs) \<and> j * R < i)"
  using assms(2,3)
proof (induction index)
  case 0
  then have "GetRestartPoint 0 it = Inr 0" using assms(1) restart_at [of R kvs data it 0] by (auto simp: on_block_def)
  then show ?case using 0 off_le [of R kvs i 0] by auto
next
  case (Suc index)
  then have r: "GetRestartPoint (Suc index) it = Inr (off R kvs (Suc index * R))"
    using assms(1) by (intro restart_at [of R kvs data]) (auto simp: on_block_def)
  show ?case
  proof (cases "i \<le> Suc index * R")
    case True
    have "\<exists>r. back_restart (off R kvs i) index it = Inr r \<and> (case r of None \<Rightarrow> i = 0 | Some j \<Rightarrow> j < num_restarts R (length kvs) \<and> j * R < i)"
      using Suc by simp
    then show ?thesis using r True by (subst back_restart.simps) (simp del: back_restart.simps)
  next
    case False
    then show ?thesis using r Suc.prems by (subst back_restart.simps) (simp del: back_restart.simps)
  qed
qed

lemma bi_Prev_at:
  assumes at: "block_at C R kvs data it i" and i: "i < length kvs"
  shows "\<exists>it'. bi_Prev it = Some (Inr it') \<and> block_at C R kvs data it' (if i = 0 then length kvs else i - 1)"
proof -
  note e = block_at_entry [OF at i, unfolded at_entry_def restart_ok_def]
  have on: "on_block C R kvs data it" using e by simp
  obtain r where r: "back_restart (off R kvs i) (bi_restart_index it) it = Inr r"
    "case r of None \<Rightarrow> i = 0 | Some j \<Rightarrow> j < num_restarts R (length kvs) \<and> j * R < i"
    using back_restart_spec [OF on, of "bi_restart_index it" i] e by blast
  have v: "bi_Valid it" using block_at_valid [OF at] i by simp
  show ?thesis
  proof (cases r)
    case None
    then show ?thesis using r v e on by (auto simp: bi_Prev_def block_at_def past_end_def on_block_def simp del: back_restart.simps)
  next
    case (Some j)
    obtain it1 where s: "SeekToRestartPoint j it = Inr it1" "before_entry C R kvs data it1 (j * R)"
      using seek_restart [OF on, of j] r(2) Some by auto
    obtain it2 where "run_loop (skip_turn (off R kvs i)) it1 = Some (Inr it2)" "at_entry C R kvs data it2 (i - 1)"
      using skip_run [OF s(2), of i] r(2) Some i by auto
    then show ?thesis using r v e s Some by (auto simp: bi_Prev_def block_at_def simp del: back_restart.simps)
  qed
qed

section \<open>Seeking\<close>

definition search_inv :: "comparator \<Rightarrow> nat \<Rightarrow> (bytes \<times> bytes) list \<Rightarrow> bytes \<Rightarrow> nat \<times> nat \<Rightarrow> bool" where
  "search_inv C R kvs target = (\<lambda>(left, right). left \<le> right \<and> right < num_restarts R (length kvs) \<and> left * R \<le> lower_bound C target kvs)"

lemma num_restarts_bound: "block_of R kvs data \<Longrightarrow> num_restarts R (length kvs) * 4 < 2 ^ 32"
  by (auto simp: block_of_def block_bytes_def restart_list_def)

lemma search_turn_step:
  assumes on: "on_block C R kvs data it" and split: "split_by C target kvs" and inv: "search_inv C R kvs target (left, right)" and more: "left < right"
  shows "\<exists>left' right'. search_turn target it (left, right) = Inr (Inl (left', right')) \<and> search_inv C R kvs target (left', right') \<and>
    right' - left' < right - left"
proof -
  have blk: "block_of R kvs data" and b: "bi_data it = data" "bi_restarts it = off R kvs (length kvs)" "bi_num it = num_restarts R (length kvs)" "bi_comparator it = C"
    using on by (auto simp: on_block_def)
  define mid where "mid = (left + right + 1) div 2"
  have r: "right < num_restarts R (length kvs)" using inv by (simp add: search_inv_def)
  have mid: "left < mid" "mid \<le> right" using more by (auto simp: mid_def)
  have n: "num_restarts R (length kvs) * 4 < 2 ^ 32" by (rule num_restarts_bound [OF blk])
  have m32: "(left + right + 1) mod 2 ^ 32 div 2 = mid" "(mid + 2 ^ 32 - 1) mod 2 ^ 32 = mid - 1"
  proof -
    have "left + right + 1 < 2 ^ 32" using n r more by linarith
    then show "(left + right + 1) mod 2 ^ 32 div 2 = mid" by (simp add: mid_def)
    have "mid + 2 ^ 32 - 1 = (mid - 1) + 2 ^ 32" "mid - 1 < 2 ^ 32" using mid n r by linarith+
    then show "(mid + 2 ^ 32 - 1) mod 2 ^ 32 = mid - 1" by (simp only: mod_add_self2 mod_less)
  qed
  have j: "mid < num_restarts R (length kvs)" using mid r by simp
  have g: "GetRestartPoint mid it = Inr (off R kvs (mid * R))" by (rule restart_at [OF blk b(1-3) j])
  have ne: "length kvs \<noteq> 0" using j mid by (auto simp: num_restarts_def split: if_splits)
  then have i: "mid * R < length kvs" using restart_before [OF j] by simp
  define k where "k = fst (kvs ! (mid * R))"
  have s0: "shared_at R kvs (mid * R) = 0" by (simp add: shared_at_def)
  obtain q w where e: "DecodeEntry data (off R kvs (mid * R)) (off R kvs (length kvs)) = Some (q, 0, of_nat (length k), w)"
    "slice_bytes data q (length k) = Inr k" using entry_at [OF blk i] by (auto simp: s0 k_def)
  have "length k < 2 ^ 32" using key_bound [of kvs "mid * R" R] block_size [OF blk, of "Suc (mid * R)"] i by (simp add: k_def)
  then have u: "unat (of_nat (length k) :: u32) = length k" by (rule unat_of_nat_u32)
  have turn: "search_turn target it (left, right) = Inr (Inl (if Compare C k target < 0 then (mid, right) else (left, mid - 1)))"
    unfolding search_turn_def Let_def prod.case m32 b(1,2,4) using more g e m32(2) by (simp add: u)
  have "Compare C k target < 0 \<longleftrightarrow> mid * R < lower_bound C target kvs" using below_iff [OF split i] by (simp add: below_def k_def)
  then show ?thesis using turn inv mid by (auto simp: search_inv_def)
qed

lemma search_run:
  assumes on: "on_block C R kvs data it" and split: "split_by C target kvs"
  shows "\<exists>left. run_loop (search_turn target it) (0, bi_num it - 1) = Some (Inr (Some left)) \<and>
    left < num_restarts R (length kvs) \<and> left * R \<le> lower_bound C target kvs"
proof -
  let ?Q = "\<lambda>x. \<exists>left. x = Some left \<and> left < num_restarts R (length kvs) \<and> left * R \<le> lower_bound C target kvs"
  have "\<exists>x. run_loop (search_turn target it) (0, bi_num it - 1) = Some (Inr x) \<and> ?Q x"
  proof (rule run_loop_total [where r = "measure (\<lambda>(l, r). r - l)" and I = "search_inv C R kvs target"])
    show "search_inv C R kvs target (0, bi_num it - 1)" using on by (simp add: search_inv_def on_block_def)
  next
    fix s assume inv: "search_inv C R kvs target s"
    obtain left right where s: "s = (left, right)" by (cases s)
    show "(\<exists>s'. search_turn target it s = Inr (Inl s') \<and> search_inv C R kvs target s' \<and> (s', s) \<in> measure (\<lambda>(l, r). r - l)) \<or>
      (\<exists>x. search_turn target it s = Inr (Inr x) \<and> ?Q x)"
    proof (cases "left < right")
      case True
      then show ?thesis using search_turn_step [OF on split inv [unfolded s]] s by auto
    next
      case False
      then show ?thesis using inv s by (auto simp: search_turn_def search_inv_def)
    qed
  qed simp
  then show ?thesis by blast
qed

lemma scan_run:
  assumes "before_entry C R kvs data it i" "i \<le> lower_bound C target kvs" and split: "split_by C target kvs"
  shows "\<exists>it'. run_loop (scan_turn target) it = Some (Inr it') \<and> block_at C R kvs data it' (lower_bound C target kvs)"
  using assms(1,2)
proof (induction "lower_bound C target kvs - i" arbitrary: i it)
  case 0
  then have i: "i = lower_bound C target kvs" by simp
  obtain more it' where p: "ParseNextKey it = Inr (more, it')" "more = (i < length kvs)" "block_at C R kvs data it' i"
    using parse_block_at [OF 0(2)] by blast
  have "\<not> (more \<and> Compare (bi_comparator it) (bi_key it') target < 0)"
    using p below_iff [OF split, of i] i block_at_entry [OF p(3)] 0(2) by (auto simp: at_entry_def before_entry_def on_block_def below_def)
  then have "scan_turn target it = Inr (Inr it')" using p(1) by (auto simp: scan_turn_def)
  then show ?case using p(3) i run_loop_simps(3) [of "scan_turn target" it it'] by auto
next
  case (Suc d)
  then have i: "i < lower_bound C target kvs" "i < length kvs" using lower_bound_le [of C target kvs] by linarith+
  then obtain it' where p: "ParseNextKey it = Inr (True, it')" "at_entry C R kvs data it' i" using parse_entry [OF Suc.prems(1)] by blast
  have "Compare (bi_comparator it) (bi_key it') target < 0"
    using p(2) below_iff [OF split i(2)] i(1) Suc.prems(1) by (auto simp: at_entry_def before_entry_def on_block_def below_def)
  then have "scan_turn target it = Inr (Inl it')" using p by (simp add: scan_turn_def)
  then show ?case using Suc.hyps(1) [OF _ at_before(1) [OF p(2)]] Suc.hyps(2) i run_loop_simps(2) [of "scan_turn target" it it'] by auto
qed

lemma bi_Seek_at:
  assumes on: "on_block C R kvs data it" and split: "split_by C target kvs"
  shows "\<exists>it'. bi_Seek target it = Some (Inr it') \<and> block_at C R kvs data it' (lower_bound C target kvs)"
proof -
  obtain left where l: "run_loop (search_turn target it) (0, bi_num it - 1) = Some (Inr (Some left))"
    "left < num_restarts R (length kvs)" "left * R \<le> lower_bound C target kvs" using search_run [OF assms] by blast
  obtain it1 where "SeekToRestartPoint left it = Inr it1" "before_entry C R kvs data it1 (left * R)" using seek_restart [OF on l(2)] by blast
  then show ?thesis using l scan_run [OF _ l(3) split] by (auto simp: bi_Seek_def)
qed

text \<open>Reading the block the builder wrote.\<close>

lemma new_block_at:
  assumes blk: "block_of R kvs data"
  shows "\<exists>b it. Block_new data = Inr b \<and> Block_NewIterator C b = Inr (Inr it) \<and> block_at C R kvs data it (length kvs)"
proof -
  define n where "n = num_restarts R (length kvs)"
  define pre where "pre = body R kvs (length kvs) @ restart_bytes (restart_list R kvs)"
  have d: "data = pre @ EncodeFixed32 kLittleEndian (of_nat n)" "length pre = off R kvs (length kvs) + n * 4"
    using blk by (simp_all add: block_of_def block_bytes_def pre_def n_def off_def restart_list_def)
  have n: "0 < n" "n * 4 < 2 ^ 32" using num_restarts_bound [OF blk] by (simp_all add: n_def)
  then have u: "unat (of_nat n :: u32) = n" by (intro unat_of_nat_u32) linarith
  have r: "NumRestarts data (length data) = Inr n" using DecodeFixed32_Encode [of _ _ "of_nat n" "[]"] by (simp add: NumRestarts_def d u)
  have "(1 + n) mod 2 ^ 32 = 1 + n" using n(2) by simp
  then have "length data - (1 + n) mod 2 ^ 32 * 4 = off R kvs (length kvs)" using d by simp
  then have b: "Block_new data = Inr \<lparr>bl_data = data, bl_size = length data, bl_restart_offset = off R kvs (length kvs)\<rparr>"
    using r d block_size [OF blk order_refl] by (simp add: Block_new_def Let_def)
  have "length data \<ge> 4" by (simp add: d)
  then show ?thesis using b r n(1) blk
    by (simp add: Block_NewIterator_def Iter_new_def block_at_def past_end_def on_block_def n_def)
qed

lemma block_at_value:
  assumes "block_at C R kvs data it i" "i < length kvs"
  shows "bi_get_key it = Inr (fst (kvs ! i))" "bi_get_value it = Inr (snd (kvs ! i))"
  using block_at_entry [OF assms] block_at_valid [OF assms(1)] entry_at [of R kvs data i] assms(2)
  by (auto simp: bi_get_key_def bi_get_value_def at_entry_def on_block_def)

text \<open>The iterator of a sorted block is a cursor over its entries.\<close>

lemma Iter_cursor:
  assumes "comparator_laws C ok" "sorted_keys C kvs \<and> (\<forall>kv \<in> set kvs. ok (fst kv))"
  shows "cursor Iter_class C ok kvs (block_at C R kvs data)"
proof -
  have split: "ok t \<Longrightarrow> split_by C t kvs" for t using comparator_laws.sorted_split [OF assms(1)] assms(2) by blast
  show ?thesis
    unfolding Iter_class_def
    apply unfold_locales
    subgoal for s i using block_at_on [of C R kvs data s i] by simp
    subgoal for s i using block_at_valid [of C R kvs data s i] by simp
    subgoal for s i using block_at_value [of C R kvs data s i] by simp
    subgoal for s i using block_at_value [of C R kvs data s i] by simp
    subgoal for s i using block_at_on [of C R kvs data s i] by (simp add: on_block_def)
    subgoal for s i using block_at_on [of C R kvs data s i] bi_SeekToFirst_at [of C R kvs data s] by simp
    subgoal for s i using block_at_on [of C R kvs data s i] bi_SeekToLast_at [of C R kvs data s] by simp
    subgoal for t s i using block_at_on [of C R kvs data s i] bi_Seek_at [of C R kvs data s t] split by simp
    subgoal for s i using bi_Next_at [of C R kvs data s i] by simp
    subgoal for s i using bi_Prev_at [of C R kvs data s i] by simp
    done
qed

definition sorted_block :: "comparator \<Rightarrow> (bytes \<Rightarrow> bool) \<Rightarrow> (bytes \<times> bytes) list \<Rightarrow> bool" where
  "sorted_block C ok kvs \<longleftrightarrow> sorted_keys C kvs \<and> (\<forall>kv \<in> set kvs. ok (fst kv))"

abbreviation block_iter_at :: "comparator \<Rightarrow> nat \<Rightarrow> (bytes \<times> bytes) list \<Rightarrow> bytes \<Rightarrow> status + block_iter \<Rightarrow> nat \<Rightarrow> bool" where
  "block_iter_at C R kvs data \<equiv> case_sum (\<lambda>_ _. False) (block_at C R kvs data)"

lemma block_cursor:
  assumes "comparator_laws C ok" "sorted_block C ok kvs"
  shows "cursor block_iterator C ok kvs (block_iter_at C R kvs data)"
  unfolding block_iterator_def using assms by (intro either_right Iter_cursor) (auto simp: sorted_block_def)

interpretation bytewise_block: cursor block_iterator BytewiseComparator "\<lambda>_. True" kvs
  "\<lambda>s i. sorted_block BytewiseComparator (\<lambda>_. True) kvs \<and> block_iter_at BytewiseComparator R kvs data s i"
  by (intro cursor_guard block_cursor bytewise.comparator_laws_axioms)

section \<open>Properties\<close>

text \<open>The calls that build a block from its entries.\<close>

definition build_block :: "comparator \<Rightarrow> nat \<Rightarrow> (bytes \<times> bytes) list \<Rightarrow> mem_error + bytes" where
  "build_block C R kvs = bind_res (BlockBuilder_new C R) (\<lambda>b. bind_res (bb_AddAll kvs b) (\<lambda>b'. Inr (fst (bb_Finish b'))))"

text \<open>Reading from the position an iterator is at to the end, and the whole block.\<close>

fun read_from :: "nat \<Rightarrow> block_iter \<Rightarrow> mem_error + (bytes \<times> bytes) list" where
  "read_from 0 it = Inr []"
| "read_from (Suc n) it =
     (if bi_Valid it then
        bind_res (bi_get_key it) (\<lambda>k. bind_res (bi_get_value it) (\<lambda>v. bind_res (bi_Next it) (\<lambda>it'.
        bind_res (read_from n it') (\<lambda>kvs. Inr ((k, v) # kvs)))))
      else Inr [])"

lemma read_from_at:
  "block_at C R kvs data it i \<Longrightarrow> length kvs - i < n \<Longrightarrow> read_from n it = Inr (drop i kvs)"
proof (induction n arbitrary: it i)
  case (Suc n)
  show ?case
  proof (cases "i < length kvs")
    case True
    obtain it' where "bi_Next it = Inr it'" "block_at C R kvs data it' (Suc i)" using bi_Next_at [OF Suc.prems(1) True] by blast
    then show ?thesis
      using Suc.IH [of it' "Suc i"] Suc.prems True block_at_value [OF Suc.prems(1) True] block_at_valid [OF Suc.prems(1)]
      by (simp add: Cons_nth_drop_Suc)
  next
    case False
    then show ?thesis using block_at_valid [OF Suc.prems(1)] by simp
  qed
qed simp

fun read_back :: "nat \<Rightarrow> block_iter \<Rightarrow> (mem_error + (bytes \<times> bytes) list) option" where
  "read_back 0 it = Some (Inr [])"
| "read_back (Suc n) it =
     (if bi_Valid it then
        bind_run (Some (bi_get_key it)) (\<lambda>k. bind_run (Some (bi_get_value it)) (\<lambda>v. bind_run (bi_Prev it) (\<lambda>it'.
        bind_run (read_back n it') (\<lambda>kvs. Some (Inr ((k, v) # kvs))))))
      else Some (Inr []))"

lemma read_back_at:
  "block_at C R kvs data it i \<Longrightarrow> i < length kvs \<Longrightarrow> Suc i < n \<Longrightarrow> read_back n it = Some (Inr (rev (take (Suc i) kvs)))"
proof (induction n arbitrary: it i)
  case (Suc n)
  obtain it' where it': "bi_Prev it = Some (Inr it')" "block_at C R kvs data it' (if i = 0 then length kvs else i - 1)"
    using bi_Prev_at [OF Suc.prems(1,2)] by blast
  have "read_back n it' = Some (Inr (rev (take i kvs)))"
  proof (cases i)
    case 0
    then have "\<not> bi_Valid it'" using block_at_valid [OF it'(2)] by simp
    then show ?thesis using 0 by (cases n) simp_all
  next
    case (Suc j)
    then show ?thesis using Suc.IH [of it' j] it'(2) Suc.prems by simp
  qed
  then show ?case using it'(1) Suc.prems block_at_value [OF Suc.prems(1,2)] block_at_valid [OF Suc.prems(1)]
    by (simp add: take_Suc_conv_app_nth)
qed simp

lemma build_block_bytes:
  assumes "1 \<le> R" "comparator_laws C ok" "sorted_block C ok kvs"
  shows "build_block C R kvs = Inr (block_bytes R kvs)"
proof -
  obtain b where b: "BlockBuilder_new C R = Inr b" "built C R [] b" using BlockBuilder_new_built [OF assms(1)] by blast
  have "sorted_wrt (\<lambda>x y. 0 < Compare C (fst y) (fst x)) kvs"
    using assms(3) comparator_laws.compare_flip [OF assms(2)] unfolding sorted_block_def sorted_keys_def
    by (auto intro: sorted_wrt_mono_rel [rotated])
  then obtain b' where "bb_AddAll kvs b = Inr b'" "built C R kvs b'" using AddAll_built [OF b(2) assms(1)] by auto
  then show ?thesis using b(1) by (simp add: build_block_def Finish_built)
qed

text \<open>
  C2. A block built from sorted entries is read back by its iterator: forwards from the first entry,
  backwards from the last one, and from the first entry that is not below the target of a seek, found
  by binary search over the restart points; every call returns and none leaves the block.
\<close>

theorem block_roundtrip:
  assumes "1 \<le> R" "comparator_laws C ok" "sorted_block C ok kvs" "ok target"
  shows "\<exists>data. build_block C R kvs = Inr data \<and> (length data < 2 ^ 32 \<longrightarrow>
    (\<exists>b it first last found. Block_new data = Inr b \<and> Block_NewIterator C b = Inr (Inr it) \<and>
      bi_SeekToFirst it = Inr first \<and> read_from (Suc (length kvs)) first = Inr kvs \<and>
      bi_SeekToLast it = Some (Inr last) \<and> read_back (Suc (length kvs)) last = Some (Inr (rev kvs)) \<and>
      bi_Seek target it = Some (Inr found) \<and> read_from (Suc (length kvs)) found = Inr (dropWhile (below C target) kvs)))"
proof -
  let ?data = "block_bytes R kvs"
  have "\<exists>b it first last found. Block_new ?data = Inr b \<and> Block_NewIterator C b = Inr (Inr it) \<and>
      bi_SeekToFirst it = Inr first \<and> read_from (Suc (length kvs)) first = Inr kvs \<and>
      bi_SeekToLast it = Some (Inr last) \<and> read_back (Suc (length kvs)) last = Some (Inr (rev kvs)) \<and>
      bi_Seek target it = Some (Inr found) \<and> read_from (Suc (length kvs)) found = Inr (dropWhile (below C target) kvs)"
    if "length ?data < 2 ^ 32"
  proof -
    have "block_of R kvs ?data" using that assms(1) by (simp add: block_of_def)
    then obtain b it where b: "Block_new ?data = Inr b" "Block_NewIterator C b = Inr (Inr it)" "block_at C R kvs ?data it (length kvs)"
      using new_block_at by blast
    have on: "on_block C R kvs ?data it" using block_at_on [OF b(3)] by simp
    have split: "split_by C target kvs" using comparator_laws.sorted_split [OF assms(2)] assms(3,4) by (simp add: sorted_block_def)
    obtain it1 where f: "bi_SeekToFirst it = Inr it1" "block_at C R kvs ?data it1 0" using bi_SeekToFirst_at [OF on] by blast
    obtain it2 where l: "bi_SeekToLast it = Some (Inr it2)" "block_at C R kvs ?data it2 (length kvs - 1)" using bi_SeekToLast_at [OF on] by blast
    obtain it3 where s: "bi_Seek target it = Some (Inr it3)" "block_at C R kvs ?data it3 (lower_bound C target kvs)"
      using bi_Seek_at [OF on split] by blast
    have "read_back (Suc (length kvs)) it2 = Some (Inr (rev kvs))"
    proof (cases "kvs = []")
      case True
      then show ?thesis using block_at_valid [OF l(2)] by simp
    next
      case False
      then show ?thesis using read_back_at [OF l(2), of "Suc (length kvs)"] by simp
    qed
    moreover have "read_from (Suc (length kvs)) it1 = Inr kvs" using read_from_at [OF f(2), of "Suc (length kvs)"] by simp
    moreover have "read_from (Suc (length kvs)) it3 = Inr (dropWhile (below C target) kvs)"
      using read_from_at [OF s(2), of "Suc (length kvs)"] by (simp add: lower_bound_def dropWhile_eq_drop)
    ultimately show ?thesis using b(1,2) f(1) l(1) s(1) by blast
  qed
  then show ?thesis using build_block_bytes [OF assms(1-3)] by auto
qed

theorem block_roundtrip_witness:
  "\<exists>data b it found. build_block BytewiseComparator 2 [([1], [7]), ([1, 2], []), ([1, 2, 3], [5]), ([4], [6])] = Inr data \<and>
    Block_new data = Inr b \<and> Block_NewIterator BytewiseComparator b = Inr (Inr it) \<and>
    bi_Seek [1, 2, 1] it = Some (Inr found) \<and> read_from 5 found = Inr [([1, 2, 3], [5]), ([4], [6])]"
proof -
  let ?kvs = "[([1], [7]), ([1, 2], []), ([1, 2, 3], [5]), ([4], [6])] :: (bytes \<times> bytes) list"
  have s: "sorted_block BytewiseComparator (\<lambda>_. True) ?kvs" by code_simp
  let ?d = "[0, 1, 1, 1, 7, 1, 1, 0, 2, 0, 3, 1, 1, 2, 3, 5, 0, 1, 1, 4, 6, 0, 0, 0, 0, 9, 0, 0, 0, 2, 0, 0, 0] :: bytes"
  have d: "build_block BytewiseComparator 2 ?kvs = Inr ?d" by code_simp
  have len: "length ?d < 2 ^ 32" by simp
  have "(1 :: nat) \<le> 2" by simp
  from block_roundtrip [OF this bytewise.comparator_laws_axioms s TrueI, of "[1, 2, 1]"] obtain data where
    data: "build_block BytewiseComparator 2 ?kvs = Inr data" and
    read: "length data < 2 ^ 32 \<longrightarrow> (\<exists>b it first last found. Block_new data = Inr b \<and> Block_NewIterator BytewiseComparator b = Inr (Inr it) \<and>
      bi_SeekToFirst it = Inr first \<and> read_from (Suc (length ?kvs)) first = Inr ?kvs \<and>
      bi_SeekToLast it = Some (Inr last) \<and> read_back (Suc (length ?kvs)) last = Some (Inr (rev ?kvs)) \<and>
      bi_Seek [1, 2, 1] it = Some (Inr found) \<and> read_from (Suc (length ?kvs)) found = Inr (dropWhile (below BytewiseComparator [1, 2, 1]) ?kvs))"
    by blast
  have eq: "data = ?d" using data d by simp
  have drop: "dropWhile (below BytewiseComparator [1, 2, 1]) ?kvs = [([1, 2, 3], [5]), ([4], [6])]" by code_simp
  have five: "Suc (length ?kvs) = 5" by simp
  show ?thesis using read [unfolded eq, THEN mp, OF len, unfolded drop five] d by blast
qed


end
