(* ===== verification/Ldb_Two_Level.thy ===== *)
theory Ldb_Two_Level
  imports Ldb_Iterator
begin

text \<open>
  The two-level iterator: db/leveldb/table/two_level_iterator.cc. An iterator over an index whose values
  a block function turns into iterators over the data. The argument of the block function is threaded
  through the calls, and so is the deletion of a data iterator, which can change it.
\<close>

section \<open>The iterator\<close>

record ('i, 'd, 'a) tl_class =
  tc_index :: "'i iterator"
  tc_data :: "'d iterator"
  tc_function :: "bytes \<Rightarrow> 'a \<Rightarrow> mem_error + 'd \<times> 'a"
  tc_delete :: "'d \<Rightarrow> 'a \<Rightarrow> mem_error + 'a"

record ('i, 'd, 'a) two_level =
  tl_arg :: 'a
  tl_status :: status
  tl_index :: "'i wrapper"
  tl_data :: "'d wrapper"
  tl_handle :: bytes

definition TwoLevelIterator_new :: "('i, 'd, 'a) tl_class \<Rightarrow> 'i \<Rightarrow> 'a \<Rightarrow> mem_error + ('i, 'd, 'a) two_level" where
  "TwoLevelIterator_new cls index_iter arg =
     bind_res (w_Set (tc_index cls) (Some index_iter) w_none) (\<lambda>w.
       Inr \<lparr>tl_arg = arg, tl_status = OK, tl_index = w, tl_data = w_none, tl_handle = []\<rparr>)"

definition tl_SaveError :: "status \<Rightarrow> ('i, 'd, 'a) two_level \<Rightarrow> ('i, 'd, 'a) two_level" where
  "tl_SaveError s t = (if status_ok (tl_status t) \<and> \<not> status_ok s then t\<lparr>tl_status := s\<rparr> else t)"

definition SetDataIterator :: "('i, 'd, 'a) tl_class \<Rightarrow> 'd option \<Rightarrow> ('i, 'd, 'a) two_level \<Rightarrow> mem_error + ('i, 'd, 'a) two_level" where
  "SetDataIterator cls data_iter t =
     bind_res (case w_iter (tl_data t) of None \<Rightarrow> Inr t
               | Some d \<Rightarrow> bind_res (w_status (tc_data cls) (tl_data t)) (\<lambda>s. Inr (tl_SaveError s t))) (\<lambda>t1.
     bind_res (case w_iter (tl_data t1) of None \<Rightarrow> Inr (tl_arg t1) | Some d \<Rightarrow> tc_delete cls d (tl_arg t1)) (\<lambda>a.
     bind_res (w_Set (tc_data cls) data_iter (tl_data t1)) (\<lambda>w. Inr (t1\<lparr>tl_arg := a, tl_data := w\<rparr>))))"

definition InitDataBlock :: "('i, 'd, 'a) tl_class \<Rightarrow> ('i, 'd, 'a) two_level \<Rightarrow> mem_error + ('i, 'd, 'a) two_level" where
  "InitDataBlock cls t =
     (if \<not> w_valid (tl_index t) then SetDataIterator cls None t
      else
        bind_res (w_get_value (tc_index cls) (tl_index t)) (\<lambda>handle.
          if w_iter (tl_data t) \<noteq> None \<and> slice_compare handle (tl_handle t) = 0 then Inr t
          else
            bind_res (tc_function cls handle (tl_arg t)) (\<lambda>(iter, a).
              SetDataIterator cls (Some iter) (t\<lparr>tl_arg := a, tl_handle := handle\<rparr>))))"

text \<open>A call on the data iterator if there is one.\<close>

definition on_data :: "('d wrapper \<Rightarrow> (mem_error + 'd wrapper) option) \<Rightarrow> ('i, 'd, 'a) two_level \<Rightarrow> (mem_error + ('i, 'd, 'a) two_level) option" where
  "on_data f t =
     (case w_iter (tl_data t) of None \<Rightarrow> Some (Inr t)
      | Some d \<Rightarrow> bind_run (f (tl_data t)) (\<lambda>w. Some (Inr (t\<lparr>tl_data := w\<rparr>))))"

text \<open>One turn of the two loops, which differ in the calls of the index and the data iterator.\<close>

definition skip_block ::
  "('i, 'd, 'a) tl_class \<Rightarrow> ('i wrapper \<Rightarrow> (mem_error + 'i wrapper) option) \<Rightarrow> ('d wrapper \<Rightarrow> (mem_error + 'd wrapper) option) \<Rightarrow>
   ('i, 'd, 'a) two_level \<Rightarrow> (mem_error + (('i, 'd, 'a) two_level + ('i, 'd, 'a) two_level)) option" where
  "skip_block cls move seek t =
     (if w_iter (tl_data t) = None \<or> \<not> w_valid (tl_data t) then
        (if \<not> w_valid (tl_index t) then bind_run (Some (SetDataIterator cls None t)) (\<lambda>t1. Some (Inr (Inr t1)))
         else bind_run (move (tl_index t)) (\<lambda>w.
              bind_run (Some (InitDataBlock cls (t\<lparr>tl_index := w\<rparr>))) (\<lambda>t1.
              bind_run (on_data seek t1) (\<lambda>t2. Some (Inr (Inl t2))))))
      else Some (Inr (Inr t)))"

definition SkipEmptyDataBlocksForward :: "('i, 'd, 'a) tl_class \<Rightarrow> ('i, 'd, 'a) two_level \<Rightarrow> (mem_error + ('i, 'd, 'a) two_level) option" where
  "SkipEmptyDataBlocksForward cls = while_run (skip_block cls (w_Next (tc_index cls)) (w_SeekToFirst (tc_data cls)))"

definition SkipEmptyDataBlocksBackward :: "('i, 'd, 'a) tl_class \<Rightarrow> ('i, 'd, 'a) two_level \<Rightarrow> (mem_error + ('i, 'd, 'a) two_level) option" where
  "SkipEmptyDataBlocksBackward cls = while_run (skip_block cls (w_Prev (tc_index cls)) (w_SeekToLast (tc_data cls)))"

definition tl_Valid :: "('i, 'd, 'a) two_level \<Rightarrow> bool" where "tl_Valid t = w_valid (tl_data t)"

definition tl_Seek :: "('i, 'd, 'a) tl_class \<Rightarrow> bytes \<Rightarrow> ('i, 'd, 'a) two_level \<Rightarrow> (mem_error + ('i, 'd, 'a) two_level) option" where
  "tl_Seek cls target t =
     bind_run (w_Seek (tc_index cls) target (tl_index t)) (\<lambda>w.
     bind_run (Some (InitDataBlock cls (t\<lparr>tl_index := w\<rparr>))) (\<lambda>t1.
     bind_run (on_data (w_Seek (tc_data cls) target) t1) (SkipEmptyDataBlocksForward cls)))"

definition tl_SeekToFirst :: "('i, 'd, 'a) tl_class \<Rightarrow> ('i, 'd, 'a) two_level \<Rightarrow> (mem_error + ('i, 'd, 'a) two_level) option" where
  "tl_SeekToFirst cls t =
     bind_run (w_SeekToFirst (tc_index cls) (tl_index t)) (\<lambda>w.
     bind_run (Some (InitDataBlock cls (t\<lparr>tl_index := w\<rparr>))) (\<lambda>t1.
     bind_run (on_data (w_SeekToFirst (tc_data cls)) t1) (SkipEmptyDataBlocksForward cls)))"

definition tl_SeekToLast :: "('i, 'd, 'a) tl_class \<Rightarrow> ('i, 'd, 'a) two_level \<Rightarrow> (mem_error + ('i, 'd, 'a) two_level) option" where
  "tl_SeekToLast cls t =
     bind_run (w_SeekToLast (tc_index cls) (tl_index t)) (\<lambda>w.
     bind_run (Some (InitDataBlock cls (t\<lparr>tl_index := w\<rparr>))) (\<lambda>t1.
     bind_run (on_data (w_SeekToLast (tc_data cls)) t1) (SkipEmptyDataBlocksBackward cls)))"

definition tl_Next :: "('i, 'd, 'a) tl_class \<Rightarrow> ('i, 'd, 'a) two_level \<Rightarrow> (mem_error + ('i, 'd, 'a) two_level) option" where
  "tl_Next cls t =
     (if tl_Valid t
      then bind_run (w_Next (tc_data cls) (tl_data t)) (\<lambda>w. SkipEmptyDataBlocksForward cls (t\<lparr>tl_data := w\<rparr>))
      else Some (Inl AssertionFails))"

definition tl_Prev :: "('i, 'd, 'a) tl_class \<Rightarrow> ('i, 'd, 'a) two_level \<Rightarrow> (mem_error + ('i, 'd, 'a) two_level) option" where
  "tl_Prev cls t =
     (if tl_Valid t
      then bind_run (w_Prev (tc_data cls) (tl_data t)) (\<lambda>w. SkipEmptyDataBlocksBackward cls (t\<lparr>tl_data := w\<rparr>))
      else Some (Inl AssertionFails))"

definition tl_key :: "('i, 'd, 'a) two_level \<Rightarrow> mem_error + bytes" where
  "tl_key t = (if tl_Valid t then w_get_key (tl_data t) else Inl AssertionFails)"

definition tl_value :: "('i, 'd, 'a) tl_class \<Rightarrow> ('i, 'd, 'a) two_level \<Rightarrow> mem_error + bytes" where
  "tl_value cls t = (if tl_Valid t then w_get_value (tc_data cls) (tl_data t) else Inl AssertionFails)"

definition tl_get_status :: "('i, 'd, 'a) tl_class \<Rightarrow> ('i, 'd, 'a) two_level \<Rightarrow> mem_error + status" where
  "tl_get_status cls t =
     bind_res (w_status (tc_index cls) (tl_index t)) (\<lambda>s.
       if \<not> status_ok s then Inr s
       else if w_iter (tl_data t) \<noteq> None then
         bind_res (w_status (tc_data cls) (tl_data t)) (\<lambda>s2. Inr (if \<not> status_ok s2 then s2 else tl_status t))
       else Inr (tl_status t))"

definition TwoLevelIterator_class :: "('i, 'd, 'a) tl_class \<Rightarrow> ('i, 'd, 'a) two_level iterator" where
  "TwoLevelIterator_class cls =
     \<lparr>it_Valid = tl_Valid, it_SeekToFirst = tl_SeekToFirst cls, it_SeekToLast = tl_SeekToLast cls, it_Seek = tl_Seek cls,
      it_Next = tl_Next cls, it_Prev = tl_Prev cls, it_key = tl_key, it_value = tl_value cls, it_status = tl_get_status cls\<rparr>"

section \<open>A cursor over all blocks\<close>

definition start :: "'x list list \<Rightarrow> nat \<Rightarrow> nat" where "start chunks i = length (concat (take i chunks))"

lemma start_0 [simp]: "start chunks 0 = 0"
  by (simp add: start_def)

lemma start_Suc: "i < length chunks \<Longrightarrow> start chunks (Suc i) = start chunks i + length (chunks ! i)"
  by (simp add: start_def take_Suc_conv_app_nth)

lemma start_last:
  "i < length chunks \<Longrightarrow> chunks ! i \<noteq> [] \<Longrightarrow> start chunks i + (length (chunks ! i) - 1) = start chunks (Suc i) - 1 \<and> 0 < start chunks (Suc i)"
  by (cases "chunks ! i") (simp_all add: start_Suc)

lemma start_length [simp]: "start chunks (length chunks) = length (concat chunks)"
  by (simp add: start_def)

lemma concat_nth_start:
  assumes "i < length chunks" "j < length (chunks ! i)"
  shows "concat chunks ! (start chunks i + j) = chunks ! i ! j" "start chunks i + j < length (concat chunks)"
proof -
  have "concat chunks = concat (take i chunks) @ chunks ! i @ concat (drop (Suc i) chunks)"
    using id_take_nth_drop [OF assms(1)] by (metis concat.simps(2) concat_append)
  then show "concat chunks ! (start chunks i + j) = chunks ! i ! j" "start chunks i + j < length (concat chunks)"
    using assms(2) by (simp_all add: start_def nth_append)
qed

text \<open>
  \<open>idx\<close> are the entries of the index, with the handle of every block as the value, and \<open>chunks\<close> the
  entries of the blocks. \<open>opened a\<close> says that the block function works with the argument \<open>a\<close>.
\<close>

locale two_levels =
  fixes cls :: "('i, 'd, 'a) tl_class" and C :: comparator and seekable :: "bytes \<Rightarrow> bool"
    and idx :: "(bytes \<times> bytes) list" and chunks :: "(bytes \<times> bytes) list list"
    and iat :: "'i \<Rightarrow> nat \<Rightarrow> bool" and dat :: "nat \<Rightarrow> 'd \<Rightarrow> nat \<Rightarrow> bool" and opened :: "'a \<Rightarrow> bool"
  assumes index_cursor: "cursor (tc_index cls) C seekable idx iat"
    and data_cursor: "i < length chunks \<Longrightarrow> cursor (tc_data cls) C seekable (chunks ! i) (dat i)"
    and index_length: "length idx = length chunks"
    and open_block: "i < length chunks \<Longrightarrow> opened a \<Longrightarrow>
      \<exists>d a' j. tc_function cls (snd (idx ! i)) a = Inr (d, a') \<and> opened a' \<and> dat i d j"
    and delete_block: "i < length chunks \<Longrightarrow> dat i d j \<Longrightarrow> opened a \<Longrightarrow> \<exists>a'. tc_delete cls d a = Inr a' \<and> opened a'"
    and handles_differ: "i < length chunks \<Longrightarrow> j < length chunks \<Longrightarrow> snd (idx ! i) = snd (idx ! j) \<Longrightarrow> i = j"
    and block_below: "seekable t \<Longrightarrow> i < length chunks \<Longrightarrow> below C t (idx ! i) \<Longrightarrow> kv \<in> set (chunks ! i) \<Longrightarrow> below C t kv"
    and block_above: "seekable t \<Longrightarrow> i < j \<Longrightarrow> j < length chunks \<Longrightarrow> \<not> below C t (idx ! i) \<Longrightarrow> kv \<in> set (chunks ! j) \<Longrightarrow> \<not> below C t kv"
begin

abbreviation "iw \<equiv> cursor.w_at idx iat"
abbreviation "dw i \<equiv> cursor.w_at (chunks ! i) (dat i)"

text \<open>The states between the calls: at block \<open>i\<close> and entry \<open>j\<close> of it, or at no block.\<close>

definition mid :: "('i, 'd, 'a) two_level \<Rightarrow> nat \<Rightarrow> nat \<Rightarrow> bool" where
  "mid t i j \<longleftrightarrow> opened (tl_arg t) \<and> tl_status t = OK \<and> iw (tl_index t) i \<and>
     (if i < length chunks then dw i (tl_data t) j \<and> tl_handle t = snd (idx ! i)
      else i = length chunks \<and> j = 0 \<and> w_iter (tl_data t) = None \<and> \<not> w_valid (tl_data t))"

definition tl_at :: "('i, 'd, 'a) two_level \<Rightarrow> nat \<Rightarrow> bool" where
  "tl_at t p \<longleftrightarrow> (\<exists>i j. mid t i j \<and> p = start chunks i + j \<and> (i < length chunks \<longrightarrow> j < length (chunks ! i)))"

text \<open>What is known when the index has moved to block \<open>i\<close>: the data iterator is at any block or none.\<close>

definition moved :: "('i, 'd, 'a) two_level \<Rightarrow> nat \<Rightarrow> bool" where
  "moved t i \<longleftrightarrow> opened (tl_arg t) \<and> tl_status t = OK \<and> iw (tl_index t) i \<and>
     ((\<exists>k j. k < length chunks \<and> dw k (tl_data t) j \<and> tl_handle t = snd (idx ! k)) \<or>
      w_iter (tl_data t) = None \<and> \<not> w_valid (tl_data t))"

lemma mid_moved: "mid t i j \<Longrightarrow> iw w k \<Longrightarrow> moved (t\<lparr>tl_index := w\<rparr>) k"
  by (auto simp: mid_def moved_def split: if_splits)

definition holds :: "('i, 'd, 'a) two_level \<Rightarrow> bool" where
  "holds t \<longleftrightarrow> opened (tl_arg t) \<and> tl_status t = OK \<and>
     ((\<exists>k j. k < length chunks \<and> dw k (tl_data t) j) \<or> w_iter (tl_data t) = None)"

lemma moved_holds: "moved t i \<Longrightarrow> opened a \<Longrightarrow> holds (t\<lparr>tl_arg := a, tl_handle := h\<rparr>)" "moved t i \<Longrightarrow> holds t"
  by (auto simp: moved_def holds_def)

lemma SetDataIterator_holds:
  assumes "holds t" "case iter of None \<Rightarrow> True | Some d \<Rightarrow> i < length chunks \<and> dat i d j"
  shows "\<exists>t'. SetDataIterator cls iter t = Inr t' \<and> opened (tl_arg t') \<and> tl_status t' = OK \<and> tl_index t' = tl_index t \<and>
    tl_handle t' = tl_handle t \<and>
    (case iter of None \<Rightarrow> w_iter (tl_data t') = None \<and> \<not> w_valid (tl_data t') | Some d \<Rightarrow> dw i (tl_data t') j)"
proof -
  have set: "\<exists>w. w_Set (tc_data cls) iter v = Inr w \<and> (case iter of None \<Rightarrow> w_iter w = None \<and> \<not> w_valid w | Some d \<Rightarrow> dw i w j)" for v
    using assms(2) cursor.Update_at [OF data_cursor, of i _ j v] by (cases iter) (auto simp: w_Set_def)
  show ?thesis
  proof (cases "w_iter (tl_data t)")
    case None
    then show ?thesis using set [of "tl_data t"] assms(1) by (cases iter) (auto simp: SetDataIterator_def holds_def)
  next
    case (Some d)
    then obtain k m where k: "k < length chunks" "dw k (tl_data t) m" using assms(1) by (auto simp: holds_def)
    then have "dat k d m" using Some by (auto simp: cursor.w_at_def [OF data_cursor])
    then obtain a where "tc_delete cls d (tl_arg t) = Inr a" "opened a" using delete_block [OF k(1), of d m "tl_arg t"] assms(1) unfolding holds_def by blast
    moreover have "w_status (tc_data cls) (tl_data t) = Inr OK" by (rule cursor.w_at_read(3) [OF data_cursor [OF k(1)] k(2)])
    ultimately show ?thesis using Some set [of "tl_data t"] assms(1)
      by (cases iter) (auto simp: SetDataIterator_def tl_SaveError_def status_ok_def holds_def)
  qed
qed

lemma iw_valid: "iw w i \<Longrightarrow> w_valid w \<longleftrightarrow> i < length chunks" and iw_le: "iw w i \<Longrightarrow> i \<le> length chunks"
  using cursor.w_at_valid [OF index_cursor] cursor.w_at_le [OF index_cursor] by (auto simp: index_length)

lemma InitDataBlock_moved:
  assumes m: "moved t i"
  shows "\<exists>t' j. InitDataBlock cls t = Inr t' \<and> mid t' i j"
proof (cases "i < length chunks")
  case False
  then have i: "\<not> w_valid (tl_index t)" "i = length chunks" using m iw_valid [of "tl_index t" i] iw_le [of "tl_index t" i] by (auto simp: moved_def)
  then show ?thesis using SetDataIterator_holds [OF moved_holds(2) [OF m], where iter = None] m by (auto simp: InitDataBlock_def mid_def moved_def)
next
  case True
  have iw: "iw (tl_index t) i" using m by (simp add: moved_def)
  have val: "w_valid (tl_index t)" "w_get_value (tc_index cls) (tl_index t) = Inr (snd (idx ! i))"
    using iw_valid [OF iw] cursor.w_at_read(2) [OF index_cursor iw] True by (simp_all add: index_length)
  show ?thesis
  proof (cases "w_iter (tl_data t) \<noteq> None \<and> snd (idx ! i) = tl_handle t")
    case same: True
    then obtain k j where "k < length chunks" "dw k (tl_data t) j" "tl_handle t = snd (idx ! k)" using m by (auto simp: moved_def)
    then have "dw i (tl_data t) j" using handles_differ [OF True, of k] same by simp
    then show ?thesis using val same m True by (auto simp: InitDataBlock_def mid_def moved_def)
  next
    case False
    obtain d a j where o: "tc_function cls (snd (idx ! i)) (tl_arg t) = Inr (d, a)" "opened a" "dat i d j"
      using open_block [OF True, of "tl_arg t"] m unfolding moved_def by blast
    let ?t = "t\<lparr>tl_arg := a, tl_handle := snd (idx ! i)\<rparr>"
    obtain t' where t': "SetDataIterator cls (Some d) ?t = Inr t'" "opened (tl_arg t')" "tl_status t' = OK"
      "tl_index t' = tl_index t" "dw i (tl_data t') j" "tl_handle t' = snd (idx ! i)"
      using SetDataIterator_holds [OF moved_holds(1) [OF m o(2)], where iter = "Some d" and i = i and j = j] True o(3) by auto
    have "InitDataBlock cls t = Inr t'" using val False o(1) t'(1) by (auto simp: InitDataBlock_def)
    then show ?thesis using t' iw True by (auto simp: mid_def)
  qed
qed

text \<open>A call on the data iterator of a state at a block.\<close>

lemma on_data_mid:
  assumes "mid t i j" "i < length chunks \<Longrightarrow> \<exists>w. f (tl_data t) = Some (Inr w) \<and> dw i w k" "i = length chunks \<Longrightarrow> k = 0"
  shows "\<exists>t'. on_data f t = Some (Inr t') \<and> mid t' i k"
proof (cases "i < length chunks")
  case True
  moreover have "w_iter (tl_data t) \<noteq> None" using assms(1) True cursor.w_at_some [OF data_cursor [OF True]] by (auto simp: mid_def)
  ultimately show ?thesis using assms(1,2) by (auto simp: on_data_def mid_def)
next
  case False
  then show ?thesis using assms(1,3) by (auto simp: on_data_def mid_def)
qed

text \<open>Moving the index, opening its block and positioning in it.\<close>

lemma enter_block:
  assumes "mid t i j" "iw w n" "\<And>t1 m. mid t1 n m \<Longrightarrow> n < length chunks \<Longrightarrow> \<exists>w. f (tl_data t1) = Some (Inr w) \<and> dw n w k"
    "n = length chunks \<Longrightarrow> k = 0"
  shows "\<exists>t1 t'. InitDataBlock cls (t\<lparr>tl_index := w\<rparr>) = Inr t1 \<and> on_data f t1 = Some (Inr t') \<and> mid t' n k"
proof -
  obtain t1 m where i: "InitDataBlock cls (t\<lparr>tl_index := w\<rparr>) = Inr t1" "mid t1 n m"
    using InitDataBlock_moved [OF mid_moved [OF assms(1,2)]] by blast
  then show ?thesis using on_data_mid [OF i(2), of f k] assms(3) [OF i(2)] assms(4) by blast
qed

lemma mid_data: "mid t i j \<Longrightarrow> i < length chunks \<Longrightarrow> dw i (tl_data t) j" and mid_index: "mid t i j \<Longrightarrow> iw (tl_index t) i"
  and mid_le: "mid t i j \<Longrightarrow> i \<le> length chunks"
  using iw_le by (auto simp: mid_def)

lemma mid_stop:
  "mid t i j \<Longrightarrow> (w_iter (tl_data t) = None \<or> \<not> w_valid (tl_data t)) \<longleftrightarrow> \<not> (i < length chunks \<and> j < length (chunks ! i))"
  using cursor.w_at_valid [OF data_cursor, of i "tl_data t" j] cursor.w_at_some [OF data_cursor, of i "tl_data t" j]
  by (auto simp: mid_def split: if_splits)

lemma skip_block_stop:
  "mid t i j \<Longrightarrow> i < length chunks \<Longrightarrow> j < length (chunks ! i) \<Longrightarrow> skip_block cls move seek t = Some (Inr (Inr t))"
  using mid_stop [of t i j] unfolding skip_block_def by (auto split: if_splits)

lemma mid_end:
  assumes "mid t (length chunks) j"
  shows "\<exists>t'. SetDataIterator cls None t = Inr t' \<and> mid t' (length chunks) 0"
proof -
  have "holds t" using assms by (auto simp: mid_def holds_def)
  then show ?thesis using SetDataIterator_holds [of t _ _ None] assms by (auto simp: mid_def)
qed

lemma tl_at_end: "mid t (length chunks) 0 \<Longrightarrow> tl_at t (length (concat chunks))"
  unfolding tl_at_def by (rule exI [of _ "length chunks"], rule exI [of _ 0]) simp

lemma skip_end:
  assumes "mid t (length chunks) j"
  shows "\<exists>t'. while_run (skip_block cls move seek) t = Some (Inr t') \<and> tl_at t' (length (concat chunks))"
proof -
  obtain t' where t': "SetDataIterator cls None t = Inr t'" "mid t' (length chunks) 0" using mid_end [OF assms] by blast
  have "\<not> w_valid (tl_index t)" using iw_valid [OF mid_index [OF assms]] by simp
  then have "skip_block cls move seek t = Some (Inr (Inr t'))" using t'(1) mid_stop [OF assms] by (simp add: skip_block_def)
  then show ?thesis using while_run_simps(3) tl_at_end [OF t'(2)] by metis
qed

lemma skip_forward:
  assumes "mid t i j"
  shows "\<exists>t'. SkipEmptyDataBlocksForward cls t = Some (Inr t') \<and> tl_at t' (start chunks i + j)"
  using assms unfolding SkipEmptyDataBlocksForward_def
proof (induction "length chunks - i" arbitrary: t i j)
  case 0
  then have "i = length chunks" using mid_le by (metis diff_is_0_eq le_antisym)
  moreover have "j = 0" using 0(2) calculation by (simp add: mid_def)
  ultimately show ?case using skip_end 0(2) by simp
next
  case (Suc n)
  then have i: "i < length chunks" by simp
  let ?turn = "skip_block cls (w_Next (tc_index cls)) (w_SeekToFirst (tc_data cls))"
  show ?case
  proof (cases "j < length (chunks ! i)")
    case True
    then have "?turn t = Some (Inr (Inr t))" using skip_block_stop [OF Suc.prems] i by blast
    then show ?thesis using while_run_simps(3) True Suc.prems unfolding tl_at_def by metis
  next
    case False
    then have j: "j = length (chunks ! i)" using mid_data [OF Suc.prems i] cursor.w_at_le [OF data_cursor [OF i]] by (metis linorder_neqE_nat not_le)
    obtain w where w: "w_Next (tc_index cls) (tl_index t) = Some (Inr w)" "iw w (Suc i)"
      using cursor.w_at_next [OF index_cursor mid_index [OF Suc.prems]] i by (auto simp: index_length)
    obtain t1 t2 where t: "InitDataBlock cls (t\<lparr>tl_index := w\<rparr>) = Inr t1" "on_data (w_SeekToFirst (tc_data cls)) t1 = Some (Inr t2)" "mid t2 (Suc i) 0"
      using enter_block [OF Suc.prems w(2), of "w_SeekToFirst (tc_data cls)" 0] cursor.w_at_first [OF data_cursor] mid_data by blast
    have "w_valid (tl_index t)" using iw_valid [OF mid_index [OF Suc.prems]] i by simp
    then have "?turn t = Some (Inr (Inl t2))" using w t mid_stop [OF Suc.prems] False by (simp add: skip_block_def)
    then have "while_run ?turn t = while_run ?turn t2" by (rule while_run_simps(2))
    then show ?thesis using Suc.hyps(1) [OF _ t(3)] Suc.hyps(2) j i by (simp add: start_Suc)
  qed
qed

lemma skip_backward:
  assumes "mid t i (length (chunks ! i))" "i < length chunks"
  shows "\<exists>t'. SkipEmptyDataBlocksBackward cls t = Some (Inr t') \<and>
    tl_at t' (if start chunks i = 0 then length (concat chunks) else start chunks i - 1)"
  using assms unfolding SkipEmptyDataBlocksBackward_def
proof (induction i arbitrary: t)
  case 0
  let ?turn = "skip_block cls (w_Prev (tc_index cls)) (w_SeekToLast (tc_data cls))"
  obtain w where w: "w_Prev (tc_index cls) (tl_index t) = Some (Inr w)" "iw w (length chunks)"
    using cursor.w_at_prev [OF index_cursor mid_index [OF 0(1)]] 0(2) by (auto simp: index_length)
  obtain t1 t2 where t: "InitDataBlock cls (t\<lparr>tl_index := w\<rparr>) = Inr t1" "on_data (w_SeekToLast (tc_data cls)) t1 = Some (Inr t2)" "mid t2 (length chunks) 0"
    using enter_block [OF 0(1) w(2), of "w_SeekToLast (tc_data cls)" 0] by blast
  have "w_valid (tl_index t)" using iw_valid [OF mid_index [OF 0(1)]] 0(2) by simp
  then have "?turn t = Some (Inr (Inl t2))" using w t mid_stop [OF 0(1)] by (simp add: skip_block_def)
  then have "while_run ?turn t = while_run ?turn t2" by (rule while_run_simps(2))
  then show ?case using skip_end [OF t(3)] by simp
next
  case (Suc i)
  let ?turn = "skip_block cls (w_Prev (tc_index cls)) (w_SeekToLast (tc_data cls))"
  have i: "i < length chunks" using Suc.prems(2) by simp
  obtain w where w: "w_Prev (tc_index cls) (tl_index t) = Some (Inr w)" "iw w i"
    using cursor.w_at_prev [OF index_cursor mid_index [OF Suc.prems(1)]] Suc.prems(2) by (auto simp: index_length)
  obtain t1 t2 where t: "InitDataBlock cls (t\<lparr>tl_index := w\<rparr>) = Inr t1" "on_data (w_SeekToLast (tc_data cls)) t1 = Some (Inr t2)"
      "mid t2 i (length (chunks ! i) - 1)"
    using enter_block [OF Suc.prems(1) w(2), of "w_SeekToLast (tc_data cls)" "length (chunks ! i) - 1"] cursor.w_at_last [OF data_cursor]
      mid_data i by blast
  have "w_valid (tl_index t)" using iw_valid [OF mid_index [OF Suc.prems(1)]] Suc.prems(2) by simp
  then have "?turn t = Some (Inr (Inl t2))" using w t mid_stop [OF Suc.prems(1)] by (simp add: skip_block_def)
  then have run: "while_run ?turn t = while_run ?turn t2" by (rule while_run_simps(2))
  show ?case
  proof (cases "chunks ! i = []")
    case True
    then have "start chunks (Suc i) = start chunks i" using i by (simp add: start_Suc)
    then show ?thesis using Suc.IH [of t2] t(3) run i True by (cases "start chunks i = 0") simp_all
  next
    case False
    then have "?turn t2 = Some (Inr (Inr t2))" using skip_block_stop [OF t(3)] i by simp
    then have "while_run ?turn t2 = Some (Inr t2)" by (rule while_run_simps(3))
    moreover have "tl_at t2 (start chunks i + (length (chunks ! i) - 1))" using t(3) False unfolding tl_at_def by fastforce
    ultimately show ?thesis using run start_last [OF i False] by auto
  qed
qed

lemma tl_at_mid: "tl_at t p \<Longrightarrow> \<exists>i j. mid t i j"
  by (auto simp: tl_at_def)

text \<open>Positioning: the index moves to block \<open>n\<close>, the data iterator to entry \<open>k\<close> of it.\<close>

lemma position:
  assumes "tl_at t p" "iw w n" "\<And>v m. n < length chunks \<Longrightarrow> dw n v m \<Longrightarrow> \<exists>v'. f v = Some (Inr v') \<and> dw n v' k"
    "n = length chunks \<Longrightarrow> k = 0"
  shows "\<exists>t1 t2. InitDataBlock cls (t\<lparr>tl_index := w\<rparr>) = Inr t1 \<and> on_data f t1 = Some (Inr t2) \<and> mid t2 n k"
proof -
  obtain i j where m: "mid t i j" using tl_at_mid [OF assms(1)] by blast
  show ?thesis
    by (rule enter_block [OF m assms(2)]) (use assms(3,4) mid_data in blast)+
qed

lemma tl_at_first: "tl_at t p \<Longrightarrow> \<exists>t'. tl_SeekToFirst cls t = Some (Inr t') \<and> tl_at t' 0"
proof -
  assume a: "tl_at t p"
  then obtain i where "iw (tl_index t) i" using tl_at_mid mid_index by blast
  then obtain w where w: "w_SeekToFirst (tc_index cls) (tl_index t) = Some (Inr w)" "iw w 0" using cursor.w_at_first [OF index_cursor] by blast
  obtain t1 t2 where "InitDataBlock cls (t\<lparr>tl_index := w\<rparr>) = Inr t1" "on_data (w_SeekToFirst (tc_data cls)) t1 = Some (Inr t2)" "mid t2 0 0"
    using position [OF a w(2), of "w_SeekToFirst (tc_data cls)" 0] cursor.w_at_first [OF data_cursor] by blast
  then show ?thesis using w(1) skip_forward [of t2 0 0] by (auto simp: tl_SeekToFirst_def)
qed

lemma tl_at_last: "tl_at t p \<Longrightarrow> \<exists>t'. tl_SeekToLast cls t = Some (Inr t') \<and> tl_at t' (length (concat chunks) - 1)"
proof -
  assume a: "tl_at t p"
  let ?n = "length chunks - 1"
  let ?k = "length (chunks ! ?n) - 1"
  define k where "k = (if chunks = [] then 0 else ?k)"
  obtain i where "iw (tl_index t) i" using a tl_at_mid mid_index by blast
  then obtain w where w: "w_SeekToLast (tc_index cls) (tl_index t) = Some (Inr w)" "iw w ?n"
    using cursor.w_at_last [OF index_cursor] by (auto simp: index_length)
  have last: "\<exists>v'. w_SeekToLast (tc_data cls) v = Some (Inr v') \<and> dw ?n v' k" if "?n < length chunks" "dw ?n v m" for v m
  proof -
    have "k = ?k" using that(1) by (auto simp: k_def)
    then show ?thesis using cursor.w_at_last [OF data_cursor [OF that(1)] that(2)] by simp
  qed
  have none: "?n = length chunks \<Longrightarrow> k = 0" by (cases chunks) (simp_all add: k_def)
  obtain t1 t2 where t: "InitDataBlock cls (t\<lparr>tl_index := w\<rparr>) = Inr t1" "on_data (w_SeekToLast (tc_data cls)) t1 = Some (Inr t2)" "mid t2 ?n k"
    using position [OF a w(2), of "w_SeekToLast (tc_data cls)" k] last none by blast
  have "\<exists>t'. SkipEmptyDataBlocksBackward cls t2 = Some (Inr t') \<and> tl_at t' (length (concat chunks) - 1)"
  proof (cases "chunks = []")
    case True
    then show ?thesis using skip_end [of t2 k] t(3) by (simp add: SkipEmptyDataBlocksBackward_def)
  next
    case False
    then have n: "?n < length chunks" "length (concat chunks) = start chunks ?n + length (chunks ! ?n)"
      using start_Suc [of ?n chunks] by simp_all
    show ?thesis
    proof (cases "chunks ! ?n = []")
      case True
      then have "k = length (chunks ! ?n)" "length (concat chunks) = start chunks ?n" using n(2) False by (simp_all only: k_def list.size(3) diff_0_eq_0 if_False add_0_right)
      moreover have "length (concat chunks) - 1 = (if start chunks ?n = 0 then length (concat chunks) else start chunks ?n - 1)"
        unfolding calculation(2) by simp
      ultimately show ?thesis using skip_backward [of t2 ?n] t(3) n(1) by (simp only:)
    next
      case ne: False
      then have "skip_block cls (w_Prev (tc_index cls)) (w_SeekToLast (tc_data cls)) t2 = Some (Inr (Inr t2))"
        using skip_block_stop [OF t(3)] n False by (simp add: k_def)
      then have "SkipEmptyDataBlocksBackward cls t2 = Some (Inr t2)" unfolding SkipEmptyDataBlocksBackward_def by (rule while_run_simps(3))
      moreover have "tl_at t2 (start chunks ?n + k)" using t(3) ne False unfolding tl_at_def k_def by fastforce
      ultimately show ?thesis using start_last [OF n(1) ne] n False by (auto simp: k_def start_Suc)
    qed
  qed
  then show ?thesis using w(1) t by (auto simp: tl_SeekToLast_def)
qed

lemma takeWhile_concat:
  "\<forall>xs \<in> set xss. \<forall>x \<in> set xs. P x \<Longrightarrow> takeWhile P (concat xss @ ys) = concat xss @ takeWhile P ys"
  by (induction xss) (auto simp: takeWhile_append2)

lemma lower_bound_blocks:
  assumes t: "seekable t" and n: "n = lower_bound C t idx"
  shows "lower_bound C t (concat chunks) = start chunks n + (if n < length chunks then lower_bound C t (chunks ! n) else 0)"
proof -
  let ?B = "below C t"
  have pre: "\<forall>xs \<in> set (take n chunks). \<forall>x \<in> set xs. ?B x"
  proof
    fix xs assume "xs \<in> set (take n chunks)"
    then obtain i where i: "i < n" "i < length chunks" "xs = chunks ! i" by (auto simp: in_set_conv_nth)
    then have "takeWhile ?B idx ! i = idx ! i" "i < length (takeWhile ?B idx)" using n by (simp_all add: lower_bound_def takeWhile_nth)
    then have "?B (idx ! i)" using nth_mem [of i "takeWhile ?B idx"] set_takeWhileD [of "idx ! i" ?B idx] by simp
    then show "\<forall>x \<in> set xs. ?B x" using block_below [OF t i(2)] i(3) by blast
  qed
  show ?thesis
  proof (cases "n < length chunks")
    case False
    then have "take n chunks = chunks" by simp
    then have "takeWhile ?B (concat chunks @ []) = concat chunks @ takeWhile ?B []" using pre by (intro takeWhile_concat) simp
    then have "takeWhile ?B (concat chunks) = concat chunks" by (simp only: append_Nil2 takeWhile.simps)
    then show ?thesis using False unfolding lower_bound_def start_def by (simp del: length_concat takeWhile_eq_all_conv)
  next
    case True
    then have nb: "\<not> ?B (idx ! n)" using nth_length_takeWhile [of ?B idx] by (simp add: n lower_bound_def index_length)
    have post: "\<not> ?B x" if x: "x \<in> set (concat (drop (Suc n) chunks))" for x
    proof -
      obtain xs where "x \<in> set xs" "xs \<in> set (drop (Suc n) chunks)" using x by auto
      moreover obtain j where "j < length (drop (Suc n) chunks)" "xs = drop (Suc n) chunks ! j" using calculation(2) unfolding in_set_conv_nth by blast
      ultimately show ?thesis using block_above [OF t _ _ nb, of "Suc n + j" x] by simp
    qed
    have "takeWhile ?B (concat (drop (Suc n) chunks)) = []" unfolding takeWhile_eq_Nil_iff using post [OF hd_in_set] by blast
    then have "takeWhile ?B (chunks ! n @ concat (drop (Suc n) chunks)) = takeWhile ?B (chunks ! n)"
      using takeWhile_eq_all_conv [of ?B "chunks ! n", THEN iffD2, symmetric] by (simp add: takeWhile_append del: takeWhile_eq_all_conv)
    moreover have "concat chunks = concat (take n chunks) @ chunks ! n @ concat (drop (Suc n) chunks)"
      using id_take_nth_drop [OF True] by (metis concat.simps(2) concat_append)
    ultimately have "takeWhile ?B (concat chunks) = concat (take n chunks) @ takeWhile ?B (chunks ! n)"
      using takeWhile_concat [OF pre] by simp
    then show ?thesis using True by (simp add: lower_bound_def start_def)
  qed
qed

lemma tl_at_seek: "seekable g \<Longrightarrow> tl_at t p \<Longrightarrow> \<exists>t'. tl_Seek cls g t = Some (Inr t') \<and> tl_at t' (lower_bound C g (concat chunks))"
proof -
  assume g: "seekable g" and a: "tl_at t p"
  define n where "n = lower_bound C g idx"
  define k where "k = (if n < length chunks then lower_bound C g (chunks ! n) else 0)"
  obtain i where "iw (tl_index t) i" using a tl_at_mid mid_index by blast
  then obtain w where w: "w_Seek (tc_index cls) g (tl_index t) = Some (Inr w)" "iw w n"
    using cursor.w_at_seek [OF index_cursor g] by (auto simp: n_def)
  have data: "\<exists>v'. w_Seek (tc_data cls) g v = Some (Inr v') \<and> dw n v' k" if "n < length chunks" "dw n v m" for v m
    using cursor.w_at_seek [OF data_cursor [OF that(1)] g that(2)] that(1) by (simp add: k_def)
  obtain t1 t2 where t: "InitDataBlock cls (t\<lparr>tl_index := w\<rparr>) = Inr t1" "on_data (w_Seek (tc_data cls) g) t1 = Some (Inr t2)" "mid t2 n k"
    using position [OF a w(2), of "w_Seek (tc_data cls) g" k] data by (auto simp: k_def)
  have "lower_bound C g (concat chunks) = start chunks n + k" using lower_bound_blocks [OF g n_def] by (simp add: k_def)
  then show ?thesis using w(1) t skip_forward [OF t(3)] by (auto simp: tl_Seek_def)
qed

lemma tl_at_valid: "tl_at t p \<Longrightarrow> tl_Valid t \<longleftrightarrow> p < length (concat chunks)"
proof -
  assume "tl_at t p"
  then obtain i j where m: "mid t i j" "p = start chunks i + j" "i < length chunks \<longrightarrow> j < length (chunks ! i)" by (auto simp: tl_at_def)
  show ?thesis
  proof (cases "i < length chunks")
    case True
    then show ?thesis using m concat_nth_start(2) [of i chunks j] cursor.w_at_valid [OF data_cursor mid_data, of i t j] by (auto simp: tl_Valid_def)
  next
    case False
    then have "i = length chunks" "j = 0" "\<not> w_valid (tl_data t)" using m by (auto simp: mid_def)
    then show ?thesis using m(2) by (simp add: tl_Valid_def)
  qed
qed

lemma tl_at_block:
  assumes "tl_at t p" "p < length (concat chunks)"
  shows "\<exists>i j. mid t i j \<and> i < length chunks \<and> j < length (chunks ! i) \<and> p = start chunks i + j"
  using assms mid_le by (auto simp: tl_at_def mid_def split: if_splits)

lemma tl_at_next: "tl_at t p \<Longrightarrow> p < length (concat chunks) \<Longrightarrow> \<exists>t'. tl_Next cls t = Some (Inr t') \<and> tl_at t' (Suc p)"
proof -
  assume a: "tl_at t p" "p < length (concat chunks)"
  then obtain i j where m: "mid t i j" "i < length chunks" "j < length (chunks ! i)" "p = start chunks i + j" using tl_at_block by blast
  obtain w where w: "w_Next (tc_data cls) (tl_data t) = Some (Inr w)" "dw i w (Suc j)"
    using cursor.w_at_next [OF data_cursor [OF m(2)] mid_data [OF m(1,2)] m(3)] by blast
  have "mid (t\<lparr>tl_data := w\<rparr>) i (Suc j)" using m w(2) by (simp add: mid_def)
  then show ?thesis using skip_forward [of "t\<lparr>tl_data := w\<rparr>"] w(1) m(4) tl_at_valid [OF a(1)] a(2) by (fastforce simp: tl_Next_def)
qed

lemma tl_at_prev:
  "tl_at t p \<Longrightarrow> p < length (concat chunks) \<Longrightarrow>
   \<exists>t'. tl_Prev cls t = Some (Inr t') \<and> tl_at t' (if p = 0 then length (concat chunks) else p - 1)"
proof -
  assume a: "tl_at t p" "p < length (concat chunks)"
  then obtain i j where m: "mid t i j" "i < length chunks" "j < length (chunks ! i)" "p = start chunks i + j" using tl_at_block by blast
  obtain w where w: "w_Prev (tc_data cls) (tl_data t) = Some (Inr w)" "dw i w (if j = 0 then length (chunks ! i) else j - 1)"
    using cursor.w_at_prev [OF data_cursor [OF m(2)] mid_data [OF m(1,2)] m(3)] by blast
  let ?t = "t\<lparr>tl_data := w\<rparr>"
  have mid: "mid ?t i (if j = 0 then length (chunks ! i) else j - 1)" using m w(2) by (simp add: mid_def)
  have "\<exists>t'. SkipEmptyDataBlocksBackward cls ?t = Some (Inr t') \<and> tl_at t' (if p = 0 then length (concat chunks) else p - 1)"
  proof (cases "j = 0")
    case True
    then show ?thesis using skip_backward [of ?t i] mid m(2,4) by (cases "p = 0") simp_all
  next
    case False
    then have "skip_block cls (w_Prev (tc_index cls)) (w_SeekToLast (tc_data cls)) ?t = Some (Inr (Inr ?t))"
      using skip_block_stop [OF mid m(2)] m(3) by simp
    then have "SkipEmptyDataBlocksBackward cls ?t = Some (Inr ?t)" unfolding SkipEmptyDataBlocksBackward_def by (rule while_run_simps(3))
    moreover have "tl_at ?t (start chunks i + (j - 1))" using mid False m(3) unfolding tl_at_def by fastforce
    ultimately show ?thesis using False m(4) by simp
  qed
  then show ?thesis using w(1) tl_at_valid [OF a(1)] a(2) by (simp add: tl_Prev_def)
qed

lemma tl_at_read:
  assumes "tl_at t p" "p < length (concat chunks)"
  shows "tl_key t = Inr (fst (concat chunks ! p))" "tl_value cls t = Inr (snd (concat chunks ! p))"
proof -
  obtain i j where m: "mid t i j" "i < length chunks" "j < length (chunks ! i)" "p = start chunks i + j" using tl_at_block [OF assms] by blast
  then show "tl_key t = Inr (fst (concat chunks ! p))" "tl_value cls t = Inr (snd (concat chunks ! p))"
    using cursor.w_at_read(1,2) [OF data_cursor [OF m(2)] mid_data [OF m(1,2)] m(3)] concat_nth_start(1) [OF m(2,3)]
      tl_at_valid [OF assms(1)] assms(2) by (simp_all add: tl_key_def tl_value_def)
qed

lemma tl_at_status: "tl_at t p \<Longrightarrow> tl_get_status cls t = Inr OK"
proof -
  assume "tl_at t p"
  then obtain i j where m: "mid t i j" using tl_at_mid by blast
  have "w_status (tc_index cls) (tl_index t) = Inr OK" by (rule cursor.w_at_read(3) [OF index_cursor mid_index [OF m]])
  moreover have "w_iter (tl_data t) \<noteq> None \<Longrightarrow> w_status (tc_data cls) (tl_data t) = Inr OK"
    using m cursor.w_at_read(3) [OF data_cursor, of i "tl_data t" j] by (auto simp: mid_def split: if_splits)
  moreover have "tl_status t = OK" using m by (simp add: mid_def)
  ultimately show ?thesis by (auto simp: tl_get_status_def status_ok_def)
qed

lemma tl_at_le: "tl_at t p \<Longrightarrow> p \<le> length (concat chunks)"
  using concat_nth_start(2) [of _ chunks] by (fastforce simp: tl_at_def mid_def split: if_splits)

lemma TwoLevelIterator_new_at:
  assumes "iat i n" "n = length idx" "opened a"
  shows "\<exists>t. TwoLevelIterator_new cls i a = Inr t \<and> tl_at t (length (concat chunks))"
proof -
  obtain w where "w_Update (tc_index cls) i w_none = Inr w" "iw w (length chunks)"
    using cursor.Update_at [OF index_cursor assms(1), of w_none] assms(2) by (auto simp: index_length)
  then have "mid \<lparr>tl_arg = a, tl_status = OK, tl_index = w, tl_data = w_none, tl_handle = []\<rparr> (length chunks) 0"
    "TwoLevelIterator_new cls i a = Inr \<lparr>tl_arg = a, tl_status = OK, tl_index = w, tl_data = w_none, tl_handle = []\<rparr>"
    using assms(3) by (simp_all add: mid_def w_none_def TwoLevelIterator_new_def w_Set_def)
  then show ?thesis using tl_at_end by blast
qed

end

sublocale two_levels \<subseteq> all_blocks: cursor "TwoLevelIterator_class cls" C seekable "concat chunks" tl_at
  unfolding TwoLevelIterator_class_def
  by unfold_locales
    (simp_all only: iterator.simps, fact tl_at_le, fact tl_at_valid, fact tl_at_read(1), fact tl_at_read(2), fact tl_at_status,
     fact tl_at_first, fact tl_at_last, fact tl_at_seek, fact tl_at_next, fact tl_at_prev)

end
