(* ===== verification/Ldb_Crc32c.thy ===== *)
theory Ldb_Crc32c
  imports Ldb_Crc_Table
begin

text \<open>
  The checksum CRC-32C: db/leveldb/util/crc32c.h and crc32c.cc. \<open>Extend\<close> takes four bytes a step
  with four tables; the reference is the bit-by-bit division it computes.
\<close>

section \<open>Extend\<close>

text \<open>
  The macros \<open>STEP1\<close> and \<open>STEP4\<close>, and the loops. \<open>pval\<close> is the address of the buffer, which decides
  how many bytes are taken one at a time before the first aligned word.
\<close>

definition STEP1 :: "u32 \<Rightarrow> byte \<Rightarrow> u32" where
  "STEP1 l p = (let c = unat ((l AND 0xff) XOR ucast p) in table0 ! c XOR drop_bit 8 l)"

definition STEP4 :: "u32 \<Rightarrow> bytes \<Rightarrow> u32" where
  "STEP4 l p =
     (let c = l XOR fixed32 p in
      table3 ! unat (c AND 0xff) XOR table2 ! unat (drop_bit 8 c AND 0xff) XOR
      table1 ! unat (drop_bit 16 c AND 0xff) XOR table0 ! unat (drop_bit 24 c))"

definition steps1 :: "u32 \<Rightarrow> bytes \<Rightarrow> u32" where "steps1 l p = fold (\<lambda>b l. STEP1 l b) p l"

fun steps16 :: "u32 \<Rightarrow> bytes \<Rightarrow> u32 \<times> bytes" where
  "steps16 l p =
     (if 16 \<le> length p
      then steps16 (STEP4 (STEP4 (STEP4 (STEP4 l p) (drop 4 p)) (drop 8 p)) (drop 12 p)) (drop 16 p)
      else (l, p))"

fun steps4 :: "u32 \<Rightarrow> bytes \<Rightarrow> u32 \<times> bytes" where
  "steps4 l p = (if 4 \<le> length p then steps4 (STEP4 l p) (drop 4 p) else (l, p))"

declare steps16.simps [simp del] steps4.simps [simp del]

definition Extend :: "nat \<Rightarrow> u32 \<Rightarrow> bytes \<Rightarrow> u32" where
  "Extend pval crc buf =
     (let l = crc XOR 0xffffffff;
          x = (pval + 3) div 4 * 4 - pval;
          (l1, p1) = (if x \<le> length buf then (steps1 l (take x buf), drop x buf) else (l, buf));
          (l2, p2) = steps16 l1 p1;
          (l3, p3) = steps4 l2 p2
      in steps1 l3 p3 XOR 0xffffffff)"

definition Value :: "nat \<Rightarrow> bytes \<Rightarrow> u32" where "Value pval data = Extend pval 0 data"

definition kMaskDelta :: u32 where "kMaskDelta = 0xa282ead8"

definition Mask :: "u32 \<Rightarrow> u32" where
  "Mask crc = (drop_bit 15 crc OR push_bit 17 crc) + kMaskDelta"

definition Unmask :: "u32 \<Rightarrow> u32" where
  "Unmask masked_crc = (let rot = masked_crc - kMaskDelta in drop_bit 17 rot OR push_bit 15 rot)"

definition crc_byte :: "u32 \<Rightarrow> byte \<Rightarrow> u32" where "crc_byte l b = crc_bits 8 (l XOR ucast b)"

definition crc32c :: "u32 \<Rightarrow> bytes \<Rightarrow> u32" where
  "crc32c crc buf = fold (\<lambda>b l. crc_byte l b) buf (crc XOR 0xffffffff) XOR 0xffffffff"

section \<open>Extend computes the reference\<close>

lemma and_ff: "x AND 0xff = take_bit 8 (x :: u32)"
  by (simp add: take_bit_eq_mask mask_eq_exp_minus_1)

lemma bit_ucast_byte: "bit (ucast (b :: byte) :: u32) i \<longleftrightarrow> i < 8 \<and> bit b i"
  by (auto simp: bit_simps dest: bit_imp_le_length)

lemma take_bit_8_less: "unat (take_bit 8 x :: u32) < 256"
  unfolding unsigned_take_bit_eq by (rule order_less_le_trans [OF take_bit_nat_less_exp]) simp

lemma table_at: "table = map (\<lambda>i. crc_bits n (of_nat i)) [0..<256] \<Longrightarrow> table ! unat (take_bit 8 x :: u32) = crc_bits n (take_bit 8 x)"
  using take_bit_8_less [of x] by (simp add: of_nat_unat)

lemma crc_bits_push:
  assumes "\<And>i. 32 - n \<le> i \<Longrightarrow> \<not> bit z i"
  shows "crc_bits (n + m) (push_bit n z) = crc_bits m z"
proof -
  have "crc_bits n (push_bit n z) = drop_bit n (push_bit n z)" by (rule crc_bits_low) (simp add: bit_simps)
  also have "\<dots> = z" 
  proof (rule bit_word_eqI)
    fix i assume "i < LENGTH(32)"
    then show "bit (drop_bit n (push_bit n z)) i = bit z i" using assms [of i] by (cases "32 - n \<le> i") (auto simp: bit_simps)
  qed
  finally show ?thesis by (simp add: crc_bits_add)
qed

lemma STEP1_byte: "STEP1 l b = crc_byte l b"
proof -
  let ?x = "l XOR ucast b"
  have c: "(l AND 0xff) XOR ucast b = take_bit 8 ?x"
    by (rule bit_word_eqI) (auto simp: and_ff bit_simps dest: bit_imp_le_length)
  have split: "?x = take_bit 8 ?x XOR push_bit 8 (drop_bit 8 l)"
    by (rule bit_word_eqI) (auto simp: bit_simps dest: bit_imp_le_length)
  have "crc_bits (8 + 0) (push_bit 8 (drop_bit 8 l)) = crc_bits 0 (drop_bit 8 l)"
    by (rule crc_bits_push) (auto simp: bit_simps dest: bit_imp_le_length)
  then have "crc_bits 8 ?x = crc_bits 8 (take_bit 8 ?x) XOR drop_bit 8 l"
    by (subst split) (simp add: crc_bits_xor)
  then show ?thesis unfolding STEP1_def crc_byte_def Let_def c table_at [OF table0_spec] by simp
qed

lemma crc_4_bytes:
  "crc_byte (crc_byte (crc_byte (crc_byte l a) b) c) d =
   crc_bits 32 (l XOR (ucast a XOR push_bit 8 (ucast b) XOR push_bit 16 (ucast c) XOR push_bit 24 (ucast d)))"
proof -
  have p: "crc_bits (8 + n) (push_bit 8 z) = crc_bits n z" if "\<And>i. 24 \<le> i \<Longrightarrow> \<not> bit z i" for n z
    by (rule crc_bits_push) (use that in simp)
  have q: "crc_bits (8 + n) (l XOR (ucast x XOR push_bit 8 z)) = crc_bits n (crc_byte l x XOR z)"
    if "\<And>i. 24 \<le> i \<Longrightarrow> \<not> bit z i" for n l x z
    using p [OF that, of n] by (simp add: crc_byte_def crc_bits_xor crc_bits_add [of 8 n] xor.assoc)
  have w: "ucast a XOR push_bit 8 (ucast b) XOR push_bit 16 (ucast c) XOR push_bit 24 (ucast d) =
      ucast a XOR push_bit 8 (ucast b XOR push_bit 8 (ucast c XOR push_bit 8 (ucast d) :: u32) :: u32)"
    by (simp add: push_bit_xor ac_simps)
  have "crc_bits (8 + (8 + (8 + (8 + 0)))) (l XOR (ucast a XOR push_bit 8 (ucast b XOR push_bit 8 (ucast c XOR push_bit 8 (ucast d XOR push_bit 8 0))))) =
      crc_byte (crc_byte (crc_byte (crc_byte l a) b) c) d"
    by (subst q, (auto simp: bit_simps dest: bit_imp_le_length)[1])+ simp
  then show ?thesis unfolding w by simp
qed

lemma fixed32_bytes:
  assumes "4 \<le> length p"
  shows "fixed32 p = ucast (p ! 0) XOR push_bit 8 (ucast (p ! 1)) XOR push_bit 16 (ucast (p ! 2)) XOR push_bit 24 (ucast (p ! 3))"
proof (rule bit_word_eqI)
  fix k assume "k < LENGTH(32)"
  then have k: "k < 32" by simp
  have "bit (fixed32 p) k \<longleftrightarrow> bit (p ! (k div 8)) (k mod 8)"
    using assms k less_mult_imp_div_less [of k 4 8]
    by (simp add: fixed32_def DecodeFixed32_def kLittleEndian_def bit_host_word)
  moreover consider "k < 8" | "8 \<le> k" "k < 16" | "16 \<le> k" "k < 24" | "24 \<le> k" using k by linarith
  then have "bit (p ! (k div 8)) (k mod 8) \<longleftrightarrow>
      bit (ucast (p ! 0) XOR push_bit 8 (ucast (p ! 1)) XOR push_bit 16 (ucast (p ! 2)) XOR push_bit 24 (ucast (p ! 3)) :: u32) k"
    (is "?l \<longleftrightarrow> ?r")
  proof cases
    case 1
    then show ?thesis using k by (simp add: bit_xor_iff bit_push_bit_iff bit_ucast_byte)
  next
    case 2
    then have "k div 8 = 1" "k mod 8 = k - 8" by (simp_all add: div_nat_eqI mod_nat_eqI)
    moreover have "k - 8 < 8" using 2 k by linarith
    ultimately show ?thesis using 2 k by (simp add: bit_xor_iff bit_push_bit_iff bit_ucast_byte)
  next
    case 3
    then have "k div 8 = 2" "k mod 8 = k - 16" by (simp_all add: div_nat_eqI mod_nat_eqI)
    moreover have "k - 16 < 8" "\<not> k - 8 < 8" using 3 k by simp_all
    ultimately show ?thesis using 3 k by (simp add: bit_xor_iff bit_push_bit_iff bit_ucast_byte)
  next
    case 4
    then have "k div 8 = 3" "k mod 8 = k - 24" using k by (simp_all add: div_nat_eqI mod_nat_eqI)
    moreover have "k - 24 < 8" "\<not> k - 8 < 8" "\<not> k - 16 < 8" using 4 k by simp_all
    ultimately show ?thesis using 4 k by (simp add: bit_xor_iff bit_push_bit_iff bit_ucast_byte)
  qed
  ultimately show "bit (fixed32 p) k \<longleftrightarrow>
      bit (ucast (p ! 0) XOR push_bit 8 (ucast (p ! 1)) XOR push_bit 16 (ucast (p ! 2)) XOR push_bit 24 (ucast (p ! 3)) :: u32) k"
    by simp
qed

text \<open>A word is the sum of its four bytes, each moved to its place.\<close>

lemma word_of_bytes:
  "(c :: u32) = take_bit 8 c XOR push_bit 8 (take_bit 8 (drop_bit 8 c)) XOR push_bit 16 (take_bit 8 (drop_bit 16 c)) XOR
     push_bit 24 (take_bit 8 (drop_bit 24 c))"
proof (rule bit_word_eqI)
  fix k assume "k < LENGTH(32)"
  then consider "k < 8" | "8 \<le> k" "k < 16" | "16 \<le> k" "k < 24" | "24 \<le> k" "k < 32" by (simp, linarith)
  then show "bit c k \<longleftrightarrow> bit (take_bit 8 c XOR push_bit 8 (take_bit 8 (drop_bit 8 c)) XOR
      push_bit 16 (take_bit 8 (drop_bit 16 c)) XOR push_bit 24 (take_bit 8 (drop_bit 24 c))) k"
    by cases (auto simp: bit_simps)
qed

lemma STEP4_bytes:
  assumes "4 \<le> length p"
  shows "STEP4 l p = fold (\<lambda>b l. crc_byte l b) (take 4 p) l"
proof -
  obtain a b c d r where p: "p = a # b # c # d # r"
    using assms by (auto simp: numeral_eq_Suc Suc_le_length_iff)
  define w where "w = l XOR fixed32 p"
  have pb: "crc_bits (n + m) (push_bit n (take_bit 8 x)) = crc_bits m (take_bit 8 x)" if "n \<le> 24" for n m x
    by (rule crc_bits_push) (use that in \<open>auto simp: bit_simps\<close>)
  have "drop_bit 24 w = take_bit 8 (drop_bit 24 w)"
    by (rule bit_word_eqI) (auto simp: bit_simps dest: bit_imp_le_length)
  then have "STEP4 l p = crc_bits 32 (take_bit 8 w) XOR crc_bits 24 (take_bit 8 (drop_bit 8 w)) XOR
      crc_bits 16 (take_bit 8 (drop_bit 16 w)) XOR crc_bits 8 (take_bit 8 (drop_bit 24 w))"
    unfolding STEP4_def Let_def and_ff w_def [symmetric]
    using table_at [OF table0_spec, of "drop_bit 24 w"]
    by (simp add: table_at [OF table1_spec] table_at [OF table2_spec] table_at [OF table3_spec])
  also have "\<dots> = crc_bits 32 w"
    using pb [of 8 24 "drop_bit 8 w"] pb [of 16 16 "drop_bit 16 w"] pb [of 24 8 "drop_bit 24 w"]
    by (subst (5) word_of_bytes) (simp add: crc_bits_xor)
  also have "\<dots> = fold (\<lambda>b l. crc_byte l b) (take 4 p) l"
    unfolding w_def fixed32_bytes [OF assms] by (simp add: p crc_4_bytes)
  finally show ?thesis .
qed

lemma fold_STEP4:
  "4 \<le> length p \<Longrightarrow> fold (\<lambda>b l. crc_byte l b) p l = fold (\<lambda>b l. crc_byte l b) (drop 4 p) (STEP4 l p)"
proof -
  assume len: "4 \<le> length p"
  have "fold (\<lambda>b l. crc_byte l b) (take 4 p @ drop 4 p) l = fold (\<lambda>b l. crc_byte l b) (drop 4 p) (STEP4 l p)"
    using STEP4_bytes [OF len, of l] by (simp only: fold_append comp_apply)
  then show ?thesis by simp
qed

lemma steps16_bytes: "steps16 l p = (l', p') \<Longrightarrow> fold (\<lambda>b l. crc_byte l b) p' l' = fold (\<lambda>b l. crc_byte l b) p l"
proof (induction l p rule: steps16.induct)
  case (1 l p)
  show ?case
  proof (cases "16 \<le> length p")
    case True
    then have "fold (\<lambda>b l. crc_byte l b) p l =
        fold (\<lambda>b l. crc_byte l b) (drop 16 p) (STEP4 (STEP4 (STEP4 (STEP4 l p) (drop 4 p)) (drop 8 p)) (drop 12 p))"
      using fold_STEP4 [of p l] fold_STEP4 [of "drop 4 p"] fold_STEP4 [of "drop 8 p"] fold_STEP4 [of "drop 12 p"] by simp
    then show ?thesis using 1 True by (simp add: steps16.simps [of l p])
  next
    case False
    then show ?thesis using "1.prems" by (simp add: steps16.simps [of l p])
  qed
qed

lemma steps4_bytes: "steps4 l p = (l', p') \<Longrightarrow> fold (\<lambda>b l. crc_byte l b) p' l' = fold (\<lambda>b l. crc_byte l b) p l"
proof (induction l p rule: steps4.induct)
  case (1 l p)
  show ?case
  proof (cases "4 \<le> length p")
    case True
    then show ?thesis using 1 fold_STEP4 [of p l] by (simp add: steps4.simps [of l p])
  next
    case False
    then show ?thesis using "1.prems" by (simp add: steps4.simps [of l p])
  qed
qed

lemma steps1_bytes: "steps1 l p = fold (\<lambda>b l. crc_byte l b) p l"
  by (simp add: steps1_def STEP1_byte)

lemma Extend_reference: "Extend pval crc buf = crc32c crc buf"
proof -
  let ?f = "fold (\<lambda>b l. crc_byte l b)" and ?l = "crc XOR 0xffffffff" and ?x = "(pval + 3) div 4 * 4 - pval"
  obtain l1 p1 where 1: "(if ?x \<le> length buf then (steps1 ?l (take ?x buf), drop ?x buf) else (?l, buf)) = (l1, p1)" by fastforce
  have "?f buf ?l = ?f p1 l1"
  proof (cases "?x \<le> length buf")
    case True
    then have "l1 = ?f (take ?x buf) ?l" "p1 = drop ?x buf" using 1 by (simp_all add: steps1_bytes)
    then show ?thesis by (metis append_take_drop_id fold_append comp_apply)
  qed (use 1 in simp)
  moreover obtain l2 p2 where 2: "steps16 l1 p1 = (l2, p2)" by fastforce
  moreover obtain l3 p3 where 3: "steps4 l2 p2 = (l3, p3)" by fastforce
  ultimately have "?f buf ?l = ?f p3 l3" using steps16_bytes [OF 2] steps4_bytes [OF 3] by simp
  then show ?thesis
    unfolding Extend_def Let_def 1 by (simp add: 2 3 steps1_bytes crc32c_def)
qed

lemma crc32c_append: "crc32c crc (a @ b) = crc32c (crc32c crc a) b"
  by (simp add: crc32c_def xor.assoc)

lemma Unmask_Mask [simp]: "Unmask (Mask crc) = crc"
proof -
  have "drop_bit 17 (drop_bit 15 crc OR push_bit 17 crc) OR push_bit 15 (drop_bit 15 crc OR push_bit 17 crc) = crc"
  proof (rule bit_word_eqI)
    fix n assume "n < LENGTH(32)"
    then show "bit (drop_bit 17 (drop_bit 15 crc OR push_bit 17 crc) OR push_bit 15 (drop_bit 15 crc OR push_bit 17 crc)) n = bit crc n"
      by (cases "n < 15") (auto simp: bit_simps dest: bit_imp_le_length)
  qed
  then show ?thesis by (simp add: Mask_def Unmask_def)
qed

section \<open>Properties\<close>

text \<open>
  C9. The checksum routine with its four tables and its aligned four-byte steps computes the bit by
  bit division by the Castagnoli polynomial, wherever the buffer lies in memory; extending a checksum
  is the checksum of the longer string, and masking is undone by unmasking.
\<close>

theorem Extend_is_crc32c:
  "Extend pval crc buf = crc32c crc buf \<and> Extend p2 (Value p1 a) b = Value p3 (a @ b) \<and> Unmask (Mask crc) = crc"
  by (simp add: Extend_reference Value_def crc32c_append)

end
