(* ===== verification/Ldb_Memfile.thy ===== *)
theory Ldb_Memfile
  imports Ldb_Status
begin

text \<open>
  Files: the interface of db/leveldb/include/leveldb/env.h that the log and the tables use, and its
  implementation in memory, the class FileState of db/leveldb/helpers/memenv/memenv.cc with the three
  file objects over it.
\<close>

section \<open>The interface\<close>

record 'w writable_file =
  wf_Append :: "bytes \<Rightarrow> 'w \<Rightarrow> mem_error + (status \<times> 'w)"
  wf_Close :: "'w \<Rightarrow> mem_error + (status \<times> 'w)"
  wf_Flush :: "'w \<Rightarrow> mem_error + (status \<times> 'w)"
  wf_Sync :: "'w \<Rightarrow> mem_error + (status \<times> 'w)"

record 's sequential_file =
  sf_Read :: "nat \<Rightarrow> 's \<Rightarrow> mem_error + (status \<times> bytes \<times> 's)"
  sf_Skip :: "nat \<Rightarrow> 's \<Rightarrow> mem_error + (status \<times> 's)"

text \<open>What a file that keeps its contents promises to a writer and to a reader.\<close>

locale reliable_writable =
  fixes W :: "'w writable_file" and ok :: "'w \<Rightarrow> bool" and contents :: "'w \<Rightarrow> bytes"
  assumes append_ok: "ok w \<Longrightarrow> \<exists>w'. wf_Append W d w = Inr (OK, w') \<and> ok w' \<and> contents w' = contents w @ d"
    and flush_ok: "ok w \<Longrightarrow> wf_Flush W w = Inr (OK, w)"
    and sync_ok: "ok w \<Longrightarrow> wf_Sync W w = Inr (OK, w)"

locale reliable_sequential =
  fixes S :: "'s sequential_file" and ok :: "'s \<Rightarrow> bool" and rest :: "'s \<Rightarrow> bytes"
  assumes read_ok: "ok s \<Longrightarrow> \<exists>s'. sf_Read S n s = Inr (OK, take n (rest s), s') \<and> ok s' \<and> rest s' = drop n (rest s)"
    and skip_ok: "ok s \<Longrightarrow> \<exists>s'. sf_Skip S n s = Inr (OK, s') \<and> ok s' \<and> rest s' = drop n (rest s)"

section \<open>FileState\<close>

definition mem_kBlockSize :: nat where "mem_kBlockSize = 8 * 1024"

record file_state =
  fs_refs :: int
  fs_blocks :: "bytes list"
  fs_size :: nat

definition FileState_new :: file_state where
  "FileState_new = \<lparr>fs_refs = 0, fs_blocks = [], fs_size = 0\<rparr>"

text \<open>The copying loop of \<open>Read\<close>; a block that does not exist is an error.\<close>

function read_blocks :: "bytes list \<Rightarrow> nat \<Rightarrow> nat \<Rightarrow> nat \<Rightarrow> mem_error + bytes" where
  "read_blocks blocks block block_offset bytes_to_copy =
     (if bytes_to_copy = 0 then Inr []
      else
        (let avail = min (mem_kBlockSize - block_offset) bytes_to_copy in
         if block < length blocks \<and> block_offset + avail \<le> length (blocks ! block)
         then bind_res (read_blocks blocks (block + 1) 0 (bytes_to_copy - avail)) (\<lambda>r.
                Inr (take avail (drop block_offset (blocks ! block)) @ r))
         else Inl OutOfBounds))"
  by pat_completeness auto
termination
  by (relation "measure (\<lambda>(bs, b, off, n). 2 * n + (if off = 0 then 0 else 1))") (auto simp: mem_kBlockSize_def)

declare read_blocks.simps [simp del]

definition FileState_Read :: "nat \<Rightarrow> nat \<Rightarrow> file_state \<Rightarrow> mem_error + (status \<times> bytes)" where
  "FileState_Read offset n f =
     (if fs_size f < offset then Inr (IOError (str ''Offset greater than file size.'') [], [])
      else
        (let n' = min n (fs_size f - offset); block = offset div mem_kBlockSize;
             block_offset = offset mod mem_kBlockSize
         in if n' = 0 then Inr (OK, [])
            else if n' \<le> mem_kBlockSize - block_offset then
              (if block < length (fs_blocks f)
               then Inr (OK, take n' (drop block_offset (fs_blocks f ! block))) else Inl OutOfBounds)
            else bind_res (read_blocks (fs_blocks f) block block_offset n') (\<lambda>r. Inr (OK, r))))"

text \<open>A new block holds bytes the program has not set, here \<open>junk\<close>.\<close>

function FileState_Append :: "byte \<Rightarrow> bytes \<Rightarrow> file_state \<Rightarrow> mem_error + (status \<times> file_state)" where
  "FileState_Append junk src f =
     (if src = [] then Inr (OK, f)
      else
        (let offset = fs_size f mod mem_kBlockSize;
             blocks = (if offset \<noteq> 0 then fs_blocks f else fs_blocks f @ [replicate mem_kBlockSize junk]);
             avail = min (if offset \<noteq> 0 then mem_kBlockSize - offset else mem_kBlockSize) (length src)
         in if blocks = [] then Inl OutOfBounds
            else bind_res (memcpy (last blocks) offset src 0 avail) (\<lambda>b.
              FileState_Append junk (drop avail src)
                (f\<lparr>fs_blocks := butlast blocks @ [b], fs_size := fs_size f + avail\<rparr>))))"
  by pat_completeness auto
termination
  by (relation "measure (\<lambda>(j, src, f). length src)") (auto simp: mem_kBlockSize_def)

declare FileState_Append.simps [simp del]

section \<open>File objects\<close>

record seq_file =
  sq_file :: file_state
  sq_pos :: nat

definition SequentialFileImpl_Read :: "nat \<Rightarrow> seq_file \<Rightarrow> mem_error + (status \<times> bytes \<times> seq_file)" where
  "SequentialFileImpl_Read n s =
     bind_res (FileState_Read (sq_pos s) n (sq_file s)) (\<lambda>(st, r).
       Inr (st, r, if status_ok st then s\<lparr>sq_pos := sq_pos s + length r\<rparr> else s))"

definition SequentialFileImpl_Skip :: "nat \<Rightarrow> seq_file \<Rightarrow> mem_error + (status \<times> seq_file)" where
  "SequentialFileImpl_Skip n s =
     (if fs_size (sq_file s) < sq_pos s then Inr (IOError (str ''pos_ > file_->Size()'') [], s)
      else Inr (OK, s\<lparr>sq_pos := sq_pos s + min n (fs_size (sq_file s) - sq_pos s)\<rparr>))"

definition SequentialFileImpl :: "seq_file sequential_file" where
  "SequentialFileImpl = \<lparr>sf_Read = SequentialFileImpl_Read, sf_Skip = SequentialFileImpl_Skip\<rparr>"

definition WritableFileImpl :: "byte \<Rightarrow> file_state writable_file" where
  "WritableFileImpl junk = \<lparr>wf_Append = FileState_Append junk, wf_Close = (\<lambda>f. Inr (OK, f)),
     wf_Flush = (\<lambda>f. Inr (OK, f)), wf_Sync = (\<lambda>f. Inr (OK, f))\<rparr>"

section \<open>The contents of a file\<close>

definition file_contents :: "file_state \<Rightarrow> bytes" where
  "file_contents f = take (fs_size f) (concat (fs_blocks f))"

definition file_ok :: "file_state \<Rightarrow> bool" where
  "file_ok f \<longleftrightarrow> (\<forall>b \<in> set (fs_blocks f). length b = mem_kBlockSize) \<and>
     length (fs_blocks f) = (fs_size f + (mem_kBlockSize - 1)) div mem_kBlockSize"

lemma concat_block_length: "\<forall>b \<in> set bs. length b = k \<Longrightarrow> length (concat bs) = length bs * k"
  by (induction bs) auto

lemma drop_concat_blocks:
  "\<forall>b \<in> set bs. length b = k \<Longrightarrow> i < length bs \<Longrightarrow> j \<le> k \<Longrightarrow>
   drop (i * k + j) (concat bs) = drop j (bs ! i) @ concat (drop (Suc i) bs)"
proof (induction bs arbitrary: i)
  case (Cons b bs)
  then show ?case by (cases i) (simp_all add: add.assoc)
qed simp

lemma ceil_div: "0 < r \<Longrightarrow> r \<le> k \<Longrightarrow> (q * k + r + (k - 1)) div k = q + (1 :: nat)"
  by (rule div_nat_eqI) (simp_all add: algebra_simps)

lemma ceil_div_exact: "0 < k \<Longrightarrow> (q * k + (k - 1)) div k = (q :: nat)"
  by (rule div_nat_eqI) (simp_all add: algebra_simps)

lemma file_size_le: "file_ok f \<Longrightarrow> fs_size f \<le> length (concat (fs_blocks f))"
proof -
  assume ok: "file_ok f"
  have "n \<le> (n + 8191) div 8192 * 8192" for n :: nat
    using div_mult_mod_eq [of "n + 8191" 8192] mod_less_divisor [of 8192 "n + 8191"] by linarith
  then show ?thesis using ok by (simp add: file_ok_def concat_block_length [of _ 8192] mem_kBlockSize_def)
qed

lemma file_contents_length: "file_ok f \<Longrightarrow> length (file_contents f) = fs_size f"
  using file_size_le by (simp add: file_contents_def)

lemma read_blocks_ok:
  "\<forall>b \<in> set bs. length b = mem_kBlockSize \<Longrightarrow> j < mem_kBlockSize \<Longrightarrow> i * mem_kBlockSize + j + n \<le> length bs * mem_kBlockSize \<Longrightarrow>
    read_blocks bs i j n = Inr (take n (drop (i * mem_kBlockSize + j) (concat bs)))"
proof (induction bs i j n rule: read_blocks.induct)
  case (1 bs i j n)
  show ?case
  proof (cases "n = 0")
    case True
    then show ?thesis by (simp add: read_blocks.simps)
  next
    case False
    define k a where "k = mem_kBlockSize" and "a = min (k - j) n"
    have bs: "\<forall>b \<in> set bs. length b = k" and j: "j < k" and n: "i * k + j + n \<le> length bs * k"
      using "1.prems" by (simp_all add: k_def)
    have i: "i < length bs"
    proof (rule ccontr)
      assume "\<not> i < length bs"
      then have "length bs * k \<le> i * k" by simp
      then show False using n False by linarith
    qed
    then have "Suc i * k \<le> length bs * k" by (intro mult_le_mono1) simp
    then have fits: "Suc i * k + (n - a) \<le> length bs * k" using n by (auto simp: a_def min_def)
    have blk: "length (bs ! i) = k" using bs i by simp
    have d: "drop (i * k + j) (concat bs) = drop j (bs ! i) @ concat (drop (Suc i) bs)"
        "drop (Suc i * k) (concat bs) = concat (drop (Suc i) bs)"
      using drop_concat_blocks [OF bs i, of j] drop_concat_blocks [OF bs i, of k] j blk by (simp_all add: add.commute)
    have "read_blocks bs (i + 1) 0 (n - a) = Inr (take (n - a) (drop (Suc i * k) (concat bs)))"
      using "1.IH" [OF False refl] "1.prems"(1) i blk j fits by (simp add: k_def a_def)
    then have "read_blocks bs i j n = Inr (take a (drop j (bs ! i)) @ take (n - a) (concat (drop (Suc i) bs)))"
      unfolding d(2) read_blocks.simps [of bs i j n] Let_def k_def [symmetric] a_def [symmetric]
      using False i blk j by (simp add: a_def)
    also have "take a (drop j (bs ! i)) @ take (n - a) (concat (drop (Suc i) bs)) = take n (drop (i * k + j) (concat bs))"
      unfolding d(1) using blk by (auto simp: a_def min_def)
    finally show ?thesis by (simp add: k_def)
  qed
qed

lemma FileState_Read_ok:
  assumes "file_ok f" "offset \<le> fs_size f"
  shows "FileState_Read offset n f = Inr (OK, take n (drop offset (file_contents f)))"
proof -
  define k i j m where "k = mem_kBlockSize" and "i = offset div k" and "j = offset mod k" and "m = min n (fs_size f - offset)"
  have k: "0 < k" by (simp add: k_def mem_kBlockSize_def)
  have bs: "\<forall>b \<in> set (fs_blocks f). length b = k" using assms(1) by (simp add: file_ok_def k_def)
  have off: "i * k + j = offset" by (simp add: i_def j_def)
  have fits: "offset + m \<le> length (fs_blocks f) * k"
    using file_size_le [OF assms(1)] assms(2) by (simp add: concat_block_length [OF bs] m_def)
  have "take n (drop offset (file_contents f)) = take m (drop offset (concat (fs_blocks f)))"
    using assms(2) file_size_le [OF assms(1)] by (auto simp: file_contents_def m_def drop_take min_def)
  also have "FileState_Read offset n f = Inr (OK, \<dots>)"
  proof (cases "m = 0")
    case True
    then show ?thesis using assms(2) by (simp add: FileState_Read_def Let_def m_def)
  next
    case False
    have i: "i < length (fs_blocks f)"
    proof (rule ccontr)
      assume "\<not> i < length (fs_blocks f)"
      then have "length (fs_blocks f) * k \<le> i * k" by simp
      then show False using fits False off by linarith
    qed
    have j: "j < k" using k by (simp add: j_def)
    have d: "drop offset (concat (fs_blocks f)) = drop j (fs_blocks f ! i) @ concat (drop (Suc i) (fs_blocks f))"
      using drop_concat_blocks [OF bs i, of j] j by (simp add: off)
    have rd: "read_blocks (fs_blocks f) i j m = Inr (take m (drop offset (concat (fs_blocks f))))"
      using read_blocks_ok [of "fs_blocks f" j i m] bs j fits by (simp add: off [symmetric] k_def)
    have "\<not> fs_size f < offset" using assms(2) by simp
    then show ?thesis
      unfolding FileState_Read_def Let_def m_def [symmetric] k_def [symmetric] i_def [symmetric] j_def [symmetric]
      using False i rd bs by (simp add: d)
  qed
  finally show ?thesis .
qed

lemma append_block:
  assumes "\<forall>b \<in> set pre. length b = k" "length lst = k" "sz = length pre * k + off" "off + length x \<le> k"
  shows "take (sz + length x) (concat (pre @ [take off lst @ x @ drop (off + length x) lst])) = take sz (concat (pre @ [lst])) @ x"
  using assms by (simp add: concat_block_length [OF assms(1)] add.assoc)

lemma FileState_Append_ok:
  "file_ok f \<Longrightarrow> \<exists>f'. FileState_Append junk src f = Inr (OK, f') \<and> file_ok f' \<and>
     file_contents f' = file_contents f @ src \<and> fs_refs f' = fs_refs f"
proof (induction junk src f rule: FileState_Append.induct)
  case (1 junk src f)
  show ?case
  proof (cases "src = []")
    case True
    then show ?thesis using "1.prems" by (simp add: FileState_Append.simps)
  next
    case False
    define k off where "k = mem_kBlockSize" and "off = fs_size f mod k"
    define bs where "bs = (if off \<noteq> 0 then fs_blocks f else fs_blocks f @ [replicate k junk])"
    define a where "a = min (if off \<noteq> 0 then k - off else k) (length src)"
    have k: "k = 8192" by (simp add: k_def mem_kBlockSize_def)
    have off: "off < k" "fs_size f div k * k + off = fs_size f" by (simp_all add: k off_def)
    have all: "\<forall>b \<in> set bs. length b = k" and n: "length (fs_blocks f) = (fs_size f + (k - 1)) div k"
      using "1.prems" by (auto simp: file_ok_def bs_def k_def [symmetric])
    have len: "length bs = fs_size f div k + 1"
    proof (cases "off = 0")
      case True
      then have "(fs_size f + (k - 1)) div k = fs_size f div k"
        using ceil_div_exact [of k "fs_size f div k"] off by (simp only: add_0_right)
      then show ?thesis using n True by (simp add: bs_def)
    next
      case False
      then have "(fs_size f + (k - 1)) div k = fs_size f div k + 1"
        using ceil_div [of off k "fs_size f div k"] off(1) unfolding off(2) by simp
      then show ?thesis using n False by (simp add: bs_def)
    qed
    have a: "0 < a" "off + a \<le> k" "a \<le> length src" using off(1) False by (auto simp: a_def)
    have "bs \<noteq> []" using len by auto
    then have bs: "bs = butlast bs @ [last bs]" "bs \<noteq> []" by simp_all
    have lst: "length (last bs) = k" using all bs by (metis last_in_set)
    define b where "b = take off (last bs) @ take a src @ drop (off + a) (last bs)"
    have cp: "memcpy (last bs) off src 0 a = Inr b" using a lst by (simp add: memcpy_def b_def)
    define g where "g = f\<lparr>fs_blocks := butlast bs @ [b], fs_size := fs_size f + a\<rparr>"
    have cf: "file_contents f = take (fs_size f) (concat bs)"
      using file_size_le [OF "1.prems"] by (simp add: file_contents_def bs_def)
    have la: "length (take a src) = a" using a(3) by simp
    have "length (butlast bs) = fs_size f div k" using len by simp
    then have sz: "fs_size f = length (butlast bs) * k + off" by (simp only: off(2))
    have "\<forall>b \<in> set (butlast bs). length b = k" using all by (blast dest: in_set_butlastD)
    from append_block [OF this lst sz, of "take a src", unfolded la bs(1) [symmetric], OF a(2)]
    have "file_contents g = file_contents f @ take a src"
      unfolding cf by (simp add: file_contents_def g_def b_def)
    moreover have "file_ok g"
    proof -
      have "(fs_size f + a + (k - 1)) div k = fs_size f div k + 1"
        using ceil_div [of "off + a" k "fs_size f div k"] a unfolding add.assoc [symmetric] off(2) by simp
      moreover have "length b = k" using lst a by (simp add: b_def)
      ultimately show ?thesis
        using all len by (auto simp: file_ok_def g_def k_def [symmetric] dest: in_set_butlastD)
    qed
    moreover have "\<exists>f'. FileState_Append junk (drop a src) g = Inr (OK, f') \<and> file_ok f' \<and>
        file_contents f' = file_contents g @ drop a src \<and> fs_refs f' = fs_refs g"
      using "1.IH" [OF False refl refl refl, folded k_def, folded off_def, folded bs_def a_def, OF bs(2), of b, folded g_def]
        \<open>file_ok g\<close> by blast
    moreover have "FileState_Append junk src f = FileState_Append junk (drop a src) g"
      using False cp bs(2) unfolding FileState_Append.simps [of junk src f] Let_def k_def [symmetric] off_def [symmetric]
        bs_def [symmetric] a_def [symmetric] by (simp add: g_def)
    ultimately show ?thesis by (simp add: g_def)
  qed
qed

text \<open>A reader's position never passes the end of its file.\<close>

definition seq_ok :: "seq_file \<Rightarrow> bool" where
  "seq_ok s \<longleftrightarrow> file_ok (sq_file s) \<and> sq_pos s \<le> fs_size (sq_file s)"

definition seq_rest :: "seq_file \<Rightarrow> bytes" where
  "seq_rest s = drop (sq_pos s) (file_contents (sq_file s))"

lemma SequentialFileImpl_Read_ok:
  assumes "seq_ok s"
  shows "\<exists>s'. SequentialFileImpl_Read n s = Inr (OK, take n (seq_rest s), s') \<and> seq_ok s' \<and>
    seq_rest s' = drop n (seq_rest s) \<and> sq_file s' = sq_file s"
proof -
  let ?r = "take n (seq_rest s)" and ?s = "s\<lparr>sq_pos := sq_pos s + length (take n (seq_rest s))\<rparr>"
  have ok: "file_ok (sq_file s)" "sq_pos s \<le> fs_size (sq_file s)" using assms by (simp_all add: seq_ok_def)
  have "SequentialFileImpl_Read n s = Inr (OK, ?r, ?s)"
    using FileState_Read_ok [OF ok] by (simp add: SequentialFileImpl_Read_def seq_rest_def)
  moreover have "length ?r \<le> fs_size (sq_file s) - sq_pos s" using ok by (simp add: seq_rest_def file_contents_length)
  then have "seq_ok ?s" using ok by (simp add: seq_ok_def)
  moreover have "seq_rest ?s = drop n (seq_rest s)"
    using ok by (auto simp: seq_rest_def add.commute min_def file_contents_length)
  ultimately show ?thesis by auto
qed

lemma SequentialFileImpl_Skip_ok:
  assumes "seq_ok s"
  shows "\<exists>s'. SequentialFileImpl_Skip n s = Inr (OK, s') \<and> seq_ok s' \<and> seq_rest s' = drop n (seq_rest s)"
proof -
  have ok: "file_ok (sq_file s)" "sq_pos s \<le> fs_size (sq_file s)" using assms by (simp_all add: seq_ok_def)
  then show ?thesis
    by (auto simp: SequentialFileImpl_Skip_def seq_ok_def seq_rest_def add.commute min_def file_contents_length)
qed

interpretation mem_writable: reliable_writable "WritableFileImpl junk" file_ok file_contents
proof
  show "\<exists>w'. wf_Append (WritableFileImpl junk) d w = Inr (OK, w') \<and> file_ok w' \<and> file_contents w' = file_contents w @ d"
    if "file_ok w" for w d
    using FileState_Append_ok [OF that, of junk d] by (auto simp: WritableFileImpl_def)
qed (simp_all add: WritableFileImpl_def)

interpretation mem_sequential: reliable_sequential SequentialFileImpl seq_ok seq_rest
proof
  show "\<exists>s'. sf_Read SequentialFileImpl n s = Inr (OK, take n (seq_rest s), s') \<and> seq_ok s' \<and> seq_rest s' = drop n (seq_rest s)"
    if "seq_ok s" for s n
    using SequentialFileImpl_Read_ok [OF that, of n] by (auto simp: SequentialFileImpl_def)
  show "\<exists>s'. sf_Skip SequentialFileImpl n s = Inr (OK, s') \<and> seq_ok s' \<and> seq_rest s' = drop n (seq_rest s)"
    if "seq_ok s" for s n
    using SequentialFileImpl_Skip_ok [OF that, of n] by (auto simp: SequentialFileImpl_def)
qed

section \<open>Properties\<close>

text \<open>
  C17. A file in memory is the string of the bytes appended to it: on a well-formed file no access of
  \<open>Append\<close> or \<open>Read\<close> leaves its blocks, appending extends the contents, keeps the file well formed and
  returns success, and a read returns the bytes at its offset, as many as there are.
\<close>

theorem memfile_refines:
  assumes "file_ok f"
  shows "\<exists>f'. FileState_Append junk d f = Inr (OK, f') \<and> file_ok f' \<and> file_contents f' = file_contents f @ d \<and>
    (\<forall>offset n. FileState_Read offset n f' =
      Inr (if offset \<le> length (file_contents f @ d) then (OK, take n (drop offset (file_contents f @ d)))
           else (IOError (str ''Offset greater than file size.'') [], [])))"
proof -
  obtain f' where f': "FileState_Append junk d f = Inr (OK, f')" "file_ok f'" "file_contents f' = file_contents f @ d"
    using FileState_Append_ok [OF assms] by blast
  have len: "fs_size f' = length (file_contents f @ d)" using file_contents_length [OF f'(2)] f'(3) by simp
  have "FileState_Read offset n f' =
      Inr (if offset \<le> length (file_contents f @ d) then (OK, take n (drop offset (file_contents f @ d)))
           else (IOError (str ''Offset greater than file size.'') [], []))" for offset n
  proof (cases "offset \<le> length (file_contents f @ d)")
    case True
    then show ?thesis using FileState_Read_ok [OF f'(2), of offset n] by (simp only: len f'(3) if_True)
  next
    case False
    then show ?thesis unfolding FileState_Read_def len by simp
  qed
  then show ?thesis using f' by blast
qed

theorem memfile_refines_witness:
  "\<exists>f'. FileState_Append 0 [1, 2, 3] FileState_new = Inr (OK, f') \<and> FileState_Read 1 5 f' = Inr (OK, [2, 3])"
proof -
  have "file_ok FileState_new" "file_contents FileState_new = []"
    by (simp_all add: file_ok_def file_contents_def FileState_new_def mem_kBlockSize_def)
  then show ?thesis using memfile_refines [of FileState_new 0 "[1, 2, 3]"] by fastforce
qed

end
