(* ===== verification/Ldb_Format.thy ===== *)
theory Ldb_Format
  imports Ldb_Coding Ldb_Crc32c Ldb_Memfile
begin

text \<open>
  The format of table files: db/leveldb/table/format.h and format.cc. Handles of blocks, the footer of
  a file, and reading a block with its trailer of type and checksum. The snappy library is a parameter.
\<close>

section \<open>Handles\<close>

record block_handle =
  bh_offset :: u64
  bh_size :: u64

definition BlockHandle_new :: block_handle where "BlockHandle_new = \<lparr>bh_offset = - 1, bh_size = - 1\<rparr>"

definition kMaxEncodedLength :: nat where "kMaxEncodedLength = 10 + 10"

definition bh_EncodeTo :: "block_handle \<Rightarrow> bytes \<Rightarrow> mem_error + bytes" where
  "bh_EncodeTo h dst =
     (if bh_offset h = - 1 \<or> bh_size h = - 1 then Inl AssertionFails
      else Inr (PutVarint64 (PutVarint64 dst (bh_offset h)) (bh_size h)))"

text \<open>The handle and the rest of the input, or the status of the failure.\<close>

definition bh_DecodeFrom :: "bytes \<Rightarrow> status + block_handle \<times> bytes" where
  "bh_DecodeFrom input =
     (case GetVarint64 input of
        Some (off, r1) \<Rightarrow>
          (case GetVarint64 r1 of
             Some (sz, r2) \<Rightarrow> Inr (\<lparr>bh_offset = off, bh_size = sz\<rparr>, r2)
           | None \<Rightarrow> Inl (Corruption (str ''bad block handle'') []))
      | None \<Rightarrow> Inl (Corruption (str ''bad block handle'') []))"

section \<open>The footer\<close>

record footer =
  metaindex_handle :: block_handle
  index_handle :: block_handle

definition footer_kEncodedLength :: nat where "footer_kEncodedLength = 2 * kMaxEncodedLength + 8"

definition kTableMagicNumber :: u64 where "kTableMagicNumber = 0xdb4775248b80fb57"

text \<open>\<open>std::string::resize\<close> cuts the string or fills it up with zero bytes.\<close>

definition resize :: "nat \<Rightarrow> bytes \<Rightarrow> bytes" where "resize n s = take n s @ replicate (n - length s) 0"

definition footer_EncodeTo :: "footer \<Rightarrow> bytes \<Rightarrow> mem_error + bytes" where
  "footer_EncodeTo f dst =
     bind_res (bh_EncodeTo (metaindex_handle f) dst) (\<lambda>d1.
     bind_res (bh_EncodeTo (index_handle f) d1) (\<lambda>d2.
       let d3 = resize (2 * kMaxEncodedLength) d2;
           d4 = PutFixed32 kLittleEndian d3 (ucast (kTableMagicNumber AND 0xffffffff));
           d5 = PutFixed32 kLittleEndian d4 (ucast (drop_bit 32 kTableMagicNumber))
       in if length d5 = length dst + footer_kEncodedLength then Inr d5 else Inl AssertionFails))"

definition footer_DecodeFrom :: "bytes \<Rightarrow> mem_error + (status + footer \<times> bytes)" where
  "footer_DecodeFrom input =
     (let magic_ptr = footer_kEncodedLength - 8 in
      bind_res (DecodeFixed32 kLittleEndian (drop magic_ptr input)) (\<lambda>magic_lo.
      bind_res (DecodeFixed32 kLittleEndian (drop (magic_ptr + 4) input)) (\<lambda>magic_hi.
        if push_bit 32 (ucast magic_hi) OR ucast magic_lo \<noteq> kTableMagicNumber
        then Inr (Inl (Corruption (str ''not an sstable (bad magic number)'') []))
        else
          (case bh_DecodeFrom input of
             Inl s \<Rightarrow> Inr (Inl s)
           | Inr (meta, r1) \<Rightarrow>
               (case bh_DecodeFrom r1 of
                  Inl s \<Rightarrow> Inr (Inl s)
                | Inr (idx, r2) \<Rightarrow>
                    Inr (Inr (\<lparr>metaindex_handle = meta, index_handle = idx\<rparr>, drop (magic_ptr + 8) input)))))))"

section \<open>Random access files\<close>

text \<open>
  \<open>ra_Read\<close> gives the status, the bytes of the result and whether the result lies in the buffer
  that the caller lends.
\<close>

record 'f random_file =
  ra_Read :: "nat \<Rightarrow> nat \<Rightarrow> 'f \<Rightarrow> mem_error + status \<times> bytes \<times> bool"

locale reliable_random =
  fixes F :: "'f random_file" and ok :: "'f \<Rightarrow> bool" and contents :: "'f \<Rightarrow> bytes"
  assumes random_read: "ok f \<Longrightarrow> off \<le> length (contents f) \<Longrightarrow>
    \<exists>inbuf. ra_Read F off n f = Inr (OK, take n (drop off (contents f)), inbuf)"

text \<open>The file in memory copies only what spans two of its blocks.\<close>

definition RandomAccessFileImpl :: "file_state random_file" where
  "RandomAccessFileImpl = \<lparr>ra_Read = (\<lambda>off n f.
     bind_res (FileState_Read off n f) (\<lambda>(s, r). Inr (s, r, mem_kBlockSize - off mod mem_kBlockSize < length r)))\<rparr>"

interpretation mem_random: reliable_random RandomAccessFileImpl file_ok file_contents
  by unfold_locales (simp add: RandomAccessFileImpl_def FileState_Read_ok file_contents_length)

section \<open>Reading a block\<close>

datatype compression_type = kNoCompression | kSnappyCompression

fun compression_byte :: "compression_type \<Rightarrow> byte" where
  "compression_byte kNoCompression = 0"
| "compression_byte kSnappyCompression = 1"

record snappy =
  Snappy_Compress :: "bytes \<Rightarrow> bytes option"
  Snappy_GetUncompressedLength :: "bytes \<Rightarrow> nat option"
  Snappy_Uncompress :: "bytes \<Rightarrow> bytes option"

definition snappy_laws :: "snappy \<Rightarrow> bool" where
  "snappy_laws Z \<longleftrightarrow> (\<forall>raw c. Snappy_Compress Z raw = Some c \<longrightarrow>
     Snappy_GetUncompressedLength Z c = Some (length raw) \<and> Snappy_Uncompress Z c = Some raw)"

record read_options =
  verify_checksums :: bool
  fill_cache :: bool

definition ReadOptions_new :: read_options where "ReadOptions_new = \<lparr>verify_checksums = False, fill_cache = True\<rparr>"

record block_contents =
  bc_data :: bytes
  bc_cachable :: bool
  bc_heap_allocated :: bool

definition kBlockTrailerSize :: nat where "kBlockTrailerSize = 5"

text \<open>The block, or the status of the failure.\<close>

definition uncompress :: "snappy \<Rightarrow> bytes \<Rightarrow> mem_error + (status + block_contents)" where
  "uncompress Z data =
     (case Snappy_GetUncompressedLength Z data of
        None \<Rightarrow> Inr (Inl (Corruption (str ''corrupted compressed block contents'') []))
      | Some ulength \<Rightarrow>
          (case Snappy_Uncompress Z data of
             None \<Rightarrow> Inr (Inl (Corruption (str ''corrupted compressed block contents'') []))
           | Some ubuf \<Rightarrow>
               if ulength < length ubuf then Inl OutOfBounds
               else if length ubuf < ulength then Inl Uninitialised
               else Inr (Inr \<lparr>bc_data = ubuf, bc_cachable = True, bc_heap_allocated = True\<rparr>)))"

definition ReadBlock :: "snappy \<Rightarrow> 'f random_file \<Rightarrow> 'f \<Rightarrow> read_options \<Rightarrow> block_handle \<Rightarrow> mem_error + (status + block_contents)" where
  "ReadBlock Z F file options handle =
     (let n = unat (bh_size handle); len = (n + kBlockTrailerSize) mod 2 ^ 64 in
      bind_res (ra_Read F (unat (bh_offset handle)) len file) (\<lambda>(s, data, inbuf).
        if \<not> status_ok s then Inr (Inl s)
        else if length data \<noteq> len then Inr (Inl (Corruption (str ''truncated block read'') []))
        else
          bind_res (if verify_checksums options
                    then bind_res (DecodeFixed32 kLittleEndian (drop (n + 1) data)) (\<lambda>crc. Inr (Value 0 (take (n + 1) data) = Unmask crc))
                    else Inr True) (\<lambda>good.
            if \<not> good then Inr (Inl (Corruption (str ''block checksum mismatch'') []))
            else if length data \<le> n then Inl OutOfBounds
            else if data ! n = compression_byte kNoCompression then
              Inr (Inr \<lparr>bc_data = take n data, bc_cachable = inbuf, bc_heap_allocated = inbuf\<rparr>)
            else if data ! n = compression_byte kSnappyCompression then uncompress Z (take n data)
            else Inr (Inl (Corruption (str ''bad block type'') [])))))"

section \<open>Round trips\<close>

definition handle_bytes :: "block_handle \<Rightarrow> bytes" where
  "handle_bytes h = EncodeVarint64 (bh_offset h) @ EncodeVarint64 (bh_size h)"

definition handle_set :: "block_handle \<Rightarrow> bool" where "handle_set h \<longleftrightarrow> bh_offset h \<noteq> - 1 \<and> bh_size h \<noteq> - 1"

lemma bh_EncodeTo_bytes [simp]: "handle_set h \<Longrightarrow> bh_EncodeTo h dst = Inr (dst @ handle_bytes h)"
  by (simp add: handle_set_def bh_EncodeTo_def handle_bytes_def PutVarint64_def)

lemma bh_DecodeFrom_bytes [simp]: "bh_DecodeFrom (handle_bytes h @ rest) = Inr (h, rest)"
  by (simp add: bh_DecodeFrom_def handle_bytes_def codec_simps)

interpretation handle: codec handle_bytes "\<lambda>input. case bh_DecodeFrom input of Inl _ \<Rightarrow> None | Inr x \<Rightarrow> Some x" "\<lambda>_. True"
  by unfold_locales simp

definition footer_bytes :: "footer \<Rightarrow> bytes" where
  "footer_bytes f = resize 40 (handle_bytes (metaindex_handle f) @ handle_bytes (index_handle f)) @
     EncodeFixed32 kLittleEndian (ucast (kTableMagicNumber AND 0xffffffff)) @
     EncodeFixed32 kLittleEndian (ucast (drop_bit 32 kTableMagicNumber))"

lemma resize_length [simp]: "length (resize n s) = n"
  by (simp add: resize_def)

lemma footer_bytes_length [simp]: "length (footer_bytes f) = 48"
  by (simp add: footer_bytes_def)

lemma footer_EncodeTo_bytes:
  "handle_set (metaindex_handle f) \<Longrightarrow> handle_set (index_handle f) \<Longrightarrow> footer_EncodeTo f [] = Inr (footer_bytes f)"
  by (simp add: footer_EncodeTo_def footer_bytes_def kMaxEncodedLength_def footer_kEncodedLength_def PutFixed32_def Let_def)

lemma magic_words:
  "push_bit 32 (ucast (ucast (drop_bit 32 kTableMagicNumber) :: u32)) OR ucast (ucast (kTableMagicNumber AND 0xffffffff) :: u32) = kTableMagicNumber"
  unfolding kTableMagicNumber_def by code_simp

lemma footer_DecodeFrom_bytes: "footer_DecodeFrom (footer_bytes f @ rest) = Inr (Inr (f, rest))"
proof -
  let ?hs = "handle_bytes (metaindex_handle f) @ handle_bytes (index_handle f)"
  define pad where "pad = replicate (40 - length ?hs) (0 :: byte)"
  define lo where "lo = EncodeFixed32 kLittleEndian (ucast (kTableMagicNumber AND 0xffffffff))"
  define hi where "hi = EncodeFixed32 kLittleEndian (ucast (drop_bit 32 kTableMagicNumber))"
  have "length ?hs \<le> 40" using varint_max_length(2) [of "bh_offset (metaindex_handle f)"] varint_max_length(2) [of "bh_size (metaindex_handle f)"]
    varint_max_length(2) [of "bh_offset (index_handle f)"] varint_max_length(2) [of "bh_size (index_handle f)"]
    by (simp add: handle_bytes_def)
  then have hs: "footer_bytes f = ?hs @ pad @ lo @ hi" "length (?hs @ pad) = 40" by (simp_all add: footer_bytes_def resize_def pad_def lo_def hi_def)
  have "drop 40 (footer_bytes f @ rest) = lo @ hi @ rest" "drop 44 (footer_bytes f @ rest) = hi @ rest"
    unfolding hs(1) using hs(2) by (simp_all add: lo_def)
  then have m: "DecodeFixed32 kLittleEndian (drop 40 (footer_bytes f @ rest)) = Inr (ucast (kTableMagicNumber AND 0xffffffff))"
    "DecodeFixed32 kLittleEndian (drop 44 (footer_bytes f @ rest)) = Inr (ucast (drop_bit 32 kTableMagicNumber))"
    by (simp_all add: lo_def hi_def codec_simps)
  have "bh_DecodeFrom (footer_bytes f @ rest) = Inr (metaindex_handle f, handle_bytes (index_handle f) @ pad @ lo @ hi @ rest)"
    by (simp add: hs(1))
  then show ?thesis
    using m magic_words by (simp add: footer_DecodeFrom_def footer_kEncodedLength_def kMaxEncodedLength_def Let_def)
qed

text \<open>A block in a file, and the block behind what is stored.\<close>

definition block_image :: "bytes \<Rightarrow> compression_type \<Rightarrow> bytes" where
  "block_image c t = c @ compression_byte t # EncodeFixed32 kLittleEndian (Mask (crc32c 0 (c @ [compression_byte t])))"

lemma block_image_length [simp]: "length (block_image c t) = length c + 5"
  by (simp add: block_image_def)

definition stored :: "snappy \<Rightarrow> bytes \<Rightarrow> bytes \<Rightarrow> compression_type \<Rightarrow> bool" where
  "stored Z raw c t \<longleftrightarrow> (case t of kNoCompression \<Rightarrow> c = raw
     | kSnappyCompression \<Rightarrow> Snappy_GetUncompressedLength Z c = Some (length raw) \<and> Snappy_Uncompress Z c = Some raw)"

context reliable_random
begin

lemma ReadBlock_image:
  assumes "ok f" "contents f = pre @ block_image c t @ post" "stored Z raw c t" "length (contents f) < 2 ^ 64"
    and h: "bh_offset h = of_nat (length pre)" "bh_size h = of_nat (length c)"
  shows "\<exists>bc. ReadBlock Z F f opts h = Inr (Inr bc) \<and> bc_data bc = raw"
proof -
  have u: "unat (bh_offset h) = length pre" "unat (bh_size h) = length c" using assms(2,4) by (simp_all add: h unat_of_nat_u64)
  have len: "(length c + kBlockTrailerSize) mod 2 ^ 64 = length (block_image c t)" using assms(2,4) by (simp add: kBlockTrailerSize_def)
  obtain inbuf where "ra_Read F (length pre) (length (block_image c t)) f = Inr (OK, take (length (block_image c t)) (drop (length pre) (contents f)), inbuf)"
    using random_read [OF assms(1), of "length pre" "length (block_image c t)"] assms(2) by auto
  then have r: "ra_Read F (length pre) (length (block_image c t)) f = Inr (OK, block_image c t, inbuf)" by (simp add: assms(2))
  have crc: "drop (length c + 1) (block_image c t) = EncodeFixed32 kLittleEndian (Mask (crc32c 0 (c @ [compression_byte t])))"
    "take (length c + 1) (block_image c t) = c @ [compression_byte t]" by (simp_all add: block_image_def)
  have good: "(if verify_checksums opts
      then bind_res (DecodeFixed32 kLittleEndian (drop (length c + 1) (block_image c t)))
        (\<lambda>crc. Inr (Value 0 (take (length c + 1) (block_image c t)) = Unmask crc)) else Inr True) = Inr True"
    unfolding crc using DecodeFixed32_Encode [where rest = "[]"] by (simp add: Value_def Extend_reference)
  have last: "block_image c t ! length c = compression_byte t" "take (length c) (block_image c t) = c" by (simp_all add: block_image_def)
  have "\<not> length (block_image c t) \<le> length c" by simp
  moreover define img where "img = block_image c t"
  ultimately have "ReadBlock Z F f opts h =
      (if img ! length c = compression_byte kNoCompression then Inr (Inr \<lparr>bc_data = take (length c) img, bc_cachable = inbuf, bc_heap_allocated = inbuf\<rparr>)
       else if img ! length c = compression_byte kSnappyCompression then uncompress Z (take (length c) img)
       else Inr (Inl (Corruption (str ''bad block type'') [])))"
    using r good unfolding ReadBlock_def Let_def u len by (simp add: status_ok_def)
  then show ?thesis
    unfolding img_def last using assms(3) by (cases t) (simp_all add: uncompress_def stored_def)
qed

end

end
