(* ===== verification/Ldb_Filter.thy ===== *)
theory Ldb_Filter
  imports Ldb_Dbformat
begin

text \<open>
  Hashing and filter policies: db/leveldb/util/hash.cc, util/bloom.cc, include/leveldb/filter_policy.h
  and the filter policy of internal keys in db/dbformat.cc.
\<close>

section \<open>Hash\<close>

definition hash_mix :: "nat \<Rightarrow> u32 \<Rightarrow> u32 \<Rightarrow> u32" where
  "hash_mix r h w = (let g = (h + w) * 0xc6a4a793 in g XOR drop_bit r g)"

text \<open>The loop over words and the switch on the bytes that remain.\<close>

fun hash_loop :: "u32 \<Rightarrow> bytes \<Rightarrow> u32" where
  "hash_loop h (a # b # c # d # rest) = hash_loop (hash_mix 16 h (fixed32 [a, b, c, d])) rest"
| "hash_loop h [a, b, c] =
     hash_mix 24 (h + push_bit 16 (ucast c) + push_bit 8 (ucast b)) (ucast a)"
| "hash_loop h [a, b] = hash_mix 24 (h + push_bit 8 (ucast b)) (ucast a)"
| "hash_loop h [a] = hash_mix 24 h (ucast a)"
| "hash_loop h [] = h"

definition Hash :: "bytes \<Rightarrow> u32 \<Rightarrow> u32" where
  "Hash data seed = hash_loop (seed XOR (of_nat (length data) * 0xc6a4a793)) data"

section \<open>Filter policies\<close>

record filter_policy =
  CreateFilter :: "bytes list \<Rightarrow> bytes \<Rightarrow> bytes"
  KeyMayMatch :: "bytes \<Rightarrow> bytes \<Rightarrow> bool"

text \<open>
  What filter_policy.h promises, for keys in \<open>ok\<close>: a filter is appended to the destination, and it
  matches every key it was made of.
\<close>

locale filter_policy_laws =
  fixes P :: filter_policy and ok :: "bytes \<Rightarrow> bool"
  assumes create_appends: "CreateFilter P keys dst = dst @ CreateFilter P keys []"
    and no_false_negative: "k \<in> set keys \<Longrightarrow> \<forall>x \<in> set keys. ok x \<Longrightarrow>
      KeyMayMatch P k (CreateFilter P keys [])"

section \<open>The Bloom filter\<close>

definition BloomHash :: "bytes \<Rightarrow> u32" where "BloomHash key = Hash key 0xbc9f1d34"

text \<open>
  The number of probes: the product with 0.69 in double precision, truncated, is that with 69/100
  for all arguments that the bounds 1 and 30 let through.
\<close>

definition bloom_k :: "nat \<Rightarrow> nat" where
  "bloom_k bits_per_key =
     (let k = bits_per_key * 69 div 100 in if k < 1 then 1 else if 30 < k then 30 else k)"

definition rotate17 :: "u32 \<Rightarrow> u32" where "rotate17 h = drop_bit 17 h OR push_bit 15 h"

fun set_probes :: "nat \<Rightarrow> nat \<Rightarrow> u32 \<Rightarrow> u32 \<Rightarrow> bytes \<Rightarrow> bytes" where
  "set_probes bits 0 h delta array = array"
| "set_probes bits (Suc j) h delta array =
     (let bitpos = unat h mod bits in
      set_probes bits j (h + delta) delta
        (array[bitpos div 8 := array ! (bitpos div 8) OR push_bit (bitpos mod 8) 1]))"

fun add_keys :: "nat \<Rightarrow> nat \<Rightarrow> bytes list \<Rightarrow> bytes \<Rightarrow> bytes" where
  "add_keys bits k [] array = array"
| "add_keys bits k (key # keys) array =
     (let h = BloomHash key in add_keys bits k keys (set_probes bits k h (rotate17 h) array))"

definition bloom_create :: "nat \<Rightarrow> bytes list \<Rightarrow> bytes \<Rightarrow> bytes" where
  "bloom_create bits_per_key keys dst =
     (let bits0 = length keys * bits_per_key;
          bits1 = (if bits0 < 64 then 64 else bits0);
          bytes = (bits1 + 7) div 8;
          bits = bytes * 8;
          k = bloom_k bits_per_key
      in dst @ add_keys bits k keys (replicate bytes 0) @ [of_nat k])"

fun test_probes :: "nat \<Rightarrow> nat \<Rightarrow> u32 \<Rightarrow> u32 \<Rightarrow> bytes \<Rightarrow> bool" where
  "test_probes bits 0 h delta array = True"
| "test_probes bits (Suc j) h delta array =
     (let bitpos = unat h mod bits in
      if array ! (bitpos div 8) AND push_bit (bitpos mod 8) 1 = 0 then False
      else test_probes bits j (h + delta) delta array)"

definition bloom_match :: "bytes \<Rightarrow> bytes \<Rightarrow> bool" where
  "bloom_match key bloom_filter =
     (let len = length bloom_filter in
      if len < 2 then False
      else
        (let bits = (len - 1) * 8; k = unat (bloom_filter ! (len - 1)) in
         if 30 < k then True
         else (let h = BloomHash key in test_probes bits k h (rotate17 h) bloom_filter)))"

definition NewBloomFilterPolicy :: "nat \<Rightarrow> filter_policy" where
  "NewBloomFilterPolicy bits_per_key =
     \<lparr>CreateFilter = bloom_create bits_per_key, KeyMayMatch = bloom_match\<rparr>"

section \<open>Filters of internal keys\<close>

text \<open>
  The policy that drops the eight bytes of sequence number and type from every key; a key that is
  too short fails an assertion of the source.
\<close>

definition user_part :: "bytes \<Rightarrow> bytes" where
  "user_part k = (case ExtractUserKey k of Inl _ \<Rightarrow> k | Inr u \<Rightarrow> u)"

definition InternalFilterPolicy :: "filter_policy \<Rightarrow> filter_policy" where
  "InternalFilterPolicy user_policy =
     \<lparr>CreateFilter = (\<lambda>keys dst. CreateFilter user_policy (map user_part keys) dst),
      KeyMayMatch = (\<lambda>key f. KeyMayMatch user_policy (user_part key) f)\<rparr>"

section \<open>No false negatives\<close>

lemma hash_vectors:
  "Hash [] 0xbc9f1d34 = 0xbc9f1d34" "Hash [0x62] 0xbc9f1d34 = 0xef1345c4"
  "Hash [0xc3, 0x97] 0xbc9f1d34 = 0x5b663814" "Hash [0xe2, 0x99, 0xa5] 0xbc9f1d34 = 0x323c078f"
  "Hash [0xe1, 0x80, 0xb9, 0x32] 0xbc9f1d34 = 0xed21633a"
  by code_simp+

definition bit_at :: "bytes \<Rightarrow> nat \<Rightarrow> bool" where
  "bit_at array p \<longleftrightarrow> p div 8 < length array \<and> bit (array ! (p div 8)) (p mod 8)"

lemma set_probes_length [simp]: "length (set_probes bits k h delta array) = length array"
  by (induction k arbitrary: h array) (simp_all add: Let_def)

lemma bit_at_update:
  assumes "p div 8 < length array"
  shows "bit_at (array[p div 8 := array ! (p div 8) OR push_bit (p mod 8) 1]) q \<longleftrightarrow> bit_at array q \<or> q = p"
proof -
  have "q div 8 = p div 8 \<Longrightarrow> q mod 8 = p mod 8 \<longleftrightarrow> q = p" by (metis div_mult_mod_eq)
  then show ?thesis
    using assms by (auto simp: bit_at_def nth_list_update bit_simps bit_push_bit_iff)
qed

lemma set_probes_keep:
  "bit_at array q \<Longrightarrow> bits = 8 * length array \<Longrightarrow> 0 < bits \<Longrightarrow> bit_at (set_probes bits k h delta array) q"
proof (induction k arbitrary: h array)
  case (Suc k)
  let ?p = "unat h mod bits"
  have "?p < bits" using Suc.prems(3) by simp
  then have "?p div 8 < length array" using Suc.prems(2) by simp
  then have "bit_at (array[?p div 8 := array ! (?p div 8) OR push_bit (?p mod 8) 1]) q"
    using Suc.prems(1) bit_at_update by blast
  from Suc.IH [OF this, of "h + delta"] Suc.prems(2,3) show ?case by (simp add: Let_def)
qed simp

lemma bit_test [simp]: "(b :: byte) AND 2 ^ n = 0 \<longleftrightarrow> \<not> bit b n"
  by (rule and_exp_eq_0_iff_not_bit)

lemma test_after_set:
  "bits = 8 * length array \<Longrightarrow> 0 < bits \<Longrightarrow>
   (\<And>q. bit_at (set_probes bits k h delta array) q \<Longrightarrow> bit_at f q) \<Longrightarrow> test_probes bits k h delta f"
proof (induction k arbitrary: h array)
  case (Suc k)
  let ?p = "unat h mod bits"
  let ?a = "array[?p div 8 := array ! (?p div 8) OR push_bit (?p mod 8) 1]"
  have "?p < bits" using Suc.prems(2) by simp
  then have p: "?p div 8 < length array" using Suc.prems(1) by simp
  have "bit_at ?a ?p" using bit_at_update [OF p] by simp
  then have "bit_at (set_probes bits (Suc k) h delta array) ?p"
    using set_probes_keep [of ?a ?p bits k "h + delta" delta] Suc.prems(1,2) by (simp add: Let_def)
  then have "bit_at f ?p" using Suc.prems(3) by blast
  moreover have "test_probes bits k (h + delta) delta f"
    by (rule Suc.IH [of ?a]) (use Suc.prems in \<open>simp_all add: Let_def\<close>)
  ultimately show ?case by (simp add: Let_def bit_at_def)
qed simp

lemma add_keys_length [simp]: "length (add_keys bits k keys array) = length array"
  by (induction keys arbitrary: array) (simp_all add: Let_def)

lemma add_keys_keep:
  "bit_at array q \<Longrightarrow> bits = 8 * length array \<Longrightarrow> 0 < bits \<Longrightarrow> bit_at (add_keys bits k keys array) q"
proof (induction keys arbitrary: array)
  case (Cons x keys)
  from Cons.IH [OF set_probes_keep [OF Cons.prems]] Cons.prems(2,3) show ?case by (simp add: Let_def)
qed simp

lemma add_keys_test:
  assumes "key \<in> set keys" "bits = 8 * length array" "0 < bits"
  shows "test_probes bits k (BloomHash key) (rotate17 (BloomHash key)) (add_keys bits k keys array @ rest)"
  using assms
proof (induction keys arbitrary: array)
  case (Cons x keys)
  let ?a = "set_probes bits k (BloomHash x) (rotate17 (BloomHash x)) array"
  show ?case
  proof (cases "key \<in> set keys")
    case True
    then show ?thesis using Cons.IH [of ?a] Cons.prems by (simp add: Let_def)
  next
    case False
    then have "key = x" using Cons.prems(1) by simp
    moreover have "bit_at (add_keys bits k keys ?a @ rest) q" if "bit_at ?a q" for q
      using add_keys_keep [OF that, of bits k keys] Cons.prems(2,3) by (auto simp: bit_at_def nth_append)
    ultimately show ?thesis
      using test_after_set [OF Cons.prems(2,3), of k "BloomHash x" "rotate17 (BloomHash x)"] by (simp add: Let_def)
  qed
qed simp

lemma bloom_k_range: "1 \<le> bloom_k n \<and> bloom_k n \<le> 30"
  by (simp add: bloom_k_def Let_def)

lemma bloom_no_false_negative:
  assumes "key \<in> set keys"
  shows "bloom_match key (bloom_create n keys [])"
proof -
  let ?b0 = "if length keys * n < 64 then 64 else length keys * n"
  let ?m = "(?b0 + 7) div 8" and ?k = "bloom_k n"
  let ?f = "add_keys (?m * 8) ?k keys (replicate ?m 0) @ [of_nat ?k]"
  have f: "bloom_create n keys [] = ?f" by (simp add: bloom_create_def Let_def)
  have "64 div 8 \<le> ?m" by (rule div_le_mono) simp
  then have m: "8 \<le> ?m" by simp
  have "unat (of_nat ?k :: byte) = ?k" using bloom_k_range [of n] by (simp add: unat_of_nat)
  moreover have "test_probes (?m * 8) ?k (BloomHash key) (rotate17 (BloomHash key)) ?f"
    by (rule add_keys_test) (use assms m in simp_all)
  ultimately show ?thesis
    using m bloom_k_range [of n] unfolding f bloom_match_def by (simp add: Let_def nth_append)
qed

lemma NewBloomFilterPolicy_simps [simp]:
  "CreateFilter (NewBloomFilterPolicy n) = bloom_create n" "KeyMayMatch (NewBloomFilterPolicy n) = bloom_match"
  by (simp_all add: NewBloomFilterPolicy_def)

lemma bloom_create_appends: "bloom_create n keys dst = dst @ bloom_create n keys []"
  by (simp add: bloom_create_def Let_def)

interpretation bloom: filter_policy_laws "NewBloomFilterPolicy n" "\<lambda>_. True"
proof
  show "CreateFilter (NewBloomFilterPolicy n) keys dst = dst @ CreateFilter (NewBloomFilterPolicy n) keys []" for keys dst
    unfolding NewBloomFilterPolicy_simps by (rule bloom_create_appends)
qed (simp add: bloom_no_false_negative)

context filter_policy_laws
begin

lemma internal_policy:
  assumes "\<And>x. ok x"
  shows "filter_policy_laws (InternalFilterPolicy P) (\<lambda>k. 8 \<le> length k)"
proof
  fix keys dst
  show "CreateFilter (InternalFilterPolicy P) keys dst = dst @ CreateFilter (InternalFilterPolicy P) keys []"
    using create_appends [of "map user_part keys" dst] by (simp add: InternalFilterPolicy_def)
next
  fix k :: bytes and keys assume "k \<in> set keys"
  then show "KeyMayMatch (InternalFilterPolicy P) k (CreateFilter (InternalFilterPolicy P) keys [])"
    using no_false_negative [of "user_part k" "map user_part keys"] assms by (simp add: InternalFilterPolicy_def)
qed

end

interpretation internal_bloom: filter_policy_laws "InternalFilterPolicy (NewBloomFilterPolicy n)" "\<lambda>k. 8 \<le> length k"
  by (rule bloom.internal_policy) simp

end
