(* ===== verification/Ldb_Filter_Block.thy ===== *)
theory Ldb_Filter_Block
  imports Ldb_Filter
begin

text \<open>
  The filter block of a table: db/leveldb/table/filter_block.h and filter_block.cc. The builder makes
  one filter for every 2048 bytes of table data; the reader finds the filter of a block by its offset.
\<close>

section \<open>The builder\<close>

definition kFilterBaseLg :: nat where "kFilterBaseLg = 11"
definition kFilterBase :: nat where "kFilterBase = 2 ^ kFilterBaseLg"

record filter_builder =
  fb_keys :: bytes
  fb_start :: "nat list"
  fb_result :: bytes
  fb_offsets :: "u32 list"

definition FilterBlockBuilder_new :: filter_builder where
  "FilterBlockBuilder_new = \<lparr>fb_keys = [], fb_start = [], fb_result = [], fb_offsets = []\<rparr>"

definition GenerateFilter :: "filter_policy \<Rightarrow> filter_builder \<Rightarrow> filter_builder" where
  "GenerateFilter P b =
     (let num_keys = length (fb_start b);
          offsets = fb_offsets b @ [of_nat (length (fb_result b))]
      in if num_keys = 0 then b\<lparr>fb_offsets := offsets\<rparr>
         else
           (let start = fb_start b @ [length (fb_keys b)];
                tmp_keys = map (\<lambda>i. take (start ! (i + 1) - start ! i) (drop (start ! i) (fb_keys b))) [0..<num_keys]
            in \<lparr>fb_keys = [], fb_start = [], fb_result = CreateFilter P tmp_keys (fb_result b), fb_offsets = offsets\<rparr>))"

lemma GenerateFilter_offsets [simp]: "length (fb_offsets (GenerateFilter P b)) = Suc (length (fb_offsets b))"
  by (simp add: GenerateFilter_def Let_def)

function start_loop :: "filter_policy \<Rightarrow> nat \<Rightarrow> filter_builder \<Rightarrow> filter_builder" where
  "start_loop P filter_index b =
     (if length (fb_offsets b) < filter_index then start_loop P filter_index (GenerateFilter P b) else b)"
  by pat_completeness auto
termination by (relation "measure (\<lambda>(P, i, b). i - length (fb_offsets b))") auto

declare start_loop.simps [simp del]

definition StartBlock :: "filter_policy \<Rightarrow> u64 \<Rightarrow> filter_builder \<Rightarrow> filter_builder" where
  "StartBlock P block_offset b = start_loop P (unat block_offset div kFilterBase) b"

definition AddKey :: "bytes \<Rightarrow> filter_builder \<Rightarrow> filter_builder" where
  "AddKey key b = b\<lparr>fb_start := fb_start b @ [length (fb_keys b)], fb_keys := fb_keys b @ key\<rparr>"

definition FilterFinish :: "filter_policy \<Rightarrow> filter_builder \<Rightarrow> bytes" where
  "FilterFinish P b =
     (let b1 = (if fb_start b \<noteq> [] then GenerateFilter P b else b);
          array_offset = of_nat (length (fb_result b1));
          r1 = fold (\<lambda>off r. PutFixed32 kLittleEndian r off) (fb_offsets b1) (fb_result b1)
      in PutFixed32 kLittleEndian r1 array_offset @ [of_nat kFilterBaseLg])"

section \<open>The reader\<close>

text \<open>The pointers are offsets into \<open>fr_contents\<close>; \<open>num_\<close> is 0 when the block is malformed.\<close>

record filter_reader =
  fr_contents :: bytes
  fr_offset :: nat
  fr_num :: nat
  fr_base_lg :: nat

definition FilterBlockReader_new :: "bytes \<Rightarrow> filter_reader" where
  "FilterBlockReader_new contents =
     (let n = length contents; empty = \<lparr>fr_contents = [], fr_offset = 0, fr_num = 0, fr_base_lg = 0\<rparr> in
      if n < 5 then empty
      else
        (let base_lg = unat (contents ! (n - 1)); last_word = unat (fixed32 (drop (n - 5) contents)) in
         if n - 5 < last_word then empty\<lparr>fr_base_lg := base_lg\<rparr>
         else \<lparr>fr_contents = contents, fr_offset = last_word, fr_num = (n - 5 - last_word) div 4,
               fr_base_lg = base_lg\<rparr>))"

text \<open>A shift by 64 or more, which C++ leaves undefined, is the error \<open>OutOfBounds\<close>.\<close>

definition FilterKeyMayMatch :: "filter_policy \<Rightarrow> filter_reader \<Rightarrow> u64 \<Rightarrow> bytes \<Rightarrow> mem_error + bool" where
  "FilterKeyMayMatch P r block_offset key =
     (if 64 \<le> fr_base_lg r then Inl OutOfBounds
      else
        (let index = unat (drop_bit (fr_base_lg r) block_offset) in
         if index < fr_num r then
           bind_res (DecodeFixed32 kLittleEndian (drop (fr_offset r + index * 4) (fr_contents r))) (\<lambda>start.
           bind_res (DecodeFixed32 kLittleEndian (drop (fr_offset r + index * 4 + 4) (fr_contents r))) (\<lambda>limit.
             if start \<le> limit \<and> unat limit \<le> fr_offset r
             then Inr (KeyMayMatch P key (take (unat limit - unat start) (drop (unat start) (fr_contents r))))
             else if start = limit then Inr False
             else Inr True))
         else Inr True))"

text \<open>The calls of a table builder: \<open>StartBlock\<close> and the keys of every block, and \<open>Finish\<close>.\<close>

definition add_block :: "filter_policy \<Rightarrow> u64 \<times> bytes list \<Rightarrow> filter_builder \<Rightarrow> filter_builder" where
  "add_block P blk b = fold AddKey (snd blk) (StartBlock P (fst blk) b)"

definition build_filters :: "filter_policy \<Rightarrow> (u64 \<times> bytes list) list \<Rightarrow> bytes" where
  "build_filters P blks = FilterFinish P (fold (add_block P) blks FilterBlockBuilder_new)"

section \<open>The filters behind the builder's state\<close>

definition flat_start :: "bytes list \<Rightarrow> nat list" where
  "flat_start ks = map (\<lambda>i. length (concat (take i ks))) [0..<length ks]"

definition one_filter :: "filter_policy \<Rightarrow> bytes list \<Rightarrow> bytes" where
  "one_filter P ks = (if ks = [] then [] else CreateFilter P ks [])"

definition filters_ok :: "filter_policy \<Rightarrow> bytes list list \<Rightarrow> bytes list \<Rightarrow> filter_builder \<Rightarrow> bool" where
  "filters_ok P F K b \<longleftrightarrow>
     fb_keys b = concat K \<and> fb_start b = flat_start K \<and> fb_result b = concat (map (one_filter P) F) \<and>
     fb_offsets b = map (\<lambda>i. of_nat (length (concat (map (one_filter P) (take i F))))) [0..<length F]"

lemma flat_start_simps [simp]: "length (flat_start ks) = length ks" "flat_start ks = [] \<longleftrightarrow> ks = []"
  by (simp_all add: flat_start_def)

lemma flat_start_nth: "i \<le> length ks \<Longrightarrow> (flat_start ks @ [length (concat ks)]) ! i = length (concat (take i ks))"
  by (auto simp: flat_start_def nth_append)

lemma concat_take_Suc: "i < length ks \<Longrightarrow> concat (take (Suc i) ks) = concat (take i ks) @ ks ! i"
  by (simp add: take_Suc_conv_app_nth)

lemma flat_keys:
  assumes "i < length ks"
  shows "take (length (ks ! i)) (drop (length (concat (take i ks))) (concat ks)) = ks ! i"
proof -
  have "concat ks = concat (take (Suc i) ks) @ concat (drop (Suc i) ks)"
    using append_take_drop_id [of "Suc i" ks] by (metis concat_append)
  then show ?thesis using assms by (simp add: concat_take_Suc)
qed

lemma tmp_keys_eq:
  fixes K :: "bytes list"
  defines "start \<equiv> flat_start K @ [length (concat K)]"
  shows "map (\<lambda>i. take (start ! (i + 1) - start ! i) (drop (start ! i) (concat K))) [0..<length K] = K"
proof (rule map_nth [THEN subst, where P = "\<lambda>xs. map _ _ = xs"], rule map_cong)
  fix i assume "i \<in> set [0..<length K]"
  then have i: "i < length K" by simp
  have "start ! i = length (concat (take i K))" "start ! (i + 1) = length (concat (take i K)) + length (K ! i)"
    using flat_start_nth [of i K] flat_start_nth [of "i + 1" K] i by (simp_all add: start_def concat_take_Suc)
  then show "take (start ! (i + 1) - start ! i) (drop (start ! i) (concat K)) = K ! i"
    using flat_keys [OF i] by simp
qed simp

lemma GenerateFilter_closed:
  assumes "filters_ok P F K b"
  shows "GenerateFilter P b =
    (if K = [] then b\<lparr>fb_offsets := fb_offsets b @ [of_nat (length (fb_result b))]\<rparr>
     else \<lparr>fb_keys = [], fb_start = [], fb_result = CreateFilter P K (fb_result b),
           fb_offsets = fb_offsets b @ [of_nat (length (fb_result b))]\<rparr>)"
proof -
  have b: "fb_keys b = concat K" "fb_start b = flat_start K" using assms by (simp_all add: filters_ok_def)
  show ?thesis
    unfolding GenerateFilter_def Let_def b flat_start_simps(1) tmp_keys_eq by simp
qed

lemma offsets_snoc:
  "map (\<lambda>i. of_nat (length (concat (map f (take i (F @ [K]))))) :: u32) [0..<length (F @ [K])] =
   map (\<lambda>i. of_nat (length (concat (map f (take i F))))) [0..<length F] @ [of_nat (length (concat (map f F)))]"
  by simp

text \<open>After a run of blocks every key is in the list that the index of its block selects.\<close>

definition placed :: "(u64 \<times> bytes list) list \<Rightarrow> bytes list list \<Rightarrow> bool" where
  "placed blks G \<longleftrightarrow>
     (\<forall>blk \<in> set blks. \<forall>k \<in> set (snd blk). unat (fst blk) div kFilterBase < length G \<and>
        k \<in> set (G ! (unat (fst blk) div kFilterBase))) \<and>
     \<Union> (set ` set G) = \<Union> (set ` set (map snd blks))"

lemma placed_extend: "placed blks G \<Longrightarrow> placed blks (G @ replicate d [])"
  unfolding placed_def by (fastforce simp: nth_append)

lemma placed_add:
  assumes "placed blks (F @ [K])" "unat off div kFilterBase = length F"
  shows "placed (blks @ [(off, ks)]) (F @ [K @ ks])"
proof -
  have "k \<in> set ((F @ [K @ ks]) ! i)" if "k \<in> set ((F @ [K]) ! i)" "i < length (F @ [K])" for k i
    using that by (auto simp: nth_append split: if_splits)
  then show ?thesis using assms unfolding placed_def by (auto simp: ball_Un)
qed

context filter_policy_laws
begin

lemma GenerateFilter_ok:
  assumes "filters_ok P F K b"
  shows "filters_ok P (F @ [K]) [] (GenerateFilter P b)"
proof (cases "K = []")
  case True
  then show ?thesis
    using assms unfolding GenerateFilter_closed [OF assms] filters_ok_def offsets_snoc
    by (simp add: one_filter_def flat_start_def)
next
  case False
  then show ?thesis
    using assms create_appends [of K "fb_result b"]
    unfolding GenerateFilter_closed [OF assms] filters_ok_def offsets_snoc
    by (simp add: one_filter_def flat_start_def)
qed

lemma start_loop_ok:
  "filters_ok P F K b \<Longrightarrow> n = length F + Suc d \<Longrightarrow> filters_ok P (F @ K # replicate d []) [] (start_loop P n b)"
proof (induction d arbitrary: F K b)
  case 0
  note g = GenerateFilter_ok [OF 0(1)]
  have "length (fb_offsets b) = length F" using 0(1) by (simp add: filters_ok_def)
  then have "start_loop P n b = start_loop P n (GenerateFilter P b)"
    using 0(2) by (subst start_loop.simps) simp
  also have "\<dots> = GenerateFilter P b"
    using 0(2) \<open>length (fb_offsets b) = length F\<close> by (subst start_loop.simps) simp
  finally show ?case using g by simp
next
  case (Suc d)
  have "length (fb_offsets b) = length F" using Suc.prems(1) by (simp add: filters_ok_def)
  then have "start_loop P n b = start_loop P n (GenerateFilter P b)"
    using Suc.prems(2) by (subst start_loop.simps) simp
  then show ?case
    using Suc.IH [OF GenerateFilter_ok [OF Suc.prems(1)]] Suc.prems(2) by simp
qed

lemma StartBlock_ok:
  assumes "filters_ok P F K b" and "length F \<le> unat off div kFilterBase"
  shows "\<exists>F' K'. filters_ok P F' K' (StartBlock P off b) \<and> length F' = unat off div kFilterBase \<and>
    F' @ [K'] = F @ K # replicate (unat off div kFilterBase - length F) []"
proof (cases "length F = unat off div kFilterBase")
  case True
  moreover have "length (fb_offsets b) = length F" using assms(1) by (simp add: filters_ok_def)
  ultimately have "StartBlock P off b = b" by (simp add: StartBlock_def start_loop.simps [of P _ b])
  then show ?thesis using assms True by (intro exI [of _ F] exI [of _ K]) simp
next
  case False
  then obtain d where d: "unat off div kFilterBase = length F + Suc d"
    using assms(2) by (metis add_Suc_right le_neq_implies_less less_imp_Suc_add)
  show ?thesis
    using start_loop_ok [OF assms(1) d] d
    by (intro exI [of _ "F @ K # replicate d []"] exI [of _ "[]"]) (simp add: StartBlock_def replicate_append_same)
qed

lemma AddKey_ok: "filters_ok P F K b \<Longrightarrow> filters_ok P F (K @ [k]) (AddKey k b)"
  by (simp add: filters_ok_def AddKey_def flat_start_def)

lemma AddKeys_ok: "filters_ok P F K b \<Longrightarrow> filters_ok P F (K @ ks) (fold AddKey ks b)"
proof (induction ks arbitrary: K b)
  case (Cons k ks)
  from Cons.IH [OF AddKey_ok [OF Cons.prems]] show ?case by simp
qed simp

lemma add_blocks_ok:
  assumes "sorted (map (unat \<circ> fst) blks)"
  shows "\<exists>F K. filters_ok P F K (fold (add_block P) blks FilterBlockBuilder_new) \<and> placed blks (F @ [K]) \<and>
    length F \<le> (if blks = [] then 0 else unat (fst (last blks)) div kFilterBase)"
  using assms
proof (induction blks rule: rev_induct)
  case Nil
  show ?case by (intro exI [of _ "[]"]) (simp add: filters_ok_def FilterBlockBuilder_new_def flat_start_def placed_def)
next
  case (snoc blk blks)
  obtain off ks where blk: "blk = (off, ks)" by (cases blk)
  from snoc obtain F K where *: "filters_ok P F K (fold (add_block P) blks FilterBlockBuilder_new)"
      "placed blks (F @ [K])" "length F \<le> (if blks = [] then 0 else unat (fst (last blks)) div kFilterBase)"
    by (auto simp: sorted_append)
  have "blks \<noteq> [] \<Longrightarrow> unat (fst (last blks)) \<le> unat off"
    using snoc.prems by (simp add: sorted_append blk)
  then have le: "length F \<le> unat off div kFilterBase"
    using *(3) by (auto split: if_splits intro: order_trans [OF _ div_le_mono])
  obtain F' K' where F': "filters_ok P F' K' (StartBlock P off (fold (add_block P) blks FilterBlockBuilder_new))"
      "length F' = unat off div kFilterBase" "F' @ [K'] = (F @ [K]) @ replicate (unat off div kFilterBase - length F) []"
    using StartBlock_ok [OF *(1) le] by auto
  have "placed blks (F' @ [K'])" unfolding F'(3) by (rule placed_extend [OF *(2)])
  then have "placed (blks @ [blk]) (F' @ [K' @ ks])" unfolding blk by (rule placed_add) (simp add: F'(2))
  then show ?case
    using AddKeys_ok [OF F'(1), of ks] F'(2) by (intro exI [of _ F'] exI [of _ "K' @ ks"]) (simp add: blk add_block_def [of P "(off, ks)"])
qed

end

section \<open>Reading what was built\<close>

lemma PutFixed32_fold: "fold (\<lambda>off r. PutFixed32 e r off) offs r = r @ concat (map (EncodeFixed32 e) offs)"
  by (induction offs arbitrary: r) (simp_all add: PutFixed32_def)

lemma offset_array:
  "i < length offs \<Longrightarrow> DecodeFixed32 e (drop (i * 4) (concat (map (EncodeFixed32 e) offs) @ rest)) = Inr (offs ! i)"
proof (induction offs arbitrary: i)
  case (Cons x offs)
  then show ?case by (cases i) (simp_all add: codec_simps)
qed simp

text \<open>The contents of a finished block, by the lists of keys behind its filters.\<close>

definition filter_offsets :: "filter_policy \<Rightarrow> bytes list list \<Rightarrow> u32 list" where
  "filter_offsets P F = map (\<lambda>i. of_nat (length (concat (map (one_filter P) (take i F))))) [0..<Suc (length F)]"

definition filter_bytes :: "filter_policy \<Rightarrow> bytes list list \<Rightarrow> bytes" where
  "filter_bytes P F = concat (map (one_filter P) F) @ concat (map (EncodeFixed32 kLittleEndian) (filter_offsets P F)) @ [11]"

lemma filters_ok_finish:
  assumes "filters_ok P F [] b"
  shows "PutFixed32 kLittleEndian (fold (\<lambda>off r. PutFixed32 kLittleEndian r off) (fb_offsets b) (fb_result b))
     (of_nat (length (fb_result b))) @ [of_nat kFilterBaseLg] = filter_bytes P F"
  using assms by (simp add: PutFixed32_fold PutFixed32_def [of _ "_ @ _"] filter_bytes_def filter_offsets_def filters_ok_def kFilterBaseLg_def)

lemma filter_bytes_length:
  "length (filter_bytes P F) = length (concat (map (one_filter P) F)) + 4 * length F + 5"
proof -
  have "length (concat (map (EncodeFixed32 e) offs)) = 4 * length offs" for e offs
    by (induction offs) simp_all
  then show ?thesis by (simp only: filter_bytes_def length_append) (simp add: filter_offsets_def)
qed

lemma filter_reader_of:
  assumes "length (filter_bytes P F) < 2 ^ 32"
  shows "FilterBlockReader_new (filter_bytes P F) =
    \<lparr>fr_contents = filter_bytes P F, fr_offset = length (concat (map (one_filter P) F)), fr_num = length F, fr_base_lg = 11\<rparr>"
proof -
  let ?c = "filter_bytes P F" and ?R = "concat (map (one_filter P) F)"
  let ?pre = "?R @ concat (map (EncodeFixed32 kLittleEndian) (butlast (filter_offsets P F)))"
  have c: "?c = ?pre @ EncodeFixed32 kLittleEndian (of_nat (length ?R)) @ [11]"
    by (simp add: filter_bytes_def filter_offsets_def)
  have n: "length ?c = length ?pre + 5" by (subst c) simp
  have "drop (length ?c - 5) ?c = EncodeFixed32 kLittleEndian (of_nat (length ?R)) @ [11]"
    unfolding n by (subst c) simp
  then have "unat (fixed32 (drop (length ?c - 5) ?c)) = length ?R"
    using assms by (simp add: codec_simps filter_bytes_length unat_of_nat_u32)
  moreover have "?c ! (length ?c - 1) = 11" unfolding n by (subst c) (simp add: nth_append)
  ultimately show ?thesis
    unfolding FilterBlockReader_new_def Let_def by (simp add: filter_bytes_length)
qed

lemma filter_select:
  assumes "i < length F" "length (filter_bytes P F) < 2 ^ 32" "unat off div kFilterBase = i"
  shows "FilterKeyMayMatch P (FilterBlockReader_new (filter_bytes P F)) off key = Inr (KeyMayMatch P key (one_filter P (F ! i)))"
proof -
  let ?R = "concat (map (one_filter P) F)" and ?at = "\<lambda>j. length (concat (map (one_filter P) (take j F)))"
  have index: "unat (drop_bit 11 off) = i"
    using assms(3) by (simp add: kFilterBase_def kFilterBaseLg_def drop_bit_eq_div unat_div_distrib)
  have dec: "DecodeFixed32 kLittleEndian (drop (length ?R + j * 4) (filter_bytes P F)) = Inr (of_nat (?at j))"
    if "j \<le> length F" for j
    using offset_array [of j "filter_offsets P F" kLittleEndian "[11]"] that
    by (simp add: filter_bytes_def filter_offsets_def del: upt_Suc)
  have "?at (Suc i) = ?at i + length (one_filter P (F ! i))"
    using assms(1) by (simp add: take_Suc_conv_app_nth)
  moreover have "?at (Suc i) \<le> length ?R"
    by (metis append_take_drop_id concat_append length_append le_add1 map_append)
  moreover have "length ?R < 2 ^ 32" using assms(2) by (simp add: filter_bytes_length)
  ultimately have at: "unat (of_nat (?at i) :: u32) = ?at i" "unat (of_nat (?at (Suc i)) :: u32) = ?at i + length (one_filter P (F ! i))"
    "?at i + length (one_filter P (F ! i)) \<le> length ?R"
    using unat_of_nat_u32 [of "?at (Suc i)"] unat_of_nat_u32 [of "?at i"] by auto
  have "take (length (one_filter P (F ! i))) (drop (?at i) (filter_bytes P F)) = one_filter P (F ! i)"
    using flat_keys [of i "map (one_filter P) F"] assms(1) at(3) by (simp add: filter_bytes_def take_map)
  then show ?thesis
    unfolding filter_reader_of [OF assms(2)] FilterKeyMayMatch_def
    using assms(1) dec [of i] dec [of "Suc i"] at by (simp add: index word_le_nat_alt ac_simps)
qed

context filter_policy_laws
begin

lemma built_filters:
  assumes "sorted (map (unat \<circ> fst) blks)"
  shows "\<exists>F. build_filters P blks = filter_bytes P F \<and> placed blks F"
proof -
  obtain F K where *: "filters_ok P F K (fold (add_block P) blks FilterBlockBuilder_new)" "placed blks (F @ [K])"
    using add_blocks_ok [OF assms] by blast
  let ?b = "fold (add_block P) blks FilterBlockBuilder_new"
  have s: "fb_start ?b \<noteq> [] \<longleftrightarrow> K \<noteq> []" using *(1) by (simp add: filters_ok_def)
  show ?thesis
  proof (cases "K = []")
    case True
    have "placed blks F"
      using *(2) unfolding True placed_def by (fastforce simp: nth_append less_Suc_eq)
    then show ?thesis
      using filters_ok_finish [of P F ?b] *(1) s True by (auto simp: build_filters_def FilterFinish_def Let_def)
  next
    case False
    then show ?thesis
      using filters_ok_finish [OF GenerateFilter_ok [OF *(1)]] *(2) s by (auto simp: build_filters_def FilterFinish_def Let_def)
  qed
qed

lemma block_no_false_negative:
  assumes "sorted (map (unat \<circ> fst) blks)" "length (build_filters P blks) < 2 ^ 32"
    and "\<forall>blk \<in> set blks. \<forall>k \<in> set (snd blk). ok k" and "blk \<in> set blks" "k \<in> set (snd blk)"
  shows "FilterKeyMayMatch P (FilterBlockReader_new (build_filters P blks)) (fst blk) k = Inr True"
proof -
  obtain F where F: "build_filters P blks = filter_bytes P F" and pl: "placed blks F"
    using built_filters [OF assms(1)] by blast
  let ?i = "unat (fst blk) div kFilterBase"
  have i: "?i < length F" "k \<in> set (F ! ?i)" using pl assms(4,5) by (auto simp: placed_def)
  have "set (F ! ?i) \<subseteq> \<Union> (set ` set (map snd blks))" using pl i(1) by (auto simp: placed_def)
  then have "\<forall>x \<in> set (F ! ?i). ok x" using assms(3) by auto
  then have "KeyMayMatch P k (one_filter P (F ! ?i))"
    using no_false_negative [OF i(2)] i(2) by (auto simp: one_filter_def)
  then show ?thesis using filter_select [OF i(1), of P "fst blk" k] assms(2) unfolding F by simp
qed

end

text \<open>The reader stays inside the block, whatever the block holds.\<close>

lemma FilterKeyMayMatch_safe:
  assumes "fr_base_lg (FilterBlockReader_new c) < 64"
  shows "\<exists>m. FilterKeyMayMatch P (FilterBlockReader_new c) off key = Inr m"
proof -
  let ?r = "FilterBlockReader_new c"
  have fits: "fr_num ?r = 0 \<or> fr_offset ?r + fr_num ?r * 4 + 5 \<le> length (fr_contents ?r)"
    by (auto simp: FilterBlockReader_new_def Let_def)
  have dec: "\<exists>v. DecodeFixed32 kLittleEndian (drop j (fr_contents ?r)) = Inr v" if "j + 4 \<le> length (fr_contents ?r)" for j
    using that by (auto simp: DecodeFixed32_def)
  show ?thesis
  proof (cases "unat (drop_bit (fr_base_lg ?r) off) < fr_num ?r")
    case True
    let ?i = "unat (drop_bit (fr_base_lg ?r) off)"
    have "fr_offset ?r + ?i * 4 + 8 \<le> length (fr_contents ?r)" using fits True by linarith
    then obtain s l where "DecodeFixed32 kLittleEndian (drop (fr_offset ?r + ?i * 4) (fr_contents ?r)) = Inr s"
        "DecodeFixed32 kLittleEndian (drop (fr_offset ?r + ?i * 4 + 4) (fr_contents ?r)) = Inr l"
      using dec [of "fr_offset ?r + ?i * 4"] dec [of "fr_offset ?r + ?i * 4 + 4"] by auto
    then show ?thesis using assms True unfolding FilterKeyMayMatch_def by (auto simp: Let_def)
  next
    case False
    then show ?thesis using assms unfolding FilterKeyMayMatch_def by (auto simp: Let_def)
  qed
qed

section \<open>Properties\<close>

text \<open>
  C13. The filter block of a table has no false negatives: when blocks are started at nondecreasing
  offsets and the finished block is shorter than 4 GiB, the reader answers that the key may match for
  every internal key that was added, at the offset of its block, for the Bloom policy that the
  database wraps for internal keys.
\<close>

theorem filter_block_matches:
  assumes "sorted (map (unat \<circ> fst) blks)"
    and "length (build_filters (InternalFilterPolicy (NewBloomFilterPolicy n)) blks) < 2 ^ 32"
    and "\<forall>blk \<in> set blks. \<forall>k \<in> set (snd blk). 8 \<le> length k"
    and "blk \<in> set blks" "k \<in> set (snd blk)"
  shows "FilterKeyMayMatch (InternalFilterPolicy (NewBloomFilterPolicy n))
    (FilterBlockReader_new (build_filters (InternalFilterPolicy (NewBloomFilterPolicy n)) blks)) (fst blk) k = Inr True"
  using internal_bloom.block_no_false_negative [OF assms] .

theorem filter_block_matches_witness:
  "FilterKeyMayMatch (InternalFilterPolicy (NewBloomFilterPolicy 10))
    (FilterBlockReader_new (build_filters (InternalFilterPolicy (NewBloomFilterPolicy 10))
       [(0, []), (5000, [[97, 1, 0, 0, 0, 0, 0, 0, 0]])])) 5000 [97, 1, 0, 0, 0, 0, 0, 0, 0] = Inr True"
proof -
  have "length (build_filters (InternalFilterPolicy (NewBloomFilterPolicy 10))
       [(0, []), (5000, [[97, 1, 0, 0, 0, 0, 0, 0, 0]])]) < 2 ^ 32"
    by (simp add: build_filters_def FilterFinish_def add_block_def StartBlock_def start_loop.simps FilterBlockBuilder_new_def
        GenerateFilter_def AddKey_def kFilterBase_def kFilterBaseLg_def Let_def PutFixed32_def InternalFilterPolicy_def bloom_create_def)
  then show ?thesis
    using filter_block_matches [of "[(0, []), (5000, [[97, 1, 0, 0, 0, 0, 0, 0, 0]])]" 10
        "(5000, [[97, 1, 0, 0, 0, 0, 0, 0, 0]])" "[97, 1, 0, 0, 0, 0, 0, 0, 0]"] by simp
qed

end
