(* ===== verification/Ldb_Log.thy ===== *)
theory Ldb_Log
  imports Ldb_Memfile Ldb_Crc32c
begin

text \<open>
  The log: db/leveldb/db/log_format.h, log_writer.cc and log_reader.cc. A record is cut into fragments
  that fit blocks of 32 KiB; each fragment has a header of checksum, length and type.
\<close>

section \<open>The format\<close>

datatype record_type = kZeroType | kFullType | kFirstType | kMiddleType | kLastType

fun rec_byte :: "record_type \<Rightarrow> byte" where
  "rec_byte kZeroType = 0"
| "rec_byte kFullType = 1"
| "rec_byte kFirstType = 2"
| "rec_byte kMiddleType = 3"
| "rec_byte kLastType = 4"

definition log_kBlockSize :: nat where "log_kBlockSize = 32768"
definition kHeaderSize :: nat where "kHeaderSize = 4 + 2 + 1"

section \<open>The writer\<close>

record 'w log_writer =
  lw_dest :: 'w
  lw_block_offset :: nat
  lw_type_crc :: "u32 list"

text \<open>Checksums do not depend on where the bytes lie, so the address is 0 here.\<close>

definition InitTypeCrc :: "u32 list" where
  "InitTypeCrc = map (\<lambda>i. Value 0 [of_nat i]) [0..<5]"

definition Writer_new :: "'w \<Rightarrow> 'w log_writer" where
  "Writer_new dest = \<lparr>lw_dest = dest, lw_block_offset = 0, lw_type_crc = InitTypeCrc\<rparr>"

definition Writer_new_at :: "'w \<Rightarrow> nat \<Rightarrow> 'w log_writer" where
  "Writer_new_at dest dest_length =
     \<lparr>lw_dest = dest, lw_block_offset = dest_length mod log_kBlockSize, lw_type_crc = InitTypeCrc\<rparr>"

definition EmitPhysicalRecord ::
  "'w writable_file \<Rightarrow> record_type \<Rightarrow> bytes \<Rightarrow> 'w log_writer \<Rightarrow> mem_error + (status \<times> 'w log_writer)" where
  "EmitPhysicalRecord W t ptr w =
     (let n = length ptr;
          crc = Mask (Extend 0 (lw_type_crc w ! unat (rec_byte t)) ptr);
          buf = EncodeFixed32 kLittleEndian crc @ [of_nat (n mod 256), of_nat (n div 256), rec_byte t];
          done = (\<lambda>s d. Inr (s, w\<lparr>lw_dest := d, lw_block_offset := lw_block_offset w + (kHeaderSize + n)\<rparr>))
      in bind_res (wf_Append W buf (lw_dest w)) (\<lambda>(s, d1).
           if status_ok s then
             bind_res (wf_Append W ptr d1) (\<lambda>(s2, d2).
               if status_ok s2 then bind_res (wf_Flush W d2) (\<lambda>(s3, d3). done s3 d3) else done s2 d2)
           else done s d1))"

definition fragment_type :: "bool \<Rightarrow> bool \<Rightarrow> record_type" where
  "fragment_type begin end' =
     (if begin \<and> end' then kFullType else if begin then kFirstType else if end' then kLastType else kMiddleType)"

declare bind_res_cong [fundef_cong]

lemma Emit_offset:
  "EmitPhysicalRecord W t ptr w = Inr (s, w') \<Longrightarrow> lw_block_offset w' = lw_block_offset w + 7 + length ptr"
  by (auto simp: EmitPhysicalRecord_def Let_def kHeaderSize_def split: if_splits)

text \<open>The do-while loop of \<open>AddRecord\<close>; the trailer's own status is not looked at.\<close>

definition switch_block :: "'w writable_file \<Rightarrow> 'w log_writer \<Rightarrow> mem_error + 'w log_writer" where
  "switch_block W w =
     (let leftover = log_kBlockSize - lw_block_offset w in
      if leftover < kHeaderSize then
        bind_res (if 0 < leftover then wf_Append W (replicate leftover 0) (lw_dest w) else Inr (OK, lw_dest w)) (\<lambda>(s, d).
          Inr (w\<lparr>lw_dest := d, lw_block_offset := 0\<rparr>))
      else Inr w)"

lemma switch_block_offset:
  "switch_block W w = Inr w1 \<Longrightarrow> lw_block_offset w1 = (if log_kBlockSize - lw_block_offset w < 7 then 0 else lw_block_offset w)"
  by (auto simp: switch_block_def Let_def kHeaderSize_def split: if_splits)

lemma AddRecord_decreases:
  assumes sw: "switch_block W w = Inr w1"
    and fl: "fl = (if length ptr < log_kBlockSize - lw_block_offset w1 - kHeaderSize then length ptr
                   else log_kBlockSize - lw_block_offset w1 - kHeaderSize)"
    and em: "EmitPhysicalRecord W t (take fl ptr) w1 = Inr x" "(s, w2) = x" and more: "0 < length ptr - fl"
  shows "2 * length (drop fl ptr) + (if lw_block_offset w2 = 32761 then 1 else 0)
    < 2 * length ptr + (if lw_block_offset w = 32761 then 1 else 0)"
proof -
  have "lw_block_offset w2 = lw_block_offset w1 + 7 + length (take fl ptr)"
    by (rule Emit_offset [of W t "take fl ptr" w1 s]) (use em in simp)
  moreover have "lw_block_offset w1 \<le> 32761"
    using switch_block_offset [OF sw] by (auto simp: log_kBlockSize_def split: if_splits)
  moreover have "fl = 32761 - lw_block_offset w1"
    using more fl by (auto simp: log_kBlockSize_def kHeaderSize_def split: if_splits)
  moreover have "lw_block_offset w1 = 32761 \<Longrightarrow> lw_block_offset w = 32761"
    using switch_block_offset [OF sw] by (auto split: if_splits)
  ultimately show ?thesis using more by (cases "lw_block_offset w1 = 32761") auto
qed

function AddRecord_loop ::
  "'w writable_file \<Rightarrow> bool \<Rightarrow> bytes \<Rightarrow> 'w log_writer \<Rightarrow> mem_error + (status \<times> 'w log_writer)" where
  "AddRecord_loop W begin ptr w =
     bind_res (switch_block W w) (\<lambda>w1.
       (let avail = log_kBlockSize - lw_block_offset w1 - kHeaderSize;
            fragment_length = (if length ptr < avail then length ptr else avail);
            end' = (length ptr = fragment_length)
        in bind_res (EmitPhysicalRecord W (fragment_type begin end') (take fragment_length ptr) w1) (\<lambda>(s, w2).
             if status_ok s \<and> 0 < length ptr - fragment_length
             then AddRecord_loop W False (drop fragment_length ptr) w2
             else Inr (s, w2))))"
  by pat_completeness auto

termination
  by (relation "measure (\<lambda>(W, begin, ptr, w). 2 * length ptr + (if lw_block_offset w = 32761 then 1 else 0))",
      simp, simp only: in_measure split, elim conjE, rule AddRecord_decreases [OF _ refl])

declare AddRecord_loop.simps [simp del]

definition AddRecord ::
  "'w writable_file \<Rightarrow> bytes \<Rightarrow> 'w log_writer \<Rightarrow> mem_error + (status \<times> 'w log_writer)" where
  "AddRecord W data w = AddRecord_loop W True data w"

section \<open>The reader\<close>

text \<open>
  The calls of the reporter are kept in \<open>lr_reports\<close>; \<open>lr_reporter\<close> says whether there is one. The
  buffer is the slice \<open>buffer_\<close>.
\<close>

record 's log_reader =
  lr_file :: 's
  lr_reporter :: bool
  lr_checksum :: bool
  lr_buffer :: bytes
  lr_eof :: bool
  lr_last_record_offset :: u64
  lr_end_of_buffer_offset :: u64
  lr_initial_offset :: u64
  lr_resyncing :: bool
  lr_reports :: "(u64 \<times> status) list"

definition Reader_new :: "'s \<Rightarrow> bool \<Rightarrow> bool \<Rightarrow> u64 \<Rightarrow> 's log_reader" where
  "Reader_new file reporter checksum initial_offset =
     \<lparr>lr_file = file, lr_reporter = reporter, lr_checksum = checksum, lr_buffer = [], lr_eof = False,
      lr_last_record_offset = 0, lr_end_of_buffer_offset = 0, lr_initial_offset = initial_offset,
      lr_resyncing = (0 < initial_offset), lr_reports = []\<rparr>"

definition ReportDrop :: "u64 \<Rightarrow> status \<Rightarrow> 's log_reader \<Rightarrow> 's log_reader" where
  "ReportDrop bytes reason r =
     (if lr_reporter r \<and>
         lr_initial_offset r \<le> lr_end_of_buffer_offset r - of_nat (length (lr_buffer r)) - bytes
      then r\<lparr>lr_reports := lr_reports r @ [(bytes, reason)]\<rparr> else r)"

definition ReportCorruption :: "u64 \<Rightarrow> string \<Rightarrow> 's log_reader \<Rightarrow> 's log_reader" where
  "ReportCorruption bytes reason r = ReportDrop bytes (Corruption (str reason) []) r"

definition SkipToInitialBlock :: "'s sequential_file \<Rightarrow> 's log_reader \<Rightarrow> mem_error + (bool \<times> 's log_reader)" where
  "SkipToInitialBlock S r =
     (let offset_in_block = unat (lr_initial_offset r) mod log_kBlockSize;
          start = lr_initial_offset r - of_nat offset_in_block;
          block_start_location = (if log_kBlockSize - 6 < offset_in_block then start + of_nat log_kBlockSize else start);
          r1 = r\<lparr>lr_end_of_buffer_offset := block_start_location\<rparr>
      in if 0 < block_start_location then
           bind_res (sf_Skip S (unat block_start_location) (lr_file r1)) (\<lambda>(st, f).
             let r2 = r1\<lparr>lr_file := f\<rparr> in
             if \<not> status_ok st then Inr (False, ReportDrop block_start_location st r2) else Inr (True, r2))
         else Inr (True, r1))"

definition kEof :: u32 where "kEof = 5"
definition kBadRecord :: u32 where "kBadRecord = 6"

text \<open>
  The header at the front of the buffer, which has at least seven bytes. A byte of type \<open>char\<close> is
  signed, so the type is extended with its sign. The argument \<open>fragment\<close> is what \<open>*result\<close> held.
\<close>

definition parse_record :: "bytes \<Rightarrow> 's log_reader \<Rightarrow> u32 \<times> bytes \<times> 's log_reader" where
  "parse_record fragment r =
     (let header = lr_buffer r;
          a = ucast (header ! 4) AND 0xff :: u32; b = ucast (header ! 5) AND 0xff :: u32;
          type = scast (header ! 6) :: u32;
          len = unat (a OR push_bit 8 b)
      in if length header < kHeaderSize + len then
           (let r1 = r\<lparr>lr_buffer := []\<rparr> in
            if \<not> lr_eof r then (kBadRecord, fragment, ReportCorruption (of_nat (length header)) ''bad record length'' r1)
            else (kEof, fragment, r1))
         else if type = 0 \<and> len = 0 then (kBadRecord, fragment, r\<lparr>lr_buffer := []\<rparr>)
         else if lr_checksum r \<and> Value 0 (take (1 + len) (drop 6 header)) \<noteq> Unmask (fixed32 header)
         then (kBadRecord, fragment,
               ReportCorruption (of_nat (length header)) ''checksum mismatch'' (r\<lparr>lr_buffer := []\<rparr>))
         else
           (let r1 = r\<lparr>lr_buffer := drop (kHeaderSize + len) header\<rparr> in
            if lr_end_of_buffer_offset r1 - of_nat (length (lr_buffer r1)) - of_nat kHeaderSize - of_nat len
               < lr_initial_offset r1
            then (kBadRecord, [], r1)
            else (type, take len (drop kHeaderSize header), r1)))"

function ReadPhysicalRecord ::
  "'s sequential_file \<Rightarrow> bytes \<Rightarrow> 's log_reader \<Rightarrow> mem_error + (u32 \<times> bytes \<times> 's log_reader)" where
  "ReadPhysicalRecord S fragment r =
     (if length (lr_buffer r) < kHeaderSize then
        (if \<not> lr_eof r then
           bind_res (sf_Read S log_kBlockSize (lr_file r)) (\<lambda>(st, data, f).
             (let r1 = r\<lparr>lr_file := f, lr_buffer := data,
                         lr_end_of_buffer_offset := lr_end_of_buffer_offset r + of_nat (length data)\<rparr>
              in if \<not> status_ok st
                 then Inr (kEof, fragment, (ReportDrop (of_nat log_kBlockSize) st (r1\<lparr>lr_buffer := []\<rparr>))\<lparr>lr_eof := True\<rparr>)
                 else ReadPhysicalRecord S fragment (if length data < log_kBlockSize then r1\<lparr>lr_eof := True\<rparr> else r1)))
         else Inr (kEof, fragment, r\<lparr>lr_buffer := []\<rparr>))
      else Inr (parse_record fragment r))"
  by pat_completeness auto
termination
  by (relation "measure (\<lambda>(S, fragment, r). if length (lr_buffer r) < 7 then (if lr_eof r then 1 else 2) else 0)")
    (auto simp: log_kBlockSize_def kHeaderSize_def)

declare ReadPhysicalRecord.simps [simp del]

text \<open>
  The loop of \<open>ReadRecord\<close>: its variables, one turn of it after a physical record was read, which
  either returns or goes on, and the loop itself.
\<close>

record 's rr_state =
  rr_reader :: "'s log_reader"
  rr_fragment :: bytes
  rr_in_fragmented :: bool
  rr_scratch :: bytes
  rr_prospective :: u64

definition drop_partial :: "string \<Rightarrow> 's rr_state \<Rightarrow> 's rr_state" where
  "drop_partial msg q =
     (if rr_in_fragmented q then
        (if rr_scratch q = [] then q\<lparr>rr_in_fragmented := False\<rparr>
         else q\<lparr>rr_reader := ReportCorruption (of_nat (length (rr_scratch q))) msg (rr_reader q)\<rparr>)
      else q)"

definition rr_switch :: "u32 \<Rightarrow> u64 \<Rightarrow> 's rr_state \<Rightarrow> (bool \<times> bytes) option \<times> 's rr_state" where
  "rr_switch record_type physical_record_offset q =
     (if record_type = 1 then
        (let q1 = drop_partial ''partial record without end(1)'' q
         in (Some (True, rr_fragment q1),
             q1\<lparr>rr_prospective := physical_record_offset, rr_scratch := [],
                rr_reader := (rr_reader q1)\<lparr>lr_last_record_offset := physical_record_offset\<rparr>\<rparr>))
      else if record_type = 2 then
        (let q1 = drop_partial ''partial record without end(2)'' q
         in (None, q1\<lparr>rr_prospective := physical_record_offset, rr_scratch := rr_fragment q1, rr_in_fragmented := True\<rparr>))
      else if record_type = 3 then
        (if \<not> rr_in_fragmented q
         then (None, q\<lparr>rr_reader := ReportCorruption (of_nat (length (rr_fragment q)))
                         ''missing start of fragmented record(1)'' (rr_reader q)\<rparr>)
         else (None, q\<lparr>rr_scratch := rr_scratch q @ rr_fragment q\<rparr>))
      else if record_type = 4 then
        (if \<not> rr_in_fragmented q
         then (None, q\<lparr>rr_reader := ReportCorruption (of_nat (length (rr_fragment q)))
                         ''missing start of fragmented record(2)'' (rr_reader q)\<rparr>)
         else (let scratch = rr_scratch q @ rr_fragment q
               in (Some (True, scratch),
                   q\<lparr>rr_scratch := scratch, rr_reader := (rr_reader q)\<lparr>lr_last_record_offset := rr_prospective q\<rparr>\<rparr>)))
      else if record_type = kEof then (Some (False, []), q\<lparr>rr_scratch := (if rr_in_fragmented q then [] else rr_scratch q)\<rparr>)
      else if record_type = kBadRecord then
        (None, if rr_in_fragmented q
               then q\<lparr>rr_reader := ReportCorruption (of_nat (length (rr_scratch q))) ''error in middle of record'' (rr_reader q),
                      rr_in_fragmented := False, rr_scratch := []\<rparr>
               else q)
      else
        (None, q\<lparr>rr_reader := ReportDrop
                   (of_nat (length (rr_fragment q) + (if rr_in_fragmented q then length (rr_scratch q) else 0)))
                   (Corruption (str ''unknown record type '' @ decimal (unat record_type)) []) (rr_reader q),
                 rr_in_fragmented := False, rr_scratch := []\<rparr>))"

definition rr_turn :: "u32 \<Rightarrow> 's rr_state \<Rightarrow> (bool \<times> bytes) option \<times> 's rr_state" where
  "rr_turn record_type q =
     (let r = rr_reader q;
          physical_record_offset = lr_end_of_buffer_offset r - of_nat (length (lr_buffer r)) - of_nat kHeaderSize
            - of_nat (length (rr_fragment q))
      in if lr_resyncing r then
           (if record_type = 3 then (None, q)
            else if record_type = 4 then (None, q\<lparr>rr_reader := r\<lparr>lr_resyncing := False\<rparr>\<rparr>)
            else rr_switch record_type physical_record_offset (q\<lparr>rr_reader := r\<lparr>lr_resyncing := False\<rparr>\<rparr>))
         else rr_switch record_type physical_record_offset q)"

definition rr_next :: "'s sequential_file \<Rightarrow> 's rr_state \<Rightarrow> mem_error + ((bool \<times> bytes) option \<times> 's rr_state)" where
  "rr_next S q = bind_res (ReadPhysicalRecord S (rr_fragment q) (rr_reader q)) (\<lambda>(t, frag, r).
     Inr (rr_turn t (q\<lparr>rr_reader := r, rr_fragment := frag\<rparr>)))"

partial_function (option) rr_loop ::
  "'s sequential_file \<Rightarrow> 's rr_state \<Rightarrow> (mem_error + (bool \<times> bytes \<times> 's log_reader)) option" where
  "rr_loop S q =
     (case rr_next S q of Inl e \<Rightarrow> Some (Inl e)
      | Inr res \<Rightarrow> (case fst res of Some ret \<Rightarrow> Some (Inr (fst ret, snd ret, rr_reader (snd res)))
                    | None \<Rightarrow> rr_loop S (snd res)))"

definition ReadRecord ::
  "'s sequential_file \<Rightarrow> 's log_reader \<Rightarrow> (mem_error + (bool \<times> bytes \<times> 's log_reader)) option" where
  "ReadRecord S r =
     (let start = (\<lambda>r. rr_loop S \<lparr>rr_reader = r, rr_fragment = [], rr_in_fragmented = False, rr_scratch = [], rr_prospective = 0\<rparr>)
      in if lr_last_record_offset r < lr_initial_offset r then
           (case SkipToInitialBlock S r of Inl e \<Rightarrow> Some (Inl e)
            | Inr res \<Rightarrow> if fst res then start (snd res) else Some (Inr (False, [], snd res)))
         else start r)"

definition LastRecordOffset :: "'s log_reader \<Rightarrow> u64" where
  "LastRecordOffset r = lr_last_record_offset r"

end
