(* ===== verification/Ldb_Log_Correct.thy ===== *)
theory Ldb_Log_Correct
  imports Ldb_Log
begin

text \<open>
  Correctness of the log of theory Ldb_Log: the bytes a writer appends, and what a reader makes of any
  prefix of them.
\<close>

section \<open>Prefixes\<close>

lemma append_split_long: "a @ b = c @ d \<Longrightarrow> length c \<le> length a \<Longrightarrow> \<exists>x. a = c @ x \<and> x @ b = d"
  by (auto simp: append_eq_append_conv2)

lemma append_split_short: "a @ b = c @ d \<Longrightarrow> \<not> length c \<le> length a \<Longrightarrow> \<exists>m. a @ m = c \<and> m \<noteq> []"
  by (auto simp: append_eq_append_conv2)

section \<open>The bytes of a record\<close>

definition phys_byte :: "byte \<Rightarrow> bytes \<Rightarrow> bytes" where
  "phys_byte b d = EncodeFixed32 kLittleEndian (Mask (crc32c 0 (b # d))) @
     [of_nat (length d mod 256), of_nat (length d div 256), b] @ d"

definition phys :: "record_type \<Rightarrow> bytes \<Rightarrow> bytes" where "phys t d = phys_byte (rec_byte t) d"

text \<open>Where the next header goes, and the trailer in front of it.\<close>

definition block_start :: "nat \<Rightarrow> nat" where "block_start off = (if 32768 - off < 7 then 0 else off)"
definition trailer :: "nat \<Rightarrow> bytes" where "trailer off = (if 32768 - off < 7 then replicate (32768 - off) 0 else [])"

lemma block_start_le [simp]: "block_start off \<le> 32761"
  by (auto simp: block_start_def)

function log_enc :: "nat \<Rightarrow> bool \<Rightarrow> bytes \<Rightarrow> bytes \<times> nat" where
  "log_enc off start d =
     (let avail = 32761 - block_start off; frag = take avail d; rest = drop avail d;
          p = trailer off @ phys (fragment_type start (rest = [])) frag; off' = block_start off + 7 + length frag
      in if rest = [] then (p, off') else (p @ fst (log_enc off' False rest), snd (log_enc off' False rest)))"
  by pat_completeness auto
termination
proof (relation "measure (\<lambda>(off, start, d). 2 * length d + (if off = 32761 then 1 else 0))")
qed (auto simp: block_start_def Let_def split: if_splits)

declare log_enc.simps [simp del]

lemma phys_length [simp]: "length (phys t d) = 7 + length d"
  by (simp add: phys_def phys_byte_def)

lemma trailer_length: "length (trailer off) = (if 32768 - off < 7 then 32768 - off else 0)"
  by (simp add: trailer_def)

section \<open>The writer appends them\<close>

lemma InitTypeCrc_at: "InitTypeCrc ! unat (rec_byte t) = crc32c 0 [rec_byte t]"
proof -
  have "unat (rec_byte t) < 5" by (cases t) simp_all
  then show ?thesis by (simp add: InitTypeCrc_def Value_def Extend_reference)
qed

definition writer_ok :: "'w log_writer \<Rightarrow> bool" where
  "writer_ok w \<longleftrightarrow> lw_type_crc w = InitTypeCrc \<and> lw_block_offset w \<le> 32768"

context reliable_writable
begin

lemma Emit_ok:
  assumes "ok (lw_dest w)" "lw_type_crc w = InitTypeCrc"
  shows "\<exists>w'. EmitPhysicalRecord W t d w = Inr (OK, w') \<and> ok (lw_dest w') \<and> lw_type_crc w' = InitTypeCrc \<and>
    lw_block_offset w' = lw_block_offset w + 7 + length d \<and> contents (lw_dest w') = contents (lw_dest w) @ phys t d"
proof -
  let ?buf = "EncodeFixed32 kLittleEndian (Mask (Extend 0 (lw_type_crc w ! unat (rec_byte t)) d)) @
     [of_nat (length d mod 256), of_nat (length d div 256), rec_byte t]"
  obtain d1 where 1: "wf_Append W ?buf (lw_dest w) = Inr (OK, d1)" "ok d1" "contents d1 = contents (lw_dest w) @ ?buf"
    using append_ok [OF assms(1)] by blast
  obtain d2 where 2: "wf_Append W d d1 = Inr (OK, d2)" "ok d2" "contents d2 = contents d1 @ d"
    using append_ok [OF 1(2)] by blast
  have "crc32c 0 (rec_byte t # d) = Extend 0 (lw_type_crc w ! unat (rec_byte t)) d"
    using crc32c_append [of 0 "[rec_byte t]" d] by (simp add: assms(2) InitTypeCrc_at Extend_reference)
  then have "contents d2 = contents (lw_dest w) @ phys t d" by (simp add: 1 2 phys_def phys_byte_def)
  then show ?thesis using 1 2 flush_ok [OF 2(2)] assms(2) by (simp add: EmitPhysicalRecord_def Let_def kHeaderSize_def)
qed

lemma switch_block_ok:
  assumes "ok (lw_dest w)"
  shows "\<exists>w'. switch_block W w = Inr w' \<and> ok (lw_dest w') \<and> lw_type_crc w' = lw_type_crc w \<and>
    lw_block_offset w' = block_start (lw_block_offset w) \<and> contents (lw_dest w') = contents (lw_dest w) @ trailer (lw_block_offset w)"
  using assms append_ok [OF assms, of "replicate (32768 - lw_block_offset w) 0"]
  by (auto simp: switch_block_def Let_def log_kBlockSize_def kHeaderSize_def block_start_def trailer_def)

lemma AddRecord_loop_ok:
  "ok (lw_dest w) \<Longrightarrow> lw_type_crc w = InitTypeCrc \<Longrightarrow>
   \<exists>w'. AddRecord_loop W start d w = Inr (OK, w') \<and> ok (lw_dest w') \<and> lw_type_crc w' = InitTypeCrc \<and>
     lw_block_offset w' = snd (log_enc (lw_block_offset w) start d) \<and>
     contents (lw_dest w') = contents (lw_dest w) @ fst (log_enc (lw_block_offset w) start d)"
proof (induction "lw_block_offset w" start d arbitrary: w rule: log_enc.induct)
  case (1 start d)
  let ?off = "lw_block_offset w"
  define avail frag rest where "avail = 32761 - block_start ?off" and "frag = take avail d" and "rest = drop avail d"
  define fl where "fl = (if length d < avail then length d else avail)"
  obtain w1 where w1: "switch_block W w = Inr w1" "ok (lw_dest w1)" "lw_type_crc w1 = InitTypeCrc"
      "lw_block_offset w1 = block_start ?off" "contents (lw_dest w1) = contents (lw_dest w) @ trailer ?off"
    using switch_block_ok [OF "1.prems"(1)] "1.prems"(2) by auto
  have fl: "take fl d = frag" "drop fl d = rest" "length d = fl \<longleftrightarrow> rest = []" "0 < length d - fl \<longleftrightarrow> rest \<noteq> []"
    by (auto simp: fl_def frag_def rest_def)
  let ?t = "fragment_type start (rest = [])"
  obtain w2 where w2: "EmitPhysicalRecord W ?t frag w1 = Inr (OK, w2)" "ok (lw_dest w2)" "lw_type_crc w2 = InitTypeCrc"
      "lw_block_offset w2 = block_start ?off + 7 + length frag" "contents (lw_dest w2) = contents (lw_dest w1) @ phys ?t frag"
    using Emit_ok [OF w1(2,3), of ?t frag] by (auto simp: w1(4))
  have av: "log_kBlockSize - lw_block_offset w1 - kHeaderSize = avail"
    by (simp add: log_kBlockSize_def kHeaderSize_def w1(4) avail_def)
  have loop: "AddRecord_loop W start d w = (if rest \<noteq> [] then AddRecord_loop W False rest w2 else Inr (OK, w2))"
    unfolding AddRecord_loop.simps [of W start d w] w1(1) bind_res.simps Let_def av fl_def [symmetric] fl w2(1) by simp
  have enc: "log_enc ?off start d = (let p = trailer ?off @ phys ?t frag in if rest = [] then (p, lw_block_offset w2)
      else (p @ fst (log_enc (lw_block_offset w2) False rest), snd (log_enc (lw_block_offset w2) False rest)))"
    unfolding log_enc.simps [of ?off] w2(4) by (simp add: Let_def avail_def frag_def rest_def)
  show ?case
  proof (cases "rest = []")
    case True
    then show ?thesis unfolding loop enc Let_def using w1 w2 by simp
  next
    case False
    have "\<exists>w'. AddRecord_loop W False rest w2 = Inr (OK, w') \<and> ok (lw_dest w') \<and> lw_type_crc w' = InitTypeCrc \<and>
        lw_block_offset w' = snd (log_enc (lw_block_offset w2) False rest) \<and>
        contents (lw_dest w') = contents (lw_dest w2) @ fst (log_enc (lw_block_offset w2) False rest)"
      by (rule "1.hyps"(1) [OF refl refl refl refl, folded avail_def, folded frag_def rest_def]) (use w2 False in simp_all)
    then show ?thesis unfolding loop enc Let_def using False w1 w2 by auto
  qed
qed

end

section \<open>The reader and one physical record\<close>

lemma header_length:
  assumes "n < 65536"
  shows "unat ((ucast (of_nat (n mod 256) :: byte) AND 0xff :: u32) OR push_bit 8 (ucast (of_nat (n div 256) :: byte) AND 0xff)) = n"
proof -
  have small: "bit n k \<Longrightarrow> k < 16" for k
  proof (rule ccontr)
    assume "bit n k" "\<not> k < 16"
    then have "(2 :: nat) ^ 16 \<le> 2 ^ k" by (intro power_increasing) simp_all
    then have "n div 2 ^ k = 0" using assms by simp
    then show False using \<open>bit n k\<close> by (simp add: bit_iff_odd)
  qed
  have low: "bit (n mod 256) k \<longleftrightarrow> k < 8 \<and> bit n k" for k
    using bit_take_bit_iff [of 8 n k] by (simp add: take_bit_eq_mod)
  have high: "bit (n div 256) k \<longleftrightarrow> bit n (8 + k)" for k
    using bit_drop_bit_eq [of 8 n] by (simp add: drop_bit_eq_div fun_eq_iff)
  have "(ucast (of_nat (n mod 256) :: byte) AND 0xff :: u32) OR push_bit 8 (ucast (of_nat (n div 256) :: byte) AND 0xff) = of_nat n"
  proof (rule bit_word_eqI)
    fix k assume "k < LENGTH(32)"
    then show "bit ((ucast (of_nat (n mod 256) :: byte) AND 0xff :: u32) OR push_bit 8 (ucast (of_nat (n div 256) :: byte) AND 0xff)) k
        = bit (of_nat n :: u32) k"
      using small [of k] by (auto simp: and_ff bit_simps low high)
  qed
  then show ?thesis using assms by (simp add: unat_of_nat)
qed

definition at_pos :: "('s \<Rightarrow> bool) \<Rightarrow> ('s \<Rightarrow> bytes) \<Rightarrow> nat \<Rightarrow> bytes \<Rightarrow> 's log_reader \<Rightarrow> bool" where
  "at_pos ok rest off strm r \<longleftrightarrow> ok (lr_file r) \<and> lr_buffer r @ rest (lr_file r) = strm \<and> off \<le> 32768 \<and>
     (if lr_eof r then rest (lr_file r) = [] \<and> length (lr_buffer r) + off < 32768 else length (lr_buffer r) + off = 32768) \<and>
     lr_initial_offset r = 0 \<and> \<not> lr_resyncing r"

definition tcode :: "record_type \<Rightarrow> u32" where "tcode t = ucast (rec_byte t)"

lemma parse_phys_byte:
  assumes "lr_buffer r = phys_byte b d @ tl0" "length d < 65536" "lr_initial_offset r = 0" "b \<noteq> 0"
  shows "parse_record frag r = (scast b, d, r\<lparr>lr_buffer := tl0\<rparr>)"
proof -
  let ?b = "lr_buffer r"
  have at: "?b ! 4 = of_nat (length d mod 256)" "?b ! 5 = of_nat (length d div 256)" "?b ! 6 = b"
    using assms(1) by (simp_all add: phys_byte_def nth_append)
  have ty: "(scast b :: u32) \<noteq> 0"
  proof
    assume "(scast b :: u32) = 0"
    moreover have "(ucast (scast b :: u32) :: byte) = b" by (rule bit_word_eqI) (auto simp: bit_simps)
    ultimately show False using assms(4) by simp
  qed
  have crc: "Value 0 (take (1 + length d) (drop 6 ?b)) = Unmask (fixed32 ?b)"
    using assms(1) by (simp add: phys_byte_def Value_def Extend_reference codec_simps)
  have "length (phys_byte b d) = 7 + length d" by (simp add: phys_byte_def)
  then have "drop (7 + length d) (phys_byte b d @ tl0) = tl0" by simp
  then have pay: "take (length d) (drop 7 ?b) = d" "drop (7 + length d) ?b = tl0" "7 + length d \<le> length ?b"
    using assms(1) by (simp add: phys_byte_def, simp_all add: phys_byte_def)
  show ?thesis
    unfolding parse_record_def Let_def at header_length [OF assms(2)] kHeaderSize_def
    using crc pay ty assms(3) by simp
qed

lemma parse_phys:
  assumes "lr_buffer r = phys t d @ tl0" "length d < 65536" "lr_initial_offset r = 0" "t \<noteq> kZeroType"
  shows "parse_record frag r = (tcode t, d, r\<lparr>lr_buffer := tl0\<rparr>)"
proof -
  have "rec_byte t \<noteq> 0" "(scast (rec_byte t) :: u32) = tcode t" using assms(4) by (cases t; simp add: tcode_def)+
  then show ?thesis using parse_phys_byte [of r "rec_byte t" d tl0 frag] assms by (simp add: phys_def)
qed

text \<open>
  A record with the type byte 5 and a correct checksum is taken for the end of the log: its type is the
  reader's own code for the end, so nothing is reported and what follows is never read.
\<close>

lemma type_5_ends_log:
  assumes "lr_buffer (rr_reader q) = phys_byte 5 d @ tl0" "length d < 65536" "lr_initial_offset (rr_reader q) = 0"
  shows "\<exists>r'. rr_loop S q = Some (Inr (False, [], r')) \<and> lr_reports r' = lr_reports (rr_reader q)"
proof -
  have "7 \<le> length (lr_buffer (rr_reader q))" using assms(1) by (simp add: phys_byte_def)
  then have "ReadPhysicalRecord S (rr_fragment q) (rr_reader q) = Inr (kEof, d, (rr_reader q)\<lparr>lr_buffer := tl0\<rparr>)"
    using parse_phys_byte [OF assms, of "rr_fragment q"]
    by (subst ReadPhysicalRecord.simps) (simp add: kHeaderSize_def kEof_def)
  then show ?thesis
    by (subst rr_loop.simps) (auto simp: rr_next_def rr_turn_def rr_switch_def kEof_def Let_def)
qed

lemma parse_cut:
  assumes "7 \<le> length (lr_buffer r)" "lr_buffer r @ miss = phys t d" "miss \<noteq> []" "length d < 65536" "lr_eof r"
  shows "parse_record frag r = (kEof, frag, r\<lparr>lr_buffer := []\<rparr>)"
proof -
  let ?b = "lr_buffer r"
  have at: "?b ! i = phys t d ! i" if "i < 7" for i
    using that assms(1,2) by (metis less_le_trans nth_append)
  have b: "?b ! 4 = of_nat (length d mod 256)" "?b ! 5 = of_nat (length d div 256)"
    using at [of 4] at [of 5] by (simp_all add: phys_def phys_byte_def nth_append)
  have "length ?b + length miss = 7 + length d" using assms(2) by (metis length_append phys_length)
  then have "length ?b < 7 + length d" using assms(3) by (cases miss) auto
  then show ?thesis
    unfolding parse_record_def Let_def b header_length [OF assms(4)] kHeaderSize_def using assms(5) by simp
qed

context reliable_sequential
begin

lemma refill:
  assumes "at_pos ok rest off strm r" "length (lr_buffer r) < 7" "\<not> lr_eof r"
  shows "\<exists>r1. ReadPhysicalRecord S frag r = ReadPhysicalRecord S frag r1 \<and> at_pos ok rest 0 (rest (lr_file r)) r1 \<and>
    lr_reports r1 = lr_reports r"
proof -
  obtain f where f: "sf_Read S 32768 (lr_file r) = Inr (OK, take 32768 (rest (lr_file r)), f)" "ok f"
      "rest f = drop 32768 (rest (lr_file r))"
    using read_ok assms(1) unfolding at_pos_def by blast
  let ?d = "take 32768 (rest (lr_file r))"
  let ?r1 = "r\<lparr>lr_file := f, lr_buffer := ?d, lr_end_of_buffer_offset := lr_end_of_buffer_offset r + of_nat (length ?d)\<rparr>"
  let ?r2 = "if length ?d < 32768 then ?r1\<lparr>lr_eof := True\<rparr> else ?r1"
  have "ReadPhysicalRecord S frag r = ReadPhysicalRecord S frag ?r2"
    using assms(2,3) unfolding ReadPhysicalRecord.simps [of S frag r] kHeaderSize_def log_kBlockSize_def f(1) bind_res.simps split Let_def
    by simp
  moreover have "at_pos ok rest 0 (rest (lr_file r)) ?r2"
    using assms f by (auto simp: at_pos_def)
  ultimately show ?thesis by (intro exI [of _ ?r2]) auto
qed

lemma read_in_block:
  assumes "at_pos ok rest off (phys t d @ strm) r" "off + 7 + length d \<le> 32768" "t \<noteq> kZeroType"
  shows "\<exists>r'. ReadPhysicalRecord S frag r = Inr (tcode t, d, r') \<and> at_pos ok rest (off + 7 + length d) strm r' \<and>
    lr_reports r' = lr_reports r"
proof -
  have eq: "lr_buffer r @ rest (lr_file r) = phys t d @ strm" using assms(1) by (simp add: at_pos_def)
  then have len: "length (lr_buffer r) + length (rest (lr_file r)) = 7 + length d + length strm"
    by (metis length_append phys_length)
  have "7 + length d \<le> length (lr_buffer r)"
    using assms(1,2) len by (auto simp: at_pos_def split: if_splits)
  then obtain tl0 where b: "lr_buffer r = phys t d @ tl0" "tl0 @ rest (lr_file r) = strm"
    using append_split_long [OF eq] by auto
  have "ReadPhysicalRecord S frag r = Inr (tcode t, d, r\<lparr>lr_buffer := tl0\<rparr>)"
    using parse_phys [OF b(1), of frag] assms b(1) by (subst ReadPhysicalRecord.simps) (simp add: kHeaderSize_def at_pos_def)
  moreover have "at_pos ok rest (off + 7 + length d) strm (r\<lparr>lr_buffer := tl0\<rparr>)"
    using assms b by (auto simp: at_pos_def)
  ultimately show ?thesis by auto
qed

lemma read_cut_in_block:
  assumes "at_pos ok rest off strm r" "strm @ miss = phys t d" "miss \<noteq> []" "off + 7 + length d \<le> 32768"
  shows "\<exists>r'. ReadPhysicalRecord S frag r = Inr (kEof, frag, r') \<and> lr_reports r' = lr_reports r"
proof -
  have "length strm + length miss = 7 + length d" using assms(2) by (metis length_append phys_length)
  then have short: "length strm + off < 32768" using assms(3,4) by (cases miss) auto
  then have eof: "lr_eof r" "lr_buffer r = strm" using assms(1) by (auto simp: at_pos_def split: if_splits)
  show ?thesis
  proof (cases "length strm < 7")
    case True
    then show ?thesis using eof by (subst ReadPhysicalRecord.simps) (simp add: kHeaderSize_def)
  next
    case False
    then show ?thesis
      using parse_cut [of r miss t d frag] eof assms by (subst ReadPhysicalRecord.simps) (simp add: kHeaderSize_def)
  qed
qed

lemma read_phys:
  assumes "at_pos ok rest off (trailer off @ phys t d @ strm) r" "block_start off + 7 + length d \<le> 32768" "t \<noteq> kZeroType"
  shows "\<exists>r'. ReadPhysicalRecord S frag r = Inr (tcode t, d, r') \<and> at_pos ok rest (block_start off + 7 + length d) strm r' \<and>
    lr_reports r' = lr_reports r"
proof (cases "32768 - off < 7")
  case True
  then have tr: "length (trailer off) = 32768 - off" "block_start off = 0" by (simp_all add: trailer_length block_start_def)
  have eq: "lr_buffer r @ rest (lr_file r) = trailer off @ phys t d @ strm" using assms(1) by (simp add: at_pos_def)
  then have "length (lr_buffer r) + length (rest (lr_file r)) = 32768 - off + (7 + length d + length strm)"
    using tr by (metis length_append phys_length)
  then have ne: "\<not> lr_eof r" "length (lr_buffer r) = 32768 - off" using assms(1) by (auto simp: at_pos_def split: if_splits)
  then have "rest (lr_file r) = phys t d @ strm" using eq tr by simp
  moreover obtain r1 where r1: "ReadPhysicalRecord S frag r = ReadPhysicalRecord S frag r1"
      "at_pos ok rest 0 (rest (lr_file r)) r1" "lr_reports r1 = lr_reports r"
    using refill [OF assms(1)] ne True by auto
  ultimately show ?thesis using read_in_block [of 0 t d strm r1 frag] assms tr by auto
next
  case False
  then show ?thesis using read_in_block [of off t d strm r frag] assms by (simp add: trailer_def block_start_def)
qed

lemma read_cut:
  assumes "at_pos ok rest off strm r" "strm @ miss = trailer off @ phys t d" "miss \<noteq> []" "block_start off + 7 + length d \<le> 32768"
  shows "\<exists>r'. ReadPhysicalRecord S frag r = Inr (kEof, frag, r') \<and> lr_reports r' = lr_reports r"
proof (cases "32768 - off < 7")
  case True
  then have tr: "length (trailer off) = 32768 - off" "block_start off = 0" by (simp_all add: trailer_length block_start_def)
  show ?thesis
  proof (cases "lr_eof r")
    case eof: True
    then have "length (lr_buffer r) < 7" using assms(1) True by (auto simp: at_pos_def)
    then show ?thesis using eof by (subst ReadPhysicalRecord.simps) (simp add: kHeaderSize_def)
  next
    case False
    then have len: "length (lr_buffer r) = 32768 - off" and st: "lr_buffer r @ rest (lr_file r) = strm"
      using assms(1) by (auto simp: at_pos_def)
    have "lr_buffer r @ rest (lr_file r) @ miss = trailer off @ phys t d" using st assms(2) by auto
    then have "rest (lr_file r) @ miss = phys t d" using len tr(1) by simp
    moreover obtain r1 where r1: "ReadPhysicalRecord S frag r = ReadPhysicalRecord S frag r1"
        "at_pos ok rest 0 (rest (lr_file r)) r1" "lr_reports r1 = lr_reports r"
      using refill [OF assms(1)] False len True by auto
    ultimately show ?thesis using read_cut_in_block [of 0 "rest (lr_file r)" r1 miss t d frag] assms(3,4) tr by auto
  qed
next
  case False
  then show ?thesis using read_cut_in_block [of off strm r miss t d frag] assms by (simp add: trailer_def block_start_def)
qed

lemma at_pos_last [simp]: "at_pos ok rest off strm (r\<lparr>lr_last_record_offset := x\<rparr>) = at_pos ok rest off strm r"
  by (simp add: at_pos_def)

lemma rr_loop_step:
  assumes "ReadPhysicalRecord S (rr_fragment q) (rr_reader q) = Inr (t, frag, r)" "\<not> lr_resyncing r"
  shows "\<exists>off. rr_loop S q = (let x = rr_switch t off (q\<lparr>rr_reader := r, rr_fragment := frag\<rparr>) in
    case fst x of Some ret \<Rightarrow> Some (Inr (fst ret, snd ret, rr_reader (snd x))) | None \<Rightarrow> rr_loop S (snd x))"
  using assms by (subst rr_loop.simps) (auto simp: rr_next_def rr_turn_def Let_def)

lemma read_record:
  "at_pos ok rest off (fst (log_enc off start d) @ strm) (rr_reader q) \<Longrightarrow> rr_in_fragmented q = (\<not> start) \<Longrightarrow>
   (start \<Longrightarrow> rr_scratch q = []) \<Longrightarrow>
   \<exists>r'. rr_loop S q = Some (Inr (True, rr_scratch q @ d, r')) \<and> at_pos ok rest (snd (log_enc off start d)) strm r' \<and>
     lr_reports r' = lr_reports (rr_reader q)"
proof (induction off start d arbitrary: q rule: log_enc.induct)
  case (1 off start d)
  define avail frag tail where "avail = 32761 - block_start off" and "frag = take avail d" and "tail = drop avail d"
  define t off' where "t = fragment_type start (tail = [])" and "off' = block_start off + 7 + length frag"
  have enc: "log_enc off start d = (if tail = [] then (trailer off @ phys t frag, off')
      else ((trailer off @ phys t frag) @ fst (log_enc off' False tail), snd (log_enc off' False tail)))"
    by (subst log_enc.simps) (simp add: Let_def avail_def frag_def tail_def t_def off'_def)
  let ?strm = "(if tail = [] then [] else fst (log_enc off' False tail)) @ strm"
  have "length frag \<le> avail" by (simp add: frag_def)
  then have fits: "block_start off + 7 + length frag \<le> 32768" using block_start_le [of off] unfolding avail_def by linarith
  have pos: "at_pos ok rest off (trailer off @ phys t frag @ ?strm) (rr_reader q)"
    using "1.prems"(1) by (simp add: enc split: if_splits)
  have t0: "t \<noteq> kZeroType" by (simp add: t_def fragment_type_def)
  obtain r where r: "ReadPhysicalRecord S (rr_fragment q) (rr_reader q) = Inr (tcode t, frag, r)" "at_pos ok rest off' ?strm r"
      "lr_reports r = lr_reports (rr_reader q)"
    using read_phys [OF pos fits t0] by (auto simp: off'_def)
  have "\<not> lr_resyncing r" using r(2) by (simp add: at_pos_def)
  then obtain o1 where o1: "rr_loop S q = (let x = rr_switch (tcode t) o1 (q\<lparr>rr_reader := r, rr_fragment := frag\<rparr>) in
      case fst x of Some ret \<Rightarrow> Some (Inr (fst ret, snd ret, rr_reader (snd x))) | None \<Rightarrow> rr_loop S (snd x))"
    using rr_loop_step [OF r(1)] by blast
  show ?case
  proof (cases "tail = []")
    case True
    then have d: "frag = d" by (simp add: frag_def tail_def)
    have "snd (log_enc off start d) = off'" by (simp add: enc True)
    then show ?thesis
      using o1 r(2,3) True "1.prems"(2,3) d
      by (cases start) (auto simp: t_def fragment_type_def tcode_def rr_switch_def drop_partial_def Let_def)
  next
    case False
    define q' where "q' = snd (rr_switch (tcode t) o1 (q\<lparr>rr_reader := r, rr_fragment := frag\<rparr>))"
    have q': "rr_loop S q = rr_loop S q'" "rr_reader q' = r" "rr_in_fragmented q'" "rr_scratch q' = rr_scratch q @ frag"
      using o1 False "1.prems"(2,3)
      by (cases start; simp add: q'_def t_def fragment_type_def tcode_def rr_switch_def drop_partial_def Let_def)+
    have "\<exists>r'. rr_loop S q' = Some (Inr (True, rr_scratch q' @ tail, r')) \<and> at_pos ok rest (snd (log_enc off' False tail)) strm r' \<and>
        lr_reports r' = lr_reports (rr_reader q')"
      by (rule "1.IH" [OF refl refl refl refl refl, folded avail_def, folded frag_def tail_def, folded off'_def])
        (use False q' r(2) in simp_all)
    moreover have "frag @ tail = d" by (simp add: frag_def tail_def)
    ultimately show ?thesis using q' r(3) False by (simp add: enc)
  qed
qed

lemma read_record_cut:
  "at_pos ok rest off strm (rr_reader q) \<Longrightarrow> strm @ miss = fst (log_enc off start d) \<Longrightarrow> miss \<noteq> [] \<Longrightarrow>
   rr_in_fragmented q = (\<not> start) \<Longrightarrow> (start \<Longrightarrow> rr_scratch q = []) \<Longrightarrow>
   \<exists>r'. rr_loop S q = Some (Inr (False, [], r')) \<and> lr_reports r' = lr_reports (rr_reader q)"
proof (induction off start d arbitrary: q strm rule: log_enc.induct)
  case (1 off start d)
  define avail frag tail where "avail = 32761 - block_start off" and "frag = take avail d" and "tail = drop avail d"
  define t off' where "t = fragment_type start (tail = [])" and "off' = block_start off + 7 + length frag"
  define more where "more = (if tail = [] then [] else fst (log_enc off' False tail))"
  have enc: "fst (log_enc off start d) = trailer off @ phys t frag @ more"
    by (subst log_enc.simps) (simp add: Let_def avail_def frag_def tail_def t_def off'_def more_def)
  have "length frag \<le> avail" by (simp add: frag_def)
  then have fits: "block_start off + 7 + length frag \<le> 32768" using block_start_le [of off] unfolding avail_def by linarith
  have t0: "t \<noteq> kZeroType" by (simp add: t_def fragment_type_def)
  have eq: "strm @ miss = (trailer off @ phys t frag) @ more" using "1.prems"(2) enc by simp
  show ?case
  proof (cases "length (trailer off @ phys t frag) \<le> length strm")
    case False
    then obtain m where m: "strm @ m = trailer off @ phys t frag" "m \<noteq> []"
      using append_split_short [OF eq] by blast
    obtain r where r: "ReadPhysicalRecord S (rr_fragment q) (rr_reader q) = Inr (kEof, rr_fragment q, r)"
        "lr_reports r = lr_reports (rr_reader q)"
      using read_cut [OF "1.prems"(1) m fits] by blast
    then show ?thesis
      by (subst rr_loop.simps) (auto simp: rr_next_def rr_turn_def rr_switch_def kEof_def Let_def)
  next
    case True
    then obtain s' where s': "strm = trailer off @ phys t frag @ s'" "s' @ miss = more"
      using append_split_long [OF eq] by auto
    then have ne: "tail \<noteq> []" using "1.prems"(3) by (auto simp: more_def)
    have pos: "at_pos ok rest off (trailer off @ phys t frag @ s') (rr_reader q)" using "1.prems"(1) s'(1) by simp
    obtain r where r: "ReadPhysicalRecord S (rr_fragment q) (rr_reader q) = Inr (tcode t, frag, r)" "at_pos ok rest off' s' r"
        "lr_reports r = lr_reports (rr_reader q)"
      using read_phys [OF pos fits t0] by (auto simp: off'_def)
    have "\<not> lr_resyncing r" using r(2) by (simp add: at_pos_def)
    then obtain o1 where o1: "rr_loop S q = (let x = rr_switch (tcode t) o1 (q\<lparr>rr_reader := r, rr_fragment := frag\<rparr>) in
        case fst x of Some ret \<Rightarrow> Some (Inr (fst ret, snd ret, rr_reader (snd x))) | None \<Rightarrow> rr_loop S (snd x))"
      using rr_loop_step [OF r(1)] by blast
    define q' where "q' = snd (rr_switch (tcode t) o1 (q\<lparr>rr_reader := r, rr_fragment := frag\<rparr>))"
    have q': "rr_loop S q = rr_loop S q'" "rr_reader q' = r" "rr_in_fragmented q'"
      using o1 ne "1.prems"(4,5)
      by (cases start; simp add: q'_def t_def fragment_type_def tcode_def rr_switch_def drop_partial_def Let_def)+
    have "\<exists>r'. rr_loop S q' = Some (Inr (False, [], r')) \<and> lr_reports r' = lr_reports (rr_reader q')"
      by (rule "1.IH" [OF refl refl refl refl refl, folded avail_def, folded frag_def tail_def, folded off'_def, of s'])
        (use ne q' r(2) s'(2) "1.prems"(3) in \<open>simp_all add: more_def\<close>)
    then show ?thesis using q' r(3) by simp
  qed
qed

lemma ReadRecord_start:
  assumes "at_pos ok rest off strm r"
  shows "ReadRecord S r = rr_loop S \<lparr>rr_reader = r, rr_fragment = [], rr_in_fragmented = False, rr_scratch = [], rr_prospective = 0\<rparr>"
  using assms by (simp add: ReadRecord_def at_pos_def)

end

section \<open>A whole log\<close>

fun log_all :: "nat \<Rightarrow> bytes list \<Rightarrow> bytes" where
  "log_all off [] = []"
| "log_all off (d # ds) = fst (log_enc off True d) @ log_all (snd (log_enc off True d)) ds"

text \<open>The calls of a client: the records in turn, and reading until there is no more.\<close>

fun add_records :: "'w writable_file \<Rightarrow> bytes list \<Rightarrow> 'w log_writer \<Rightarrow> mem_error + (status \<times> 'w log_writer)" where
  "add_records W [] w = Inr (OK, w)"
| "add_records W (d # ds) w = bind_res (AddRecord W d w) (\<lambda>(s, w'). if status_ok s then add_records W ds w' else Inr (s, w'))"

fun read_log :: "'s sequential_file \<Rightarrow> nat \<Rightarrow> 's log_reader \<Rightarrow> (bytes list \<times> 's log_reader) option" where
  "read_log S 0 r = None"
| "read_log S (Suc n) r =
     (case ReadRecord S r of Some (Inr (True, d, r')) \<Rightarrow> map_option (apfst ((#) d)) (read_log S n r')
      | Some (Inr (False, d, r')) \<Rightarrow> Some ([], r')
      | _ \<Rightarrow> None)"

context reliable_writable
begin

lemma add_records_ok:
  "ok (lw_dest w) \<Longrightarrow> lw_type_crc w = InitTypeCrc \<Longrightarrow>
   \<exists>w'. add_records W ds w = Inr (OK, w') \<and> ok (lw_dest w') \<and>
     contents (lw_dest w') = contents (lw_dest w) @ log_all (lw_block_offset w) ds"
proof (induction ds arbitrary: w)
  case (Cons d ds)
  from AddRecord_loop_ok [OF Cons.prems, of True d] obtain w1 where w1: "AddRecord W d w = Inr (OK, w1)" "ok (lw_dest w1)"
      "lw_type_crc w1 = InitTypeCrc" "lw_block_offset w1 = snd (log_enc (lw_block_offset w) True d)"
      "contents (lw_dest w1) = contents (lw_dest w) @ fst (log_enc (lw_block_offset w) True d)"
    by (auto simp: AddRecord_def)
  show ?case using Cons.IH [OF w1(2,3)] w1 by auto
qed simp

end

text \<open>How many records lie wholly in the first \<open>n\<close> bytes of a log.\<close>

fun whole :: "nat \<Rightarrow> nat \<Rightarrow> bytes list \<Rightarrow> nat" where
  "whole off n [] = 0"
| "whole off n (d # ds) =
     (if length (fst (log_enc off True d)) \<le> n
      then Suc (whole (snd (log_enc off True d)) (n - length (fst (log_enc off True d))) ds) else 0)"

lemma whole_all: "length (log_all off ds) \<le> n \<Longrightarrow> whole off n ds = length ds"
  by (induction ds arbitrary: off n) auto

lemma whole_iff: "i < length ds \<Longrightarrow> i < whole off n ds \<longleftrightarrow> length (log_all off (take (Suc i) ds)) \<le> n"
proof (induction ds arbitrary: off n i)
  case (Cons d ds)
  then show ?case by (cases i) auto
qed simp

context reliable_sequential
begin

lemma read_empty:
  assumes "at_pos ok rest off [] r"
  shows "\<exists>r'. ReadRecord S r = Some (Inr (False, [], r')) \<and> lr_reports r' = lr_reports r"
proof -
  have "fst (log_enc off True []) = trailer off @ phys kFullType []"
    by (subst log_enc.simps) (simp add: Let_def fragment_type_def)
  then show ?thesis
    using read_record_cut [of off "[]" "\<lparr>rr_reader = r, rr_fragment = [], rr_in_fragmented = False, rr_scratch = [], rr_prospective = 0\<rparr>"
        "trailer off @ phys kFullType []" True "[]"] assms
    by (simp add: ReadRecord_start [OF assms] phys_def phys_byte_def)
qed

lemma read_log_prefix:
  "at_pos ok rest off (take n (log_all off ds)) r \<Longrightarrow> length ds < k \<Longrightarrow>
   \<exists>r'. read_log S k r = Some (take (whole off n ds) ds, r') \<and> lr_reports r' = lr_reports r"
proof (induction ds arbitrary: off n r k)
  case Nil
  then obtain k' where k: "k = Suc k'" by (cases k) auto
  show ?case using read_empty [of off r] Nil k by auto
next
  case (Cons d ds)
  obtain k' where k: "k = Suc k'" "length ds < k'" using Cons.prems(2) by (cases k) auto
  let ?q = "\<lparr>rr_reader = r, rr_fragment = [], rr_in_fragmented = False, rr_scratch = [], rr_prospective = 0\<rparr>"
  let ?e = "fst (log_enc off True d)" and ?off = "snd (log_enc off True d)"
  note start = ReadRecord_start [OF Cons.prems(1)]
  show ?case
  proof (cases "length ?e \<le> n")
    case True
    then have "at_pos ok rest off (?e @ take (n - length ?e) (log_all ?off ds)) (rr_reader ?q)" using Cons.prems(1) by simp
    from read_record [OF this] obtain r1 where r1: "ReadRecord S r = Some (Inr (True, d, r1))"
        "at_pos ok rest ?off (take (n - length ?e) (log_all ?off ds)) r1" "lr_reports r1 = lr_reports r"
      unfolding start by auto
    show ?thesis using Cons.IH [OF r1(2) k(2)] True r1 k(1) by auto
  next
    case False
    then have "at_pos ok rest off (take n ?e) (rr_reader ?q)" using Cons.prems(1) by simp
    from read_record_cut [OF this append_take_drop_id] obtain r1 where "ReadRecord S r = Some (Inr (False, [], r1))" "lr_reports r1 = lr_reports r"
      unfolding start using False by auto
    then show ?thesis using False k(1) by auto
  qed
qed

lemma at_pos_start:
  "ok f \<Longrightarrow> at_pos ok rest 32768 (rest f) (Reader_new f reporter checksum 0)"
  by (simp add: at_pos_def Reader_new_def)

end

lemma log_enc_start: "log_enc 0 start d = log_enc 32768 start d"
  by (subst (1 2) log_enc.simps) (simp add: block_start_def trailer_def)

lemma log_all_start: "log_all 0 ds = log_all 32768 ds"
  by (cases ds) (simp_all add: log_enc_start)

section \<open>Reading always ends\<close>

definition bytes_left :: "('s \<Rightarrow> bytes) \<Rightarrow> 's log_reader \<Rightarrow> nat" where
  "bytes_left rest r = length (lr_buffer r) + length (rest (lr_file r))"

lemma report_keeps [simp]:
  "lr_file (ReportDrop n st r) = lr_file r" "lr_buffer (ReportDrop n st r) = lr_buffer r"
  "lr_file (ReportCorruption n msg r) = lr_file r" "lr_buffer (ReportCorruption n msg r) = lr_buffer r"
  by (simp_all add: ReportDrop_def ReportCorruption_def)

lemma parse_progress:
  assumes "7 \<le> length (lr_buffer r)" "parse_record frag r = (t, frag', r')"
  shows "lr_file r' = lr_file r \<and> length (lr_buffer r') < length (lr_buffer r)"
  using assms by (auto simp: parse_record_def Let_def kHeaderSize_def split: if_splits)

lemma rr_turn_keeps:
  "rr_turn t q = (x, q') \<Longrightarrow> lr_file (rr_reader q') = lr_file (rr_reader q) \<and> lr_buffer (rr_reader q') = lr_buffer (rr_reader q) \<and>
     (t = kEof \<longrightarrow> x \<noteq> None)"
  by (auto simp: rr_turn_def rr_switch_def drop_partial_def Let_def kEof_def kBadRecord_def split: if_splits)

context reliable_sequential
begin

lemma physical_progress_here:
  assumes "ok (lr_file r)" "lr_eof r \<or> 7 \<le> length (lr_buffer r)"
  shows "\<exists>t frag' r'. ReadPhysicalRecord S frag r = Inr (t, frag', r') \<and> ok (lr_file r') \<and>
     (t = kEof \<or> bytes_left rest r' < bytes_left rest r)"
proof (cases "7 \<le> length (lr_buffer r)")
  case True
  obtain t frag' r' where p: "parse_record frag r = (t, frag', r')" by (metis prod_cases3)
  show ?thesis
    using parse_progress [OF True p] True p assms(1) by (subst ReadPhysicalRecord.simps) (auto simp: kHeaderSize_def bytes_left_def)
next
  case False
  then show ?thesis using assms by (subst ReadPhysicalRecord.simps) (auto simp: kHeaderSize_def)
qed

lemma physical_progress:
  assumes "ok (lr_file r)"
  shows "\<exists>t frag' r'. ReadPhysicalRecord S frag r = Inr (t, frag', r') \<and> ok (lr_file r') \<and>
     (t = kEof \<or> bytes_left rest r' < bytes_left rest r)"
proof (cases "lr_eof r \<or> 7 \<le> length (lr_buffer r)")
  case False
  obtain f where f: "sf_Read S 32768 (lr_file r) = Inr (OK, take 32768 (rest (lr_file r)), f)" "ok f"
      "rest f = drop 32768 (rest (lr_file r))"
    using read_ok [OF assms] by blast
  let ?d = "take 32768 (rest (lr_file r))"
  let ?r1 = "r\<lparr>lr_file := f, lr_buffer := ?d, lr_end_of_buffer_offset := lr_end_of_buffer_offset r + of_nat (length ?d)\<rparr>"
  let ?r2 = "if length ?d < 32768 then ?r1\<lparr>lr_eof := True\<rparr> else ?r1"
  have eq: "ReadPhysicalRecord S frag r = ReadPhysicalRecord S frag ?r2"
    using False unfolding ReadPhysicalRecord.simps [of S frag r] kHeaderSize_def log_kBlockSize_def f(1) bind_res.simps split Let_def
    by simp
  have "ok (lr_file ?r2)" "lr_eof ?r2 \<or> 7 \<le> length (lr_buffer ?r2)" "bytes_left rest ?r2 \<le> bytes_left rest r"
    using f by (auto simp: bytes_left_def)
  with physical_progress_here [of ?r2 frag] show ?thesis unfolding eq by fastforce
qed (use physical_progress_here assms in blast)

lemma rr_loop_ends:
  "ok (lr_file (rr_reader q)) \<Longrightarrow> \<exists>b d r'. rr_loop S q = Some (Inr (b, d, r')) \<and> ok (lr_file r')"
proof (induction "bytes_left rest (rr_reader q)" arbitrary: q rule: less_induct)
  case less
  obtain t frag r where r: "ReadPhysicalRecord S (rr_fragment q) (rr_reader q) = Inr (t, frag, r)" "ok (lr_file r)"
      "t = kEof \<or> bytes_left rest r < bytes_left rest (rr_reader q)"
    using physical_progress [OF less.prems] by blast
  obtain x q' where x: "rr_turn t (q\<lparr>rr_reader := r, rr_fragment := frag\<rparr>) = (x, q')" by fastforce
  note k = rr_turn_keeps [OF x]
  have loop: "rr_loop S q = (case x of Some ret \<Rightarrow> Some (Inr (fst ret, snd ret, rr_reader q')) | None \<Rightarrow> rr_loop S q')"
    using r(1) x by (subst rr_loop.simps) (simp add: rr_next_def split: option.split)
  show ?case
  proof (cases x)
    case None
    then have "bytes_left rest (rr_reader q') < bytes_left rest (rr_reader q)" using r(3) k by (auto simp: bytes_left_def)
    then show ?thesis using less.hyps [of q'] k r(2) None loop by simp
  next
    case (Some ret)
    then show ?thesis using loop k r(2) by simp
  qed
qed

lemma ReadRecord_ends:
  assumes "ok (lr_file r)"
  shows "\<exists>b d r'. ReadRecord S r = Some (Inr (b, d, r')) \<and> ok (lr_file r')"
proof (cases "lr_last_record_offset r < lr_initial_offset r")
  case True
  obtain b r1 where "SkipToInitialBlock S r = Inr (b, r1)" "ok (lr_file r1)"
  proof -
    define n where "n = (let k = unat (lr_initial_offset r) mod log_kBlockSize; start = lr_initial_offset r - of_nat k
      in if log_kBlockSize - 6 < k then start + of_nat log_kBlockSize else start)"
    obtain f where "sf_Skip S (unat n) (lr_file r) = Inr (OK, f)" "ok f" using skip_ok [OF assms] by blast
    then show thesis
      using that assms unfolding SkipToInitialBlock_def Let_def n_def [unfolded Let_def, symmetric] by (cases "0 < n") auto
  qed
  then show ?thesis
    using rr_loop_ends [of "\<lparr>rr_reader = r1, rr_fragment = [], rr_in_fragmented = False, rr_scratch = [], rr_prospective = 0\<rparr>"] True
    by (cases b) (auto simp: ReadRecord_def)
next
  case False
  then show ?thesis
    using rr_loop_ends [of "\<lparr>rr_reader = r, rr_fragment = [], rr_in_fragmented = False, rr_scratch = [], rr_prospective = 0\<rparr>"] assms
    by (simp add: ReadRecord_def)
qed

end

section \<open>Properties\<close>

text \<open>
  C4. The log survives a crash: writing records to a log in a new file succeeds, and a reader of any
  prefix of that file returns exactly the records that lie wholly in it, in their order, then the end, and
  reports nothing as corrupt; from the whole file all of them are read.
\<close>

theorem log_prefix_roundtrip:
  assumes "file_ok f" "file_contents f = []"
  shows "\<exists>w. add_records (WritableFileImpl junk) ds (Writer_new f) = Inr (OK, w) \<and>
    (\<forall>s n. seq_ok s \<longrightarrow> seq_rest s = take n (file_contents (lw_dest w)) \<longrightarrow>
      (\<exists>k r'. read_log SequentialFileImpl (Suc (length ds)) (Reader_new s reporter checksum 0) = Some (take k ds, r') \<and>
         lr_reports r' = [] \<and>
         (\<forall>i < length ds. i < k \<longleftrightarrow>
           (\<exists>w'. add_records (WritableFileImpl junk) (take (Suc i) ds) (Writer_new f) = Inr (OK, w') \<and>
                 length (file_contents (lw_dest w')) \<le> n))))"
proof -
  have wr: "\<exists>w. add_records (WritableFileImpl junk) xs (Writer_new f) = Inr (OK, w) \<and> file_contents (lw_dest w) = log_all 32768 xs" for xs
    using mem_writable.add_records_ok [of "Writer_new f" junk xs] assms by (auto simp: Writer_new_def log_all_start)
  have "\<exists>k r'. read_log SequentialFileImpl (Suc (length ds)) (Reader_new s reporter checksum 0) = Some (take k ds, r') \<and>
      lr_reports r' = [] \<and> (\<forall>i < length ds. i < k \<longleftrightarrow> length (log_all 32768 (take (Suc i) ds)) \<le> n)"
    if s: "seq_ok s" "seq_rest s = take n (log_all 32768 ds)" for s n
  proof -
    have "at_pos seq_ok seq_rest 32768 (take n (log_all 32768 ds)) (Reader_new s reporter checksum 0)"
      using mem_sequential.at_pos_start [OF s(1)] by (simp add: s(2))
    from mem_sequential.read_log_prefix [OF this, of "Suc (length ds)"] show ?thesis
      using whole_iff by (intro exI [of _ "whole 32768 n ds"]) (auto simp: Reader_new_def)
  qed
  moreover have "length (log_all 32768 xs) \<le> n \<longleftrightarrow>
      (\<exists>w'. add_records (WritableFileImpl junk) xs (Writer_new f) = Inr (OK, w') \<and> length (file_contents (lw_dest w')) \<le> n)" for xs n
    using wr [of xs] by auto
  ultimately show ?thesis using wr [of ds] by (auto simp only:)
qed

theorem log_prefix_roundtrip_witness:
  "\<exists>w r'. add_records (WritableFileImpl 0) [[1], [2, 3]] (Writer_new FileState_new) = Inr (OK, w) \<and>
    read_log SequentialFileImpl 3 (Reader_new \<lparr>sq_file = lw_dest w, sq_pos = 0\<rparr> True True 0) = Some ([[1], [2, 3]], r')"
proof -
  have f: "file_ok FileState_new" "file_contents FileState_new = []"
    by (simp_all add: file_ok_def file_contents_def FileState_new_def mem_kBlockSize_def)
  let ?ds = "[[1], [2, 3]] :: bytes list"
  obtain w where w: "add_records (WritableFileImpl 0) ?ds (Writer_new FileState_new) = Inr (OK, w)"
    and rd: "\<forall>s n. seq_ok s \<longrightarrow> seq_rest s = take n (file_contents (lw_dest w)) \<longrightarrow>
      (\<exists>k r'. read_log SequentialFileImpl (Suc (length ?ds)) (Reader_new s True True 0) = Some (take k ?ds, r') \<and> lr_reports r' = [] \<and>
         (\<forall>i < length ?ds. i < k \<longleftrightarrow> (\<exists>w'. add_records (WritableFileImpl 0) (take (Suc i) ?ds) (Writer_new FileState_new) = Inr (OK, w') \<and>
                 length (file_contents (lw_dest w')) \<le> n)))"
    using log_prefix_roundtrip [OF f, of 0 ?ds True True] by (elim exE conjE)
  have "file_ok (lw_dest w)"
    using mem_writable.add_records_ok [of "Writer_new FileState_new" 0 ?ds] f w
    by (auto simp: Writer_new_def [of FileState_new] simp del: add_records.simps log_all.simps)
  then have "seq_ok \<lparr>sq_file = lw_dest w, sq_pos = 0\<rparr>" by (simp add: seq_ok_def)
  from rd [rule_format, OF this, of "length (file_contents (lw_dest w))"] obtain k r'
    where r: "read_log SequentialFileImpl (Suc (length ?ds)) (Reader_new \<lparr>sq_file = lw_dest w, sq_pos = 0\<rparr> True True 0) = Some (take k ?ds, r')"
      and k: "\<forall>i < length ?ds. i < k \<longleftrightarrow> (\<exists>w'. add_records (WritableFileImpl 0) (take (Suc i) ?ds) (Writer_new FileState_new) = Inr (OK, w') \<and>
                 length (file_contents (lw_dest w')) \<le> length (file_contents (lw_dest w)))"
    by (auto simp: seq_rest_def simp del: read_log.simps add_records.simps)
  have "1 < k" using k [rule_format, of 1] w by (simp del: add_records.simps)
  then have "take k ?ds = ?ds" by simp
  moreover have "Suc (length ?ds) = 3" by simp
  ultimately show ?thesis using w r by (metis (no_types))
qed



end
