(* ===== verification/Ldb_Memenv.thy ===== *)
theory Ldb_Memenv
  imports Ldb_Memfile Ldb_Comparator "HOL-Library.Multiset"
begin

text \<open>
  The environment in memory: class InMemoryEnv of db/leveldb/helpers/memenv/memenv.cc. Files are
  objects with a reference count in a heap; the map of names holds pointers, of which a null pointer is
  \<open>None\<close>. An object that was deleted is no longer in the heap, and using it is an error.
\<close>

section \<open>State\<close>

text \<open>The container \<open>std::map\<close>: an association list in the order of its keys.\<close>

type_synonym file_map = "(bytes \<times> nat option) list"

fun fm_put :: "bytes \<Rightarrow> nat option \<Rightarrow> file_map \<Rightarrow> file_map" where
  "fm_put k v [] = [(k, v)]"
| "fm_put k v ((k', v') # m) =
     (if k = k' then (k, v) # m else if k < k' then (k, v) # (k', v') # m else (k', v') # fm_put k v m)"

definition fm_erase :: "bytes \<Rightarrow> file_map \<Rightarrow> file_map" where
  "fm_erase k m = filter (\<lambda>(k', v). k' \<noteq> k) m"

definition fm_at :: "bytes \<Rightarrow> file_map \<Rightarrow> nat option \<times> file_map" where
  "fm_at k m = (case map_of m k of Some v \<Rightarrow> (v, m) | None \<Rightarrow> (None, fm_put k None m))"

record mem_env =
  me_heap :: "nat \<Rightarrow> file_state option"
  me_next :: nat
  me_map :: file_map

definition NewMemEnv :: mem_env where
  "NewMemEnv = \<lparr>me_heap = (\<lambda>_. None), me_next = 0, me_map = []\<rparr>"

definition fetch :: "mem_env \<Rightarrow> nat option \<Rightarrow> mem_error + (nat \<times> file_state)" where
  "fetch e p = (case p of None \<Rightarrow> Inl NullDeref
     | Some i \<Rightarrow> (case me_heap e i of None \<Rightarrow> Inl UseAfterFree | Some f \<Rightarrow> Inr (i, f)))"

section \<open>Reference counts\<close>

definition Ref :: "nat option \<Rightarrow> mem_env \<Rightarrow> mem_error + mem_env" where
  "Ref p e = bind_res (fetch e p) (\<lambda>(i, f).
     Inr (e\<lparr>me_heap := (me_heap e)(i \<mapsto> f\<lparr>fs_refs := fs_refs f + 1\<rparr>)\<rparr>))"

definition Unref :: "nat option \<Rightarrow> mem_env \<Rightarrow> mem_error + mem_env" where
  "Unref p e = bind_res (fetch e p) (\<lambda>(i, f).
     (let refs = fs_refs f - 1 in
      Inr (e\<lparr>me_heap := (if refs \<le> 0 then (me_heap e)(i := None)
                          else (me_heap e)(i \<mapsto> f\<lparr>fs_refs := refs\<rparr>))\<rparr>)))"

definition new_FileState :: "mem_env \<Rightarrow> nat \<times> mem_env" where
  "new_FileState e = (me_next e, e\<lparr>me_heap := (me_heap e)(me_next e \<mapsto> FileState_new), me_next := me_next e + 1\<rparr>)"

section \<open>Operations of the environment\<close>

text \<open>An operation that opens a file returns the pointer that the new file object holds.\<close>

definition not_found :: "bytes \<Rightarrow> status" where "not_found fname = IOError fname (str ''File not found'')"

definition NewSequentialFile :: "bytes \<Rightarrow> mem_env \<Rightarrow> mem_error + (status \<times> nat option \<times> mem_env)" where
  "NewSequentialFile fname e =
     (case map_of (me_map e) fname of None \<Rightarrow> Inr (not_found fname, None, e)
      | Some p \<Rightarrow> bind_res (Ref p e) (\<lambda>e'. Inr (OK, p, e')))"

definition NewRandomAccessFile :: "bytes \<Rightarrow> mem_env \<Rightarrow> mem_error + (status \<times> nat option \<times> mem_env)" where
  "NewRandomAccessFile fname e =
     (case map_of (me_map e) fname of None \<Rightarrow> Inr (not_found fname, None, e)
      | Some p \<Rightarrow> bind_res (Ref p e) (\<lambda>e'. Inr (OK, p, e')))"

definition DeleteFileInternal :: "bytes \<Rightarrow> mem_env \<Rightarrow> mem_error + mem_env" where
  "DeleteFileInternal fname e =
     (case map_of (me_map e) fname of None \<Rightarrow> Inr e
      | Some p \<Rightarrow> bind_res (Unref p e) (\<lambda>e'. Inr (e'\<lparr>me_map := fm_erase fname (me_map e')\<rparr>)))"

definition NewWritableFile :: "bytes \<Rightarrow> mem_env \<Rightarrow> mem_error + (status \<times> nat option \<times> mem_env)" where
  "NewWritableFile fname e =
     bind_res (DeleteFileInternal fname e) (\<lambda>e1.
     (let (i, e2) = new_FileState e1 in
      bind_res (Ref (Some i) e2) (\<lambda>e3.
      bind_res (Ref (Some i) (e3\<lparr>me_map := fm_put fname (Some i) (me_map e3)\<rparr>)) (\<lambda>e4. Inr (OK, Some i, e4)))))"

definition NewAppendableFile :: "bytes \<Rightarrow> mem_env \<Rightarrow> mem_error + (status \<times> nat option \<times> mem_env)" where
  "NewAppendableFile fname e =
     (let (file, m) = fm_at fname (me_map e); e1 = e\<lparr>me_map := m\<rparr> in
      bind_res (case file of Some i \<Rightarrow> Inr (i, e1)
                | None \<Rightarrow> (let (i, e2) = new_FileState e1 in bind_res (Ref (Some i) e2) (\<lambda>e3. Inr (i, e3)))) (\<lambda>(i, e3).
      bind_res (Ref (Some i) e3) (\<lambda>e4. Inr (OK, Some i, e4))))"

definition FileExists :: "bytes \<Rightarrow> mem_env \<Rightarrow> bool" where
  "FileExists fname e \<longleftrightarrow> map_of (me_map e) fname \<noteq> None"

definition GetChildren :: "bytes \<Rightarrow> mem_env \<Rightarrow> bytes list" where
  "GetChildren dir e =
     map (\<lambda>(filename, _). drop (length dir + 1) filename)
       (filter (\<lambda>(filename, _). length dir + 1 \<le> length filename \<and> filename ! length dir = of_char CHR ''/'' \<and>
          starts_with filename dir) (me_map e))"

definition DeleteFile :: "bytes \<Rightarrow> mem_env \<Rightarrow> mem_error + (status \<times> mem_env)" where
  "DeleteFile fname e =
     (if map_of (me_map e) fname = None then Inr (not_found fname, e)
      else bind_res (DeleteFileInternal fname e) (\<lambda>e'. Inr (OK, e')))"

definition GetFileSize :: "bytes \<Rightarrow> mem_env \<Rightarrow> mem_error + (status \<times> nat)" where
  "GetFileSize fname e =
     (case map_of (me_map e) fname of None \<Rightarrow> Inr (not_found fname, 0)
      | Some p \<Rightarrow> bind_res (fetch e p) (\<lambda>(i, f). Inr (OK, fs_size f)))"

definition RenameFile :: "bytes \<Rightarrow> bytes \<Rightarrow> mem_env \<Rightarrow> mem_error + (status \<times> mem_env)" where
  "RenameFile src target e =
     (if map_of (me_map e) src = None then Inr (not_found src, e)
      else bind_res (DeleteFileInternal target e) (\<lambda>e1.
        (let (v, m) = fm_at src (me_map e1)
         in Inr (OK, e1\<lparr>me_map := fm_erase src (fm_put target v m)\<rparr>))))"

text \<open>The operations of an open file, by the pointer its object holds; closing one deletes the object.\<close>

definition file_append :: "byte \<Rightarrow> nat \<Rightarrow> bytes \<Rightarrow> mem_env \<Rightarrow> mem_error + (status \<times> mem_env)" where
  "file_append junk i d e = bind_res (fetch e (Some i)) (\<lambda>(i, f).
     bind_res (FileState_Append junk d f) (\<lambda>(s, f'). Inr (s, e\<lparr>me_heap := (me_heap e)(i \<mapsto> f')\<rparr>)))"

definition file_read :: "nat \<Rightarrow> nat \<Rightarrow> nat \<Rightarrow> mem_env \<Rightarrow> mem_error + (status \<times> bytes)" where
  "file_read i offset n e = bind_res (fetch e (Some i)) (\<lambda>(i, f). FileState_Read offset n f)"

definition file_close :: "nat \<Rightarrow> mem_env \<Rightarrow> mem_error + mem_env" where
  "file_close i e = Unref (Some i) e"

section \<open>Runs\<close>

text \<open>An environment and the pointers of the file objects that are open.\<close>

inductive env_step :: "mem_env \<times> nat list \<Rightarrow> mem_env \<times> nat list \<Rightarrow> bool" where
  step_seq: "NewSequentialFile n e = Inr (s, p, e') \<Longrightarrow> env_step (e, hs) (e', case p of Some i \<Rightarrow> i # hs | None \<Rightarrow> hs)"
| step_rand: "NewRandomAccessFile n e = Inr (s, p, e') \<Longrightarrow> env_step (e, hs) (e', case p of Some i \<Rightarrow> i # hs | None \<Rightarrow> hs)"
| step_wr: "NewWritableFile n e = Inr (s, p, e') \<Longrightarrow> env_step (e, hs) (e', case p of Some i \<Rightarrow> i # hs | None \<Rightarrow> hs)"
| step_app: "NewAppendableFile n e = Inr (s, p, e') \<Longrightarrow> env_step (e, hs) (e', case p of Some i \<Rightarrow> i # hs | None \<Rightarrow> hs)"
| step_del: "DeleteFile n e = Inr (s, e') \<Longrightarrow> env_step (e, hs) (e', hs)"
| step_ren: "RenameFile a b e = Inr (s, e') \<Longrightarrow> env_step (e, hs) (e', hs)"
| step_write: "i \<in> set hs \<Longrightarrow> file_append junk i d e = Inr (s, e') \<Longrightarrow> env_step (e, hs) (e', hs)"
| step_close: "i \<in> set hs \<Longrightarrow> file_close i e = Inr e' \<Longrightarrow> env_step (e, hs) (e', remove1 i hs)"

section \<open>No file is used after it was deleted\<close>

definition held :: "file_map \<Rightarrow> nat list \<Rightarrow> nat \<Rightarrow> nat" where
  "held m hs i = count_list hs i + count_list (map snd m) (Some i)"

definition heap_ok :: "mem_env \<Rightarrow> (nat \<Rightarrow> nat) \<Rightarrow> bool" where
  "heap_ok e M \<longleftrightarrow> (\<forall>i. 0 < M i \<longrightarrow> (\<exists>f. me_heap e i = Some f \<and> int (M i) \<le> fs_refs f)) \<and>
     (\<forall>i f. me_heap e i = Some f \<longrightarrow> i < me_next e \<and> file_ok f)"

definition env_ok :: "mem_env \<times> nat list \<Rightarrow> bool" where
  "env_ok = (\<lambda>(e, hs). distinct (map fst (me_map e)) \<and> heap_ok e (held (me_map e) hs))"

lemma heap_okD: "heap_ok e M \<Longrightarrow> 0 < M i \<Longrightarrow> \<exists>f. me_heap e i = Some f \<and> int (M i) \<le> fs_refs f \<and> file_ok f"
  unfolding heap_ok_def by blast

lemma Ref_ok:
  assumes "heap_ok e M" "me_heap e i = Some f" "int (M i) \<le> fs_refs f"
  shows "\<exists>e'. Ref (Some i) e = Inr e' \<and> heap_ok e' (M(i := Suc (M i))) \<and> me_map e' = me_map e \<and> me_next e' = me_next e"
  using assms by (auto simp: Ref_def fetch_def heap_ok_def file_ok_def)

lemma Ref_held:
  assumes "heap_ok e M" "0 < M i"
  shows "\<exists>e'. Ref (Some i) e = Inr e' \<and> heap_ok e' (M(i := Suc (M i))) \<and> me_map e' = me_map e \<and> me_next e' = me_next e"
proof -
  obtain f where "me_heap e i = Some f" "int (M i) \<le> fs_refs f" using heap_okD [OF assms] by blast
  then show ?thesis by (rule Ref_ok [OF assms(1)])
qed

lemma Unref_held:
  assumes "heap_ok e M" "0 < M i"
  shows "\<exists>e'. Unref (Some i) e = Inr e' \<and> heap_ok e' (M(i := M i - 1)) \<and> me_map e' = me_map e \<and> me_next e' = me_next e"
proof -
  obtain f where f: "me_heap e i = Some f" "int (M i) \<le> fs_refs f" using heap_okD [OF assms] by blast
  show ?thesis
  proof (cases "fs_refs f - 1 \<le> 0")
    case True
    then have "M i - 1 = 0" using f(2) by simp
    then show ?thesis using assms f True by (auto simp: Unref_def fetch_def heap_ok_def Let_def)
  next
    case False
    then show ?thesis using assms f by (auto simp: Unref_def fetch_def heap_ok_def Let_def file_ok_def)
  qed
qed

lemma new_ok:
  assumes "heap_ok e M"
  shows "\<exists>e'. Ref (Some (fst (new_FileState e))) (snd (new_FileState e)) = Inr e' \<and> heap_ok e' (M(me_next e := 1)) \<and>
    M (me_next e) = 0 \<and> me_map e' = me_map e"
proof -
  have z: "M (me_next e) = 0" using assms by (fastforce simp: heap_ok_def)
  moreover have "heap_ok (snd (new_FileState e)) M"
    using assms z by (fastforce simp: heap_ok_def new_FileState_def FileState_new_def file_ok_def mem_kBlockSize_def)
  ultimately show ?thesis
    using Ref_ok [of "snd (new_FileState e)" M "me_next e" FileState_new] by (auto simp: new_FileState_def FileState_new_def)
qed

text \<open>What the map of names holds.\<close>

lemma fm_put_absent: "map_of m k = None \<Longrightarrow> mset (fm_put k v m) = add_mset (k, v) (mset m)"
  by (induction m) (auto split: if_splits)

lemma mset_map_fst: "mset m' = add_mset (k, v) (mset m) \<Longrightarrow> mset (map fst m') = add_mset k (mset (map fst m))"
  by (metis fst_conv image_mset_add_mset mset_map)

lemma put_absent:
  assumes "map_of m k = None" "distinct (map fst m)"
  shows "distinct (map fst (fm_put k v m))" "held (fm_put k v m) hs i = held m hs i + (if v = Some i then 1 else 0)"
proof -
  note * = fm_put_absent [OF assms(1), of v]
  have "mset (map fst (fm_put k v m)) = mset (k # map fst m)" using mset_map_fst [OF *] by simp
  then show "distinct (map fst (fm_put k v m))"
    using assms by (metis distinct.simps(2) map_of_eq_None_iff mset_eq_imp_distinct_iff set_map)
  have "mset (map snd (fm_put k v m)) = mset (v # map snd m)" using * by (simp add: mset_map [symmetric] del: mset_map) (simp add: *)
  then have "count_list (map snd (fm_put k v m)) (Some i) = count_list (v # map snd m) (Some i)"
    by (metis count_mset)
  then show "held (fm_put k v m) hs i = held m hs i + (if v = Some i then 1 else 0)" by (auto simp: held_def)
qed

lemma erase_distinct: "distinct (map fst m) \<Longrightarrow> distinct (map fst (fm_erase k m))"
  by (simp add: fm_erase_def distinct_map_filter)

lemma map_of_erase: "map_of (fm_erase k m) x = (if x = k then None else map_of m x)"
  by (induction m) (auto simp: fm_erase_def)

lemma erase_held:
  "distinct (map fst m) \<Longrightarrow> map_of m k = Some p \<Longrightarrow>
   count_list (map snd m) x = count_list (map snd (fm_erase k m)) x + (if p = x then 1 else 0)"
proof (induction m)
  case (Cons a m)
  have "k \<notin> fst ` set m \<Longrightarrow> fm_erase k m = m" for m :: file_map
    by (induction m) (auto simp: fm_erase_def)
  with Cons show ?case by (cases a) (auto simp: fm_erase_def split: if_splits)
qed simp

text \<open>
  Every operation either meets a null pointer in the map or succeeds and keeps the counts; the
  operations of open files always succeed.
\<close>

lemma held_Cons [simp]: "held m (i # hs) = (held m hs)(i := Suc (held m hs i))"
  by (auto simp: held_def)

lemma held_map: "map_of m k = Some (Some i) \<Longrightarrow> 0 < held m hs i"
proof -
  assume "map_of m k = Some (Some i)"
  then have "Some i \<in> set (map snd m)" by (force dest: map_of_SomeD)
  then have "count_list (map snd m) (Some i) \<noteq> 0" by (simp only: count_list_0_iff not_not)
  then show ?thesis by (simp add: held_def)
qed

lemma held_open: "i \<in> set hs \<Longrightarrow> 0 < held m hs i"
proof -
  assume "i \<in> set hs"
  then have "count_list hs i \<noteq> 0" by (simp only: count_list_0_iff not_not)
  then show ?thesis by (simp add: held_def)
qed

lemma open_ok:
  assumes "env_ok (e, hs)" "map_of (me_map e) n = Some (Some i)"
  shows "\<exists>e'. Ref (Some i) e = Inr e' \<and> env_ok (e', i # hs)"
  using assms Ref_held [of e "held (me_map e) hs" i] held_map [OF assms(2), of hs] by (auto simp: env_ok_def)

lemma NewSequentialFile_ok:
  assumes "env_ok (e, hs)"
  shows "NewSequentialFile n e = Inl NullDeref \<or>
    (\<exists>s p e'. NewSequentialFile n e = Inr (s, p, e') \<and> env_ok (e', case p of Some i \<Rightarrow> i # hs | None \<Rightarrow> hs))"
proof (cases "map_of (me_map e) n")
  case (Some p)
  then show ?thesis using open_ok [OF assms] by (cases p) (auto simp: NewSequentialFile_def Ref_def fetch_def)
qed (use assms in \<open>auto simp: NewSequentialFile_def\<close>)

lemma NewRandomAccessFile_eq: "NewRandomAccessFile = NewSequentialFile"
  by (intro ext) (simp add: NewRandomAccessFile_def NewSequentialFile_def)

lemma DeleteFileInternal_ok:
  assumes "env_ok (e, hs)"
  shows "map_of (me_map e) n = Some None \<and> DeleteFileInternal n e = Inl NullDeref \<or>
    (\<exists>e'. DeleteFileInternal n e = Inr e' \<and> env_ok (e', hs) \<and> me_map e' = fm_erase n (me_map e))"
proof (cases "map_of (me_map e) n")
  case None
  then have "fm_erase n (me_map e) = me_map e"
    by (force simp: fm_erase_def map_of_eq_None_iff intro!: filter_True)
  then show ?thesis using assms None by (simp add: DeleteFileInternal_def)
next
  case (Some p)
  show ?thesis
  proof (cases p)
    case None
    then show ?thesis using Some by (simp add: DeleteFileInternal_def Unref_def fetch_def)
  next
    case (Some i)
    then have m: "map_of (me_map e) n = Some (Some i)" using \<open>map_of (me_map e) n = Some p\<close> by simp
    obtain e' where e': "Unref (Some i) e = Inr e'" "heap_ok e' ((held (me_map e) hs)(i := held (me_map e) hs i - 1))" "me_map e' = me_map e"
      using Unref_held [of e "held (me_map e) hs" i] held_map [OF m, of hs] assms by (auto simp: env_ok_def)
    have "(held (me_map e) hs)(i := held (me_map e) hs i - 1) = held (fm_erase n (me_map e)) hs"
    proof
      fix j
      show "((held (me_map e) hs)(i := held (me_map e) hs i - 1)) j = held (fm_erase n (me_map e)) hs j"
        using erase_held [OF _ m, of "Some j"] assms by (auto simp: env_ok_def held_def)
    qed
    then have "env_ok (e'\<lparr>me_map := fm_erase n (me_map e)\<rparr>, hs)"
      using e'(2,3) assms erase_distinct by (simp add: env_ok_def heap_ok_def)
    then show ?thesis using m e' by (simp add: DeleteFileInternal_def)
  qed
qed

lemma heap_ok_mono: "heap_ok e M \<Longrightarrow> (\<And>i. M' i \<le> M i) \<Longrightarrow> heap_ok e M'"
proof -
  assume ok: "heap_ok e M" and le: "\<And>i. M' i \<le> M i"
  have "\<exists>f. me_heap e i = Some f \<and> int (M' i) \<le> fs_refs f" if "0 < M' i" for i
    using heap_okD [OF ok, of i] le [of i] that by force
  then show ?thesis using ok by (simp add: heap_ok_def)
qed

lemma heap_ok_map [simp]: "heap_ok (e\<lparr>me_map := m\<rparr>) M = heap_ok e M"
  by (simp add: heap_ok_def)

lemma Ref_keeps:
  "Ref p e = Inr e' \<Longrightarrow> me_heap e i = Some f \<Longrightarrow> \<exists>f'. me_heap e' i = Some f' \<and> file_contents f' = file_contents f"
  by (auto simp: Ref_def fetch_def file_contents_def split: option.splits)

lemma map_of_put: "map_of (fm_put k v m) x = (if x = k then Some v else map_of m x)"
  by (induction m) auto

lemma erase_put: "fm_erase k (fm_put k v m) = fm_erase k m"
  by (induction m) (auto simp: fm_erase_def)

lemma NewWritableFile_ok:
  assumes "env_ok (e, hs)"
  shows "map_of (me_map e) n = Some None \<and> NewWritableFile n e = Inl NullDeref \<or>
    (\<exists>i e' f. NewWritableFile n e = Inr (OK, Some i, e') \<and> env_ok (e', i # hs) \<and> map_of (me_map e') n = Some (Some i) \<and>
       me_heap e' i = Some f \<and> file_contents f = [] \<and>
       (\<forall>k. k \<noteq> n \<longrightarrow> map_of (me_map e') k = map_of (me_map e) k))"
proof (cases "DeleteFileInternal n e")
  case (Inl err)
  then show ?thesis using DeleteFileInternal_ok [OF assms, of n] by (simp add: NewWritableFile_def)
next
  case (Inr e1)
  have e1: "distinct (map fst (me_map e1))" "heap_ok e1 (held (me_map e1) hs)" "map_of (me_map e1) n = None"
    and er: "me_map e1 = fm_erase n (me_map e)"
    using DeleteFileInternal_ok [OF assms, of n] Inr by (auto simp: env_ok_def map_of_erase)
  let ?i = "me_next e1" and ?M = "held (me_map e1) hs"
  obtain e3 where e3: "Ref (Some ?i) (snd (new_FileState e1)) = Inr e3" "heap_ok e3 (?M(?i := 1))" "?M ?i = 0" "me_map e3 = me_map e1"
    using new_ok [OF e1(2)] by (auto simp: new_FileState_def)
  let ?e = "e3\<lparr>me_map := fm_put n (Some ?i) (me_map e3)\<rparr>"
  have M: "held (fm_put n (Some ?i) (me_map e1)) hs = ?M(?i := 1)"
    using put_absent(2) [OF e1(3,1), of "Some ?i" hs] e3(3) by (intro ext) simp
  obtain e4 where e4: "Ref (Some ?i) ?e = Inr e4" "heap_ok e4 (?M(?i := 2))" "me_map e4 = me_map ?e"
    using Ref_held [of ?e "?M(?i := 1)" ?i] e3(2) by (auto simp: numeral_2_eq_2)
  have "env_ok (e4, ?i # hs)"
    using e4 e3(4) M put_absent(1) [OF e1(3,1)] by (simp add: env_ok_def numeral_2_eq_2)
  moreover have "NewWritableFile n e = Inr (OK, Some ?i, e4)"
    using Inr e3(1) e4(1) by (simp add: NewWritableFile_def new_FileState_def)
  moreover obtain f3 where f3: "me_heap e3 ?i = Some f3" "file_contents f3 = []"
    using Ref_keeps [OF e3(1), of ?i FileState_new] by (auto simp: new_FileState_def FileState_new_def file_contents_def)
  then obtain f4 where "me_heap e4 ?i = Some f4" "file_contents f4 = []"
    using Ref_keeps [OF e4(1), of ?i f3] by auto
  ultimately show ?thesis using e4(3) e3(4) er by (auto simp: map_of_put map_of_erase)
qed

lemma unnamed_file_ok:
  assumes "env_ok (e, hs)"
  shows "\<exists>e3 e4. Ref (Some (me_next e)) (snd (new_FileState e)) = Inr e3 \<and> Ref (Some (me_next e)) e3 = Inr e4 \<and>
    env_ok (e4, me_next e # hs) \<and> me_map e4 = me_map e"
proof -
  let ?i = "me_next e" and ?M = "held (me_map e) hs"
  obtain e3 where e3: "Ref (Some ?i) (snd (new_FileState e)) = Inr e3" "heap_ok e3 (?M(?i := 1))" "?M ?i = 0" "me_map e3 = me_map e"
    using new_ok [of e ?M] assms by (auto simp: new_FileState_def env_ok_def)
  obtain e4 where e4: "Ref (Some ?i) e3 = Inr e4" "heap_ok e4 (?M(?i := 2))" "me_map e4 = me_map e3"
    using Ref_held [of e3 "?M(?i := 1)" ?i] e3(2) by (auto simp: numeral_2_eq_2)
  have "heap_ok e4 (held (me_map e) (?i # hs))" by (rule heap_ok_mono [OF e4(2)]) (simp add: e3(3))
  then have "env_ok (e4, ?i # hs)" using assms e3(4) e4(3) by (simp add: env_ok_def)
  then show ?thesis using e3 e4 by auto
qed

lemma NewAppendableFile_ok:
  assumes "env_ok (e, hs)"
  shows "\<exists>i e'. NewAppendableFile n e = Inr (OK, Some i, e') \<and> env_ok (e', i # hs)"
proof (cases "fst (fm_at n (me_map e))")
  case None
  let ?e = "e\<lparr>me_map := snd (fm_at n (me_map e))\<rparr>"
  have "env_ok (?e, hs)"
  proof (cases "map_of (me_map e) n")
    case None
    have d: "distinct (map fst (me_map e))" "heap_ok e (held (me_map e) hs)" using assms by (simp_all add: env_ok_def)
    have "held (fm_put n None (me_map e)) hs = held (me_map e) hs"
      using put_absent(2) [OF None d(1), of None hs] by (intro ext) simp
    then show ?thesis using None d put_absent(1) [OF None d(1), of None] by (simp add: env_ok_def fm_at_def)
  qed (use assms in \<open>simp add: env_ok_def fm_at_def\<close>)
  from unnamed_file_ok [OF this] show ?thesis
    using None by (auto simp: NewAppendableFile_def new_FileState_def split: prod.splits)
next
  case (Some i)
  then have "map_of (me_map e) n = Some (Some i)" "fm_at n (me_map e) = (Some i, me_map e)"
    by (auto simp: fm_at_def split: option.splits)
  then show ?thesis using open_ok [OF assms] by (auto simp: NewAppendableFile_def)
qed

lemma RenameFile_ok:
  assumes "env_ok (e, hs)"
  shows "RenameFile a b e = Inl NullDeref \<or> (\<exists>s e'. RenameFile a b e = Inr (s, e') \<and> env_ok (e', hs))"
proof (cases "map_of (me_map e) a = None \<or> (\<exists>x. DeleteFileInternal b e = Inl x)")
  case True
  then show ?thesis using assms DeleteFileInternal_ok [OF assms, of b] by (auto simp: RenameFile_def)
next
  case False
  then obtain e1 where e1: "DeleteFileInternal b e = Inr e1" by (cases "DeleteFileInternal b e") auto
  have ok: "distinct (map fst (me_map e1))" "heap_ok e1 (held (me_map e1) hs)" and b: "me_map e1 = fm_erase b (me_map e)"
    using DeleteFileInternal_ok [OF assms, of b] e1 by (auto simp: env_ok_def)
  let ?m = "me_map e1" and ?v = "fst (fm_at a (me_map e1))"
  let ?m2 = "fm_put b ?v (snd (fm_at a (me_map e1)))"
  have nb: "map_of ?m b = None" by (simp add: b map_of_erase)
  have "held (fm_erase a ?m2) hs = held ?m hs \<and> distinct (map fst (fm_erase a ?m2))"
  proof (cases "map_of ?m a")
    case None
    then have "a = b" using False b by (auto simp: map_of_erase split: if_splits)
    then have "fm_erase a ?m2 = fm_erase a ?m" using None by (simp add: fm_at_def erase_put)
    moreover have "fm_erase a ?m = ?m" using None by (force simp: fm_erase_def map_of_eq_None_iff intro!: filter_True)
    ultimately show ?thesis using ok(1) by simp
  next
    case (Some v)
    then have at: "fm_at a ?m = (v, ?m)" by (simp add: fm_at_def)
    have "a \<noteq> b" using Some nb by auto
    then have "map_of (fm_put b v ?m) a = Some v" using Some by (simp add: map_of_put)
    note er = erase_held [OF put_absent(1) [OF nb ok(1)] this]
    have "held (fm_erase a (fm_put b v ?m)) hs i = held ?m hs i" for i
      using er [of "Some i"] put_absent(2) [OF nb ok(1), of v hs i] by (simp add: held_def split: if_splits)
    then show ?thesis using at erase_distinct [OF put_absent(1) [OF nb ok(1)]] by auto
  qed
  then show ?thesis using False e1 ok by (auto simp: RenameFile_def env_ok_def split: prod.splits)
qed

lemma DeleteFile_ok:
  assumes "env_ok (e, hs)"
  shows "DeleteFile n e = Inl NullDeref \<or> (\<exists>s e'. DeleteFile n e = Inr (s, e') \<and> env_ok (e', hs))"
  using assms DeleteFileInternal_ok [OF assms, of n] by (auto simp: DeleteFile_def)

lemma open_file:
  assumes "env_ok (e, hs)" "i \<in> set hs"
  shows "\<exists>f. fetch e (Some i) = Inr (i, f) \<and> me_heap e i = Some f \<and> file_ok f \<and>
    int (held (me_map e) hs i) \<le> fs_refs f"
  using assms heap_okD [of e "held (me_map e) hs" i] held_open [OF assms(2)] by (auto simp: env_ok_def fetch_def)

lemma file_append_ok:
  assumes "env_ok (e, hs)" "i \<in> set hs"
  shows "\<exists>e'. file_append junk i d e = Inr (OK, e') \<and> env_ok (e', hs) \<and> me_map e' = me_map e \<and>
    (\<exists>f f'. me_heap e i = Some f \<and> me_heap e' i = Some f' \<and> file_contents f' = file_contents f @ d)"
proof -
  obtain f where f: "fetch e (Some i) = Inr (i, f)" "me_heap e i = Some f" "file_ok f" "int (held (me_map e) hs i) \<le> fs_refs f"
    using open_file [OF assms] by blast
  obtain f' where f': "FileState_Append junk d f = Inr (OK, f')" "file_ok f'" "file_contents f' = file_contents f @ d" "fs_refs f' = fs_refs f"
    using FileState_Append_ok [OF f(3)] by blast
  have "env_ok (e\<lparr>me_heap := (me_heap e)(i \<mapsto> f')\<rparr>, hs)"
    using assms(1) f f' by (auto simp: env_ok_def heap_ok_def)
  then show ?thesis using f f' by (simp add: file_append_def)
qed

lemma file_close_ok:
  assumes "env_ok (e, hs)" "i \<in> set hs"
  shows "\<exists>e'. file_close i e = Inr e' \<and> env_ok (e', remove1 i hs)"
proof -
  let ?M = "held (me_map e) hs"
  have "held (me_map e) (remove1 i hs) = ?M(i := ?M i - 1)"
  proof
    fix j
    have "mset hs = add_mset i (mset (remove1 i hs))" using assms(2) by simp
    then have "count_list hs j = count_list (i # remove1 i hs) j" by (metis count_mset mset.simps(2))
    then show "held (me_map e) (remove1 i hs) j = (?M(i := ?M i - 1)) j"
      unfolding held_def by (cases "j = i") simp_all
  qed
  then show ?thesis
    using Unref_held [of e ?M i] held_open [OF assms(2)] assms(1) by (auto simp: env_ok_def file_close_def)
qed

lemma env_step_ok: "env_step s t \<Longrightarrow> env_ok s \<Longrightarrow> env_ok t"
proof (induction rule: env_step.induct)
  case (step_seq n e s p e' hs)
  then show ?case using NewSequentialFile_ok [of e hs n] by auto
next
  case (step_rand n e s p e' hs)
  then show ?case using NewSequentialFile_ok [of e hs n] by (auto simp: NewRandomAccessFile_eq)
next
  case (step_wr n e s p e' hs)
  then show ?case using NewWritableFile_ok [of e hs n] by auto
next
  case (step_app n e s p e' hs)
  then show ?case using NewAppendableFile_ok [of e hs n] by auto
next
  case (step_del n e s e' hs)
  then show ?case using DeleteFile_ok [of e hs n] by auto
next
  case (step_ren a b e s e' hs)
  then show ?case using RenameFile_ok [of e hs a b] by auto
next
  case (step_write i hs junk d e s e')
  then show ?case using file_append_ok [of e hs i junk d] by auto
next
  case (step_close i hs e e')
  then show ?case using file_close_ok [of e hs i] by auto
qed

interpretation memenv: inv_system env_step "\<lambda>s. s = (NewMemEnv, [])" env_ok
proof
  show "env_ok s" if "s = (NewMemEnv, [])" for s
    using that by (simp add: env_ok_def heap_ok_def NewMemEnv_def held_def)
qed (rule env_step_ok)

section \<open>Properties\<close>


text \<open>
  C27. What is written under a name is read back under it: creating a file in any reachable
  environment without null pointers for that name, appending to it and opening the name again gives a
  file object that reads the bytes appended.
\<close>

theorem memenv_write_read:
  assumes "env_step\<^sup>*\<^sup>* (NewMemEnv, []) (e, hs)" "map_of (me_map e) n \<noteq> Some None"
  shows "\<exists>i e1 e2 e3. NewWritableFile n e = Inr (OK, Some i, e1) \<and> file_append junk i d e1 = Inr (OK, e2) \<and>
    NewSequentialFile n e2 = Inr (OK, Some i, e3) \<and>
    (\<forall>offset k. offset \<le> length d \<longrightarrow> file_read i offset k e3 = Inr (OK, take k (drop offset d)))"
proof -
  have ok: "env_ok (e, hs)" using memenv.reach_inv [OF refl assms(1)] .
  obtain i e1 f where 1: "NewWritableFile n e = Inr (OK, Some i, e1)" "env_ok (e1, i # hs)" "map_of (me_map e1) n = Some (Some i)"
      "me_heap e1 i = Some f" "file_contents f = []"
    using NewWritableFile_ok [OF ok, of n] assms(2) by auto
  obtain e2 f2 where 2: "file_append junk i d e1 = Inr (OK, e2)" "env_ok (e2, i # hs)" "me_map e2 = me_map e1"
      "me_heap e2 i = Some f2" "file_contents f2 = d"
    using file_append_ok [OF 1(2), of i junk d] 1(4,5) by auto
  obtain e3 where 3: "Ref (Some i) e2 = Inr e3" "env_ok (e3, i # i # hs)"
    using open_ok [OF 2(2), of n i] 2(3) 1(3) by auto
  obtain f3 where f3: "fetch e3 (Some i) = Inr (i, f3)" "file_ok f3" "file_contents f3 = d"
    using Ref_keeps [OF 3(1) 2(4)] 2(5) open_file [OF 3(2), of i] by auto
  have "file_read i offset k e3 = Inr (OK, take k (drop offset d))" if "offset \<le> length d" for offset k
    using FileState_Read_ok [OF f3(2), of offset k] file_contents_length [OF f3(2)] f3(1,3) that by (simp add: file_read_def)
  moreover have "NewSequentialFile n e2 = Inr (OK, Some i, e3)" using 2(3) 1(3) 3(1) by (simp add: NewSequentialFile_def)
  ultimately show ?thesis using 1(1) 2(1) by blast
qed


theorem memenv_write_read_witness:
  "\<exists>i e1 e2 e3. NewWritableFile [97] NewMemEnv = Inr (OK, Some i, e1) \<and> file_append 0 i [1, 2, 3] e1 = Inr (OK, e2) \<and>
    NewSequentialFile [97] e2 = Inr (OK, Some i, e3) \<and> file_read i 1 1 e3 = Inr (OK, [2])"
  using memenv_write_read [of NewMemEnv "[]" "[97]" 0 "[1, 2, 3]"] by (fastforce simp: NewMemEnv_def)

text \<open>
  C38. Opening a file for appending under a name that does not exist puts a null pointer under the name
  and leaves the new file object outside the map: the name exists afterwards, and opening it dereferences
  the null pointer.
\<close>

theorem appendable_lost:
  assumes "env_step\<^sup>*\<^sup>* (NewMemEnv, []) (e, hs)" "\<not> FileExists n e"
  shows "\<exists>i e'. NewAppendableFile n e = Inr (OK, Some i, e') \<and> FileExists n e' \<and> NewSequentialFile n e' = Inl NullDeref"
proof -
  have ok: "env_ok (e, hs)" using memenv.reach_inv [OF refl assms(1)] .
  have none: "map_of (me_map e) n = None" using assms(2) by (simp add: FileExists_def)
  have d: "distinct (map fst (me_map e))" "heap_ok e (held (me_map e) hs)" using ok by (simp_all add: env_ok_def)
  let ?e = "e\<lparr>me_map := fm_put n None (me_map e)\<rparr>"
  have "held (fm_put n None (me_map e)) hs = held (me_map e) hs"
    using put_absent(2) [OF none d(1), of None hs] by (intro ext) simp
  then have "env_ok (?e, hs)" using d put_absent(1) [OF none d(1), of None] by (simp add: env_ok_def)
  from unnamed_file_ok [OF this] show ?thesis
    using none by (auto simp: NewAppendableFile_def new_FileState_def fm_at_def map_of_put FileExists_def NewSequentialFile_def
        Ref_def fetch_def)
qed

theorem appendable_lost_witness:
  "\<exists>i e'. NewAppendableFile [97] NewMemEnv = Inr (OK, Some i, e') \<and> NewSequentialFile [97] e' = Inl NullDeref"
  using appendable_lost [of NewMemEnv "[]" "[97]"] by (auto simp: FileExists_def NewMemEnv_def)

text \<open>Renaming a file to its own name deletes it.\<close>

lemma rename_self:
  assumes "env_ok (e, hs)" "map_of (me_map e) n = Some (Some i)"
  shows "\<exists>e'. RenameFile n n e = Inr (OK, e') \<and> \<not> FileExists n e'"
  using DeleteFileInternal_ok [OF assms(1), of n] assms(2)
  by (auto simp: RenameFile_def FileExists_def map_of_erase erase_put fm_at_def map_of_put)

end
