(* ===== verification/Ldb_Filename.thy ===== *)
theory Ldb_Filename
  imports Ldb_Status Ldb_Comparator
begin

text \<open>
  Numbers and names as text: db/leveldb/util/logging.cc and the names of files in
  db/leveldb/db/filename.h and filename.cc.
\<close>

section \<open>Text of numbers and strings\<close>

definition AppendNumberTo :: "bytes \<Rightarrow> u64 \<Rightarrow> bytes" where
  "AppendNumberTo s num = s @ decimal (unat num)"

definition hex_digit :: "nat \<Rightarrow> byte" where
  "hex_digit d = (if d < 10 then of_nat (48 + d) else of_nat (87 + d))"

definition escape_char :: "byte \<Rightarrow> bytes" where
  "escape_char c =
     (if of_char CHR '' '' \<le> c \<and> c \<le> of_char CHR ''~'' then [c]
      else str [CHR 0x5c, CHR ''x''] @ [hex_digit (unat c div 16), hex_digit (unat c mod 16)])"

definition AppendEscapedStringTo :: "bytes \<Rightarrow> bytes \<Rightarrow> bytes" where
  "AppendEscapedStringTo s value = s @ concat (map escape_char value)"

definition NumberToString :: "u64 \<Rightarrow> bytes" where "NumberToString num = AppendNumberTo [] num"
definition EscapeString :: "bytes \<Rightarrow> bytes" where "EscapeString value = AppendEscapedStringTo [] value"

text \<open>The loop returns nothing on an overflow; otherwise the value, whether it saw a digit, and the rest.\<close>

definition kMaxUint64 :: u64 where "kMaxUint64 = NOT 0"

fun consume_digits :: "bytes \<Rightarrow> u64 \<Rightarrow> nat \<Rightarrow> (u64 \<times> nat \<times> bytes) option" where
  "consume_digits [] v digits = Some (v, digits, [])"
| "consume_digits (c # rest) v digits =
     (if 48 \<le> c \<and> c \<le> 57 then
        (let delta = ucast (c - 48) in
         if kMaxUint64 div 10 < v \<or> v = kMaxUint64 div 10 \<and> kMaxUint64 mod 10 < delta then None
         else consume_digits rest (v * 10 + delta) (digits + 1))
      else Some (v, digits, c # rest))"

definition ConsumeDecimalNumber :: "bytes \<Rightarrow> (u64 \<times> bytes) option" where
  "ConsumeDecimalNumber input =
     (case consume_digits input 0 0 of None \<Rightarrow> None
      | Some (v, digits, rest) \<Rightarrow> if 0 < digits then Some (v, rest) else None)"

section \<open>Names\<close>

text \<open>\<open>snprintf\<close> into a buffer of 100 bytes keeps 99 of them; \<open>%06llu\<close> fills with zeros up to six digits.\<close>

definition snprintf100 :: "bytes \<Rightarrow> bytes" where "snprintf100 s = take 99 s"

definition pad6 :: "u64 \<Rightarrow> bytes" where
  "pad6 number = (let d = decimal (unat number) in replicate (6 - length d) 48 @ d)"

definition MakeFileName :: "bytes \<Rightarrow> u64 \<Rightarrow> string \<Rightarrow> bytes" where
  "MakeFileName name number suffix = name @ snprintf100 (str ''/'' @ pad6 number @ str ''.'' @ str suffix)"

definition LogFileName :: "bytes \<Rightarrow> u64 \<Rightarrow> bytes" where "LogFileName name number = MakeFileName name number ''log''"
definition TableFileName :: "bytes \<Rightarrow> u64 \<Rightarrow> bytes" where "TableFileName name number = MakeFileName name number ''ldb''"
definition SSTTableFileName :: "bytes \<Rightarrow> u64 \<Rightarrow> bytes" where "SSTTableFileName name number = MakeFileName name number ''sst''"
definition DescriptorFileName :: "bytes \<Rightarrow> u64 \<Rightarrow> bytes" where
  "DescriptorFileName dbname number = dbname @ snprintf100 (str ''/MANIFEST-'' @ pad6 number)"
definition CurrentFileName :: "bytes \<Rightarrow> bytes" where "CurrentFileName dbname = dbname @ str ''/CURRENT''"
definition LockFileName :: "bytes \<Rightarrow> bytes" where "LockFileName dbname = dbname @ str ''/LOCK''"
definition TempFileName :: "bytes \<Rightarrow> u64 \<Rightarrow> bytes" where "TempFileName dbname number = MakeFileName dbname number ''dbtmp''"
definition InfoLogFileName :: "bytes \<Rightarrow> bytes" where "InfoLogFileName dbname = dbname @ str ''/LOG''"
definition OldInfoLogFileName :: "bytes \<Rightarrow> bytes" where "OldInfoLogFileName dbname = dbname @ str ''/LOG.old''"

datatype file_type = kLogFile | kDBLockFile | kTableFile | kDescriptorFile | kCurrentFile | kTempFile | kInfoLogFile

definition ParseFileName :: "bytes \<Rightarrow> (u64 \<times> file_type) option" where
  "ParseFileName fname =
     (if fname = str ''CURRENT'' then Some (0, kCurrentFile)
      else if fname = str ''LOCK'' then Some (0, kDBLockFile)
      else if fname = str ''LOG'' \<or> fname = str ''LOG.old'' then Some (0, kInfoLogFile)
      else if starts_with fname (str ''MANIFEST-'') then
        (case ConsumeDecimalNumber (drop 9 fname) of None \<Rightarrow> None
         | Some (num, rest) \<Rightarrow> if rest \<noteq> [] then None else Some (num, kDescriptorFile))
      else
        (case ConsumeDecimalNumber fname of None \<Rightarrow> None
         | Some (num, suffix) \<Rightarrow>
             if suffix = str ''.log'' then Some (num, kLogFile)
             else if suffix = str ''.sst'' \<or> suffix = str ''.ldb'' then Some (num, kTableFile)
             else if suffix = str ''.dbtmp'' then Some (num, kTempFile)
             else None))"

section \<open>Reading numbers back\<close>

definition digit_val :: "nat \<Rightarrow> byte \<Rightarrow> nat" where "digit_val v c = v * 10 + unat (c - 48)"

lemma fits_iff:
  assumes "delta \<le> 9"
  shows "\<not> (kMaxUint64 div 10 < v \<or> v = kMaxUint64 div 10 \<and> kMaxUint64 mod 10 < of_nat delta) \<longleftrightarrow> unat v * 10 + delta < 2 ^ 64"
proof -
  have k: "unat (kMaxUint64 div 10) = 1844674407370955161" "unat (kMaxUint64 mod 10) = 5" by (simp_all add: kMaxUint64_def)
  have d: "unat (of_nat delta :: u64) = delta" using assms by (simp add: unat_of_nat)
  have "v = kMaxUint64 div 10 \<longleftrightarrow> unat v = 1844674407370955161" by (simp only: word_unat_eq_iff k(1))
  then show ?thesis
    using assms by (simp add: word_less_nat_alt k d) linarith
qed

lemma digit_bytes:
  assumes "d \<le> 9"
  shows "48 \<le> (of_nat (48 + d) :: byte)" "(of_nat (48 + d) :: byte) \<le> 57" "unat (of_nat (48 + d) - 48 :: byte) = d"
proof -
  have "unat (of_nat (48 + d) :: byte) = 48 + d" using assms by (simp add: unat_of_nat del: of_nat_add)
  then show "48 \<le> (of_nat (48 + d) :: byte)" "(of_nat (48 + d) :: byte) \<le> 57"
    using assms by (simp_all add: word_le_nat_alt del: of_nat_add)
  show "unat (of_nat (48 + d) - 48 :: byte) = d" using assms by (simp add: unat_of_nat)
qed

definition is_digit :: "byte \<Rightarrow> bool" where "is_digit c \<longleftrightarrow> (\<exists>d \<le> 9. c = of_nat (48 + d))"

lemma digit_val_mono: "v \<le> foldl digit_val v ds"
proof (induction ds arbitrary: v)
  case (Cons c ds)
  have "v \<le> digit_val v c" by (simp add: digit_val_def)
  then show ?case using Cons [of "digit_val v c"] by simp
qed simp

lemma consume_digits_run:
  "\<forall>c \<in> set ds. is_digit c \<Longrightarrow> foldl digit_val v ds < 2 ^ 64 \<Longrightarrow>
   consume_digits (ds @ rest) (of_nat v) k = consume_digits rest (of_nat (foldl digit_val v ds)) (k + length ds)"
proof (induction ds arbitrary: v k)
  case (Cons c ds)
  obtain d where d: "d \<le> 9" "c = of_nat (48 + d)" using Cons.prems(1) by (auto simp: is_digit_def)
  note db = digit_bytes [OF d(1), folded d(2)]
  have u: "ucast (c - 48) = (of_nat d :: u64)" using db(3) by (metis of_nat_unat)
  have "digit_val v c = v * 10 + d" by (simp add: digit_val_def db(3))
  then have le: "v * 10 + d < 2 ^ 64" using digit_val_mono [of "digit_val v c" ds] Cons.prems(2) by simp
  then have "unat (of_nat v :: u64) = v" by (simp add: unat_of_nat)
  then have na: "(kMaxUint64 div 10 < of_nat v \<or> of_nat v = kMaxUint64 div 10 \<and> kMaxUint64 mod 10 < of_nat d) = False"
    using fits_iff [OF d(1), of "of_nat v"] le by simp
  have "consume_digits ((c # ds) @ rest) (of_nat v) k = consume_digits (ds @ rest) (of_nat v * 10 + of_nat d) (k + 1)"
    by (simp only: append_Cons consume_digits.simps Let_def u db(1,2) na if_True if_False simp_thms)
  also have "of_nat v * 10 + of_nat d = (of_nat (digit_val v c) :: u64)" by (simp add: digit_val_def db(3) algebra_simps)
  finally show ?case using Cons.IH [of "digit_val v c" "k + 1"] Cons.prems by simp
qed simp

lemma decimal_digits: "\<forall>c \<in> set (decimal n). is_digit c"
proof (induction n rule: decimal.induct)
  case (1 n)
  have "is_digit (of_nat (48 + n mod 10))" "n < 10 \<Longrightarrow> is_digit (of_nat (48 + n))"
    unfolding is_digit_def by (rule exI [of _ "n mod 10"], simp, rule exI [of _ n], simp)
  then show ?case using 1 by (subst decimal.simps) (simp del: of_nat_add)
qed

lemma decimal_val: "foldl digit_val 0 (decimal n) = n"
proof (induction n rule: decimal.induct)
  case (1 n)
  show ?case
  proof (cases "n < 10")
    case True
    then show ?thesis using digit_bytes(3) [of n] by (subst decimal.simps) (simp add: digit_val_def)
  next
    case False
    have "digit_val (n div 10) (of_nat (48 + n mod 10)) = n"
      using digit_bytes(3) [of "n mod 10"] by (simp add: digit_val_def)
    then show ?thesis using 1 False by (subst decimal.simps) (simp del: of_nat_add)
  qed
qed

lemma decimal_not_Nil [simp]: "decimal n \<noteq> []"
  by (subst decimal.simps) simp

lemma decimal_length: "0 < k \<Longrightarrow> n < 10 ^ k \<Longrightarrow> length (decimal n) \<le> k"
proof (induction n arbitrary: k rule: decimal.induct)
  case (1 n)
  show ?case
  proof (cases "n < 10")
    case True
    then show ?thesis using 1 by (subst decimal.simps) simp
  next
    case False
    then have "k \<noteq> 1" using 1(3) by (intro notI) simp
    then obtain j where j: "k = Suc j" "0 < j" using 1(2) by (cases k) auto
    then have "n div 10 < 10 ^ j" using 1(3) by (simp add: less_mult_imp_div_less mult.commute)
    then show ?thesis using 1(1) [OF False j(2)] False j by (subst decimal.simps) simp
  qed
qed

lemma pad6_digits: "\<forall>c \<in> set (pad6 n). is_digit c"
proof -
  have "is_digit 48" unfolding is_digit_def by (rule exI [of _ 0]) simp
  then show ?thesis using decimal_digits [of "unat n"] by (auto simp: pad6_def Let_def)
qed

lemma pad6_val: "foldl digit_val 0 (pad6 n) = unat n"
proof -
  have "foldl digit_val 0 (replicate k 48) = 0" for k by (induction k) (simp_all add: digit_val_def)
  then show ?thesis by (simp add: pad6_def Let_def decimal_val)
qed

lemma pad6_length: "0 < length (pad6 n)" "length (pad6 n) \<le> 20"
proof -
  have "unat n < 10 ^ 20" by (rule order_less_le_trans [OF unsigned_less]) simp
  then have "length (decimal (unat n)) \<le> 20" by (rule decimal_length [rotated]) simp
  then show "0 < length (pad6 n)" "length (pad6 n) \<le> 20" by (auto simp: pad6_def Let_def)
qed

lemma ConsumeDecimalNumber_pad6:
  assumes "rest = [] \<or> \<not> (48 \<le> hd rest \<and> hd rest \<le> 57)"
  shows "ConsumeDecimalNumber (pad6 n @ rest) = Some (n, rest)"
proof -
  have "foldl digit_val 0 (pad6 n) < 2 ^ 64" unfolding pad6_val by (rule order_less_le_trans [OF unsigned_less]) simp
  from consume_digits_run [OF pad6_digits this, of rest 0]
  have "consume_digits (pad6 n @ rest) 0 0 = consume_digits rest n (length (pad6 n))" by (simp add: pad6_val)
  also have "\<dots> = Some (n, length (pad6 n), rest)" using assms by (cases rest) auto
  finally show ?thesis using pad6_length(1) [of n] by (simp add: ConsumeDecimalNumber_def)
qed

lemma pad6_first: "\<exists>c ds. pad6 n = c # ds \<and> 48 \<le> c \<and> c \<le> 57"
  using pad6_digits [of n] pad6_length(1) [of n] digit_bytes by (cases "pad6 n") (auto simp: is_digit_def)

section \<open>Properties\<close>

lemma numbered_name:
  assumes "length suffix \<le> 9" "suffix \<noteq> []"
  shows "MakeFileName name n suffix = name @ str ''/'' @ pad6 n @ str ''.'' @ str suffix"
  using assms pad6_length(2) [of n] by (simp add: MakeFileName_def snprintf100_def)

lemma starts_with_digit: "48 \<le> c \<Longrightarrow> c \<le> 57 \<Longrightarrow> \<not> starts_with (c # s) (str ''MANIFEST-'')"
  by (auto simp: starts_with_iff str_def)

lemma parse_numbered:
  assumes "ConsumeDecimalNumber (pad6 n @ sfx) = Some (n, sfx)"
  shows "ParseFileName (pad6 n @ sfx) =
    (if sfx = str ''.log'' then Some (n, kLogFile) else if sfx = str ''.sst'' \<or> sfx = str ''.ldb'' then Some (n, kTableFile)
     else if sfx = str ''.dbtmp'' then Some (n, kTempFile) else None)"
proof -
  obtain c ds where c: "pad6 n = c # ds" "48 \<le> c" "c \<le> 57" using pad6_first by blast
  have "pad6 n @ sfx \<noteq> str ''CURRENT''" "pad6 n @ sfx \<noteq> str ''LOCK''" "pad6 n @ sfx \<noteq> str ''LOG''" "pad6 n @ sfx \<noteq> str ''LOG.old''"
    using c by (auto simp: str_def)
  moreover have "\<not> starts_with (pad6 n @ sfx) (str ''MANIFEST-'')" using starts_with_digit [OF c(2,3)] c(1) by simp
  ultimately show ?thesis using assms by (simp add: ParseFileName_def)
qed

lemma filename_parts:
  "ParseFileName (drop (length name + 1) (LogFileName name n)) = Some (n, kLogFile)"
  "ParseFileName (drop (length name + 1) (TableFileName name n)) = Some (n, kTableFile)"
  "ParseFileName (drop (length name + 1) (SSTTableFileName name n)) = Some (n, kTableFile)"
  "ParseFileName (drop (length name + 1) (TempFileName name n)) = Some (n, kTempFile)"
  "ParseFileName (drop (length name + 1) (DescriptorFileName name n)) = Some (n, kDescriptorFile)"
  "ParseFileName (drop (length name + 1) (CurrentFileName name)) = Some (0, kCurrentFile)"
  "ParseFileName (drop (length name + 1) (LockFileName name)) = Some (0, kDBLockFile)"
  "ParseFileName (drop (length name + 1) (InfoLogFileName name)) = Some (0, kInfoLogFile)"
  "ParseFileName (drop (length name + 1) (OldInfoLogFileName name)) = Some (0, kInfoLogFile)"
proof -
  have dot: "ConsumeDecimalNumber (pad6 n @ str ''.'' @ s) = Some (n, str ''.'' @ s)" for s
    by (rule ConsumeDecimalNumber_pad6) (simp add: str_def)
  have d: "drop (length name + 1) (name @ str ''/'' @ s) = s" for s by (simp add: str_def)
  have d1: "drop (length name + 1) (name @ str (CHR ''/'' # s)) = str s" for s by (simp add: str_def)
  have "length (str ''/MANIFEST-'' @ pad6 n) \<le> 99" using pad6_length(2) [of n] by simp
  then have m: "DescriptorFileName name n = name @ str ''/'' @ str ''MANIFEST-'' @ pad6 n"
    by (simp add: DescriptorFileName_def snprintf100_def str_def)
  have "ParseFileName (str ''MANIFEST-'' @ pad6 n) = Some (n, kDescriptorFile)"
    using ConsumeDecimalNumber_pad6 [of "[]" n] by (simp add: ParseFileName_def starts_with_iff str_def)
  moreover have "ParseFileName (drop (length name + 1) (MakeFileName name n sfx)) = ParseFileName (pad6 n @ str ''.'' @ str sfx)"
    if "sfx \<noteq> []" "length sfx \<le> 9" for sfx
    by (simp only: numbered_name [OF that(2,1)] d)
  moreover have "ParseFileName (pad6 n @ str ''.'' @ str ''log'') = Some (n, kLogFile)"
    "ParseFileName (pad6 n @ str ''.'' @ str ''ldb'') = Some (n, kTableFile)"
    "ParseFileName (pad6 n @ str ''.'' @ str ''sst'') = Some (n, kTableFile)"
    "ParseFileName (pad6 n @ str ''.'' @ str ''dbtmp'') = Some (n, kTempFile)"
    unfolding parse_numbered [OF dot] by (simp_all add: str_def)
  moreover have "ParseFileName (str ''CURRENT'') = Some (0, kCurrentFile)" "ParseFileName (str ''LOCK'') = Some (0, kDBLockFile)"
    "ParseFileName (str ''LOG'') = Some (0, kInfoLogFile)" "ParseFileName (str ''LOG.old'') = Some (0, kInfoLogFile)"
    by (simp_all add: ParseFileName_def str_def)
  ultimately show
    "ParseFileName (drop (length name + 1) (LogFileName name n)) = Some (n, kLogFile)"
    "ParseFileName (drop (length name + 1) (TableFileName name n)) = Some (n, kTableFile)"
    "ParseFileName (drop (length name + 1) (SSTTableFileName name n)) = Some (n, kTableFile)"
    "ParseFileName (drop (length name + 1) (TempFileName name n)) = Some (n, kTempFile)"
    "ParseFileName (drop (length name + 1) (DescriptorFileName name n)) = Some (n, kDescriptorFile)"
    "ParseFileName (drop (length name + 1) (CurrentFileName name)) = Some (0, kCurrentFile)"
    "ParseFileName (drop (length name + 1) (LockFileName name)) = Some (0, kDBLockFile)"
    "ParseFileName (drop (length name + 1) (InfoLogFileName name)) = Some (0, kInfoLogFile)"
    "ParseFileName (drop (length name + 1) (OldInfoLogFileName name)) = Some (0, kInfoLogFile)"
    unfolding m LogFileName_def TableFileName_def SSTTableFileName_def TempFileName_def CurrentFileName_def LockFileName_def
      InfoLogFileName_def OldInfoLogFileName_def d d1 by simp_all
qed


end
