(* ===== verification/Ldb_Env.thy ===== *)
theory Ldb_Env
  imports Ldb_Memenv Ldb_Filename
begin

text \<open>
  Helpers over an environment: db/leveldb/util/env.cc and the function SetCurrentFile of
  db/leveldb/db/filename.cc. An environment is a record of the operations they call, with a type for
  its state, one for its writable and one for its sequential file objects; the environment in memory
  is such a record.
\<close>

section \<open>The interface of an environment\<close>

record ('e, 'w, 's) env_ops =
  env_NewWritableFile :: "bytes \<Rightarrow> 'e \<Rightarrow> mem_error + (status \<times> 'w option \<times> 'e)"
  env_Append :: "bytes \<Rightarrow> 'w \<Rightarrow> 'e \<Rightarrow> mem_error + (status \<times> 'e)"
  env_Sync :: "'w \<Rightarrow> 'e \<Rightarrow> mem_error + (status \<times> 'e)"
  env_Close :: "'w \<Rightarrow> 'e \<Rightarrow> mem_error + (status \<times> 'e)"
  env_delete_writable :: "'w \<Rightarrow> 'e \<Rightarrow> mem_error + 'e"
  env_NewSequentialFile :: "bytes \<Rightarrow> 'e \<Rightarrow> mem_error + (status \<times> 's option \<times> 'e)"
  env_Read :: "nat \<Rightarrow> 's \<Rightarrow> 'e \<Rightarrow> mem_error + (status \<times> bytes \<times> 's)"
  env_delete_sequential :: "'s \<Rightarrow> 'e \<Rightarrow> mem_error + 'e"
  env_DeleteFile :: "bytes \<Rightarrow> 'e \<Rightarrow> mem_error + (status \<times> 'e)"
  env_RenameFile :: "bytes \<Rightarrow> bytes \<Rightarrow> 'e \<Rightarrow> mem_error + (status \<times> 'e)"

section \<open>Whole files\<close>

definition DoWriteStringToFile ::
  "('e, 'w, 's) env_ops \<Rightarrow> bytes \<Rightarrow> bytes \<Rightarrow> bool \<Rightarrow> 'e \<Rightarrow> mem_error + (status \<times> 'e)" where
  "DoWriteStringToFile E data fname should_sync e =
     bind_res (env_NewWritableFile E fname e) (\<lambda>(s, file, e1).
       if \<not> status_ok s then Inr (s, e1)
       else (case file of None \<Rightarrow> Inl NullDeref | Some f \<Rightarrow>
         bind_res (env_Append E data f e1) (\<lambda>(s1, e2).
         bind_res (if status_ok s1 \<and> should_sync then env_Sync E f e2 else Inr (s1, e2)) (\<lambda>(s2, e3).
         bind_res (if status_ok s2 then env_Close E f e3 else Inr (s2, e3)) (\<lambda>(s3, e4).
         bind_res (env_delete_writable E f e4) (\<lambda>e5.
           if \<not> status_ok s3 then bind_res (env_DeleteFile E fname e5) (\<lambda>(_, e6). Inr (s3, e6)) else Inr (s3, e5)))))))"

definition WriteStringToFile ::
  "('e, 'w, 's) env_ops \<Rightarrow> bytes \<Rightarrow> bytes \<Rightarrow> 'e \<Rightarrow> mem_error + (status \<times> 'e)" where
  "WriteStringToFile E data fname e = DoWriteStringToFile E data fname False e"

definition WriteStringToFileSync ::
  "('e, 'w, 's) env_ops \<Rightarrow> bytes \<Rightarrow> bytes \<Rightarrow> 'e \<Rightarrow> mem_error + (status \<times> 'e)" where
  "WriteStringToFileSync E data fname e = DoWriteStringToFile E data fname True e"

partial_function (option) read_all ::
  "('e, 'w, 's) env_ops \<Rightarrow> 's \<Rightarrow> 'e \<Rightarrow> bytes \<Rightarrow> (mem_error + (status \<times> bytes \<times> 's)) option" where
  "read_all E f e data =
     (case env_Read E 8192 f e of Inl err \<Rightarrow> Some (Inl err)
      | Inr res \<Rightarrow>
          (if \<not> status_ok (fst res) then Some (Inr (fst res, data, snd (snd res)))
           else if fst (snd res) = [] then Some (Inr (fst res, data, snd (snd res)))
           else read_all E (snd (snd res)) e (data @ fst (snd res))))"

definition ReadFileToString ::
  "('e, 'w, 's) env_ops \<Rightarrow> bytes \<Rightarrow> 'e \<Rightarrow> (mem_error + (status \<times> bytes \<times> 'e)) option" where
  "ReadFileToString E fname e =
     (case env_NewSequentialFile E fname e of Inl err \<Rightarrow> Some (Inl err)
      | Inr (s, file, e1) \<Rightarrow>
          (if \<not> status_ok s then Some (Inr (s, [], e1))
           else (case file of None \<Rightarrow> Some (Inl NullDeref)
             | Some f \<Rightarrow>
                 (case read_all E f e1 [] of None \<Rightarrow> None
                  | Some (Inl err) \<Rightarrow> Some (Inl err)
                  | Some (Inr (s2, data, f2)) \<Rightarrow>
                      Some (bind_res (env_delete_sequential E f2 e1) (\<lambda>e2. Inr (s2, data, e2)))))))"

section \<open>The current manifest\<close>

definition SetCurrentFile ::
  "('e, 'w, 's) env_ops \<Rightarrow> bytes \<Rightarrow> u64 \<Rightarrow> 'e \<Rightarrow> mem_error + (status \<times> 'e)" where
  "SetCurrentFile E dbname descriptor_number e =
     (let contents = drop (length dbname + 1) (DescriptorFileName dbname descriptor_number);
          tmp = TempFileName dbname descriptor_number
      in bind_res (WriteStringToFileSync E (contents @ [10]) tmp e) (\<lambda>(s, e1).
         bind_res (if status_ok s then env_RenameFile E tmp (CurrentFileName dbname) e1 else Inr (s, e1)) (\<lambda>(s2, e2).
           if \<not> status_ok s2 then bind_res (env_DeleteFile E tmp e2) (\<lambda>(_, e3). Inr (s2, e3)) else Inr (s2, e2))))"

section \<open>The environment in memory\<close>

text \<open>A file object is the pointer it holds, and for a sequential file its position too.\<close>

definition mem_read :: "nat \<Rightarrow> nat \<times> nat \<Rightarrow> mem_env \<Rightarrow> mem_error + (status \<times> bytes \<times> nat \<times> nat)" where
  "mem_read n p e = bind_res (fetch e (Some (fst p))) (\<lambda>(i, f).
     bind_res (SequentialFileImpl_Read n \<lparr>sq_file = f, sq_pos = snd p\<rparr>) (\<lambda>(s, r, q). Inr (s, r, i, sq_pos q)))"

definition MemEnv :: "byte \<Rightarrow> (mem_env, nat, nat \<times> nat) env_ops" where
  "MemEnv junk =
     \<lparr>env_NewWritableFile = NewWritableFile,
      env_Append = (\<lambda>d i e. file_append junk i d e),
      env_Sync = (\<lambda>i e. Inr (OK, e)),
      env_Close = (\<lambda>i e. Inr (OK, e)),
      env_delete_writable = file_close,
      env_NewSequentialFile = (\<lambda>n e. bind_res (NewSequentialFile n e) (\<lambda>(s, p, e'). Inr (s, map_option (\<lambda>i. (i, 0)) p, e'))),
      env_Read = mem_read,
      env_delete_sequential = (\<lambda>p e. file_close (fst p) e),
      env_DeleteFile = DeleteFile,
      env_RenameFile = RenameFile\<rparr>"

section \<open>The file behind a name\<close>

definition holds :: "mem_env \<Rightarrow> bytes \<Rightarrow> bytes \<Rightarrow> bool" where
  "holds e n d \<longleftrightarrow> (\<exists>i f. map_of (me_map e) n = Some (Some i) \<and> me_heap e i = Some f \<and> file_ok f \<and> file_contents f = d)"

lemma Unref_heap:
  assumes "Unref p e = Inr e'"
  shows "me_map e' = me_map e" "me_heap e' i = Some f' \<Longrightarrow> me_heap e i = Some f \<Longrightarrow> file_contents f' = file_contents f"
  using assms by (auto simp: Unref_def fetch_def Let_def file_contents_def split: option.splits if_splits)

lemma env_ok_heap: "env_ok (e, hs) \<Longrightarrow> map_of (me_map e) n = Some (Some i) \<Longrightarrow> \<exists>f. me_heap e i = Some f \<and> file_ok f"
  using heap_okD [of e "held (me_map e) hs" i] held_map [of "me_map e" n i hs] by (auto simp: env_ok_def)

lemma Unref_holds:
  assumes "Unref p e = Inr e'" "env_ok (e', hs)" "holds e n d"
  shows "holds e' n d"
proof -
  obtain i f where f: "map_of (me_map e) n = Some (Some i)" "me_heap e i = Some f" "file_contents f = d" "file_ok f"
    using assms(3) by (auto simp: holds_def)
  obtain f' where "me_heap e' i = Some f'" "file_ok f'"
    using env_ok_heap [OF assms(2), of n i] Unref_heap(1) [OF assms(1)] f(1) by auto
  then show ?thesis using Unref_heap [OF assms(1)] f by (auto simp: holds_def)
qed

lemma RenameFile_holds:
  assumes "env_ok (e, hs)" "holds e a d" "a \<noteq> b" "map_of (me_map e) b \<noteq> Some None"
  shows "\<exists>e'. RenameFile a b e = Inr (OK, e') \<and> env_ok (e', hs) \<and> holds e' b d \<and> \<not> FileExists a e'"
proof -
  obtain i f where f: "map_of (me_map e) a = Some (Some i)" "me_heap e i = Some f" "file_contents f = d" "file_ok f"
    using assms(2) by (auto simp: holds_def)
  obtain e1 where e1: "DeleteFileInternal b e = Inr e1" "env_ok (e1, hs)" "me_map e1 = fm_erase b (me_map e)"
    using DeleteFileInternal_ok [OF assms(1), of b] assms(4) by auto
  have a1: "map_of (me_map e1) a = Some (Some i)" using e1(3) f(1) assms(3) by (simp add: map_of_erase)
  have "holds e1 a d"
  proof (cases "map_of (me_map e) b")
    case None
    then show ?thesis using e1(1) assms(2) by (simp add: DeleteFileInternal_def)
  next
    case (Some p)
    then obtain e0 where e0: "Unref p e = Inr e0" "e1 = e0\<lparr>me_map := fm_erase b (me_map e0)\<rparr>"
      using e1(1) by (auto simp: DeleteFileInternal_def)
    then have "me_heap e1 = me_heap e0" by simp
    then show ?thesis
      using Unref_heap [OF e0(1)] env_ok_heap [OF e1(2) a1] a1 f by (auto simp: holds_def)
  qed
  then obtain f1 where f1: "me_heap e1 i = Some f1" "file_contents f1 = d" "file_ok f1" using a1 by (auto simp: holds_def)
  let ?e = "e1\<lparr>me_map := fm_erase a (fm_put b (Some i) (me_map e1))\<rparr>"
  have r: "RenameFile a b e = Inr (OK, ?e)" using f(1) e1(1) a1 by (simp add: RenameFile_def fm_at_def)
  moreover have "env_ok (?e, hs)" using RenameFile_ok [OF assms(1), of a b] r by auto
  ultimately show ?thesis using f1 assms(3) by (simp add: holds_def map_of_erase map_of_put FileExists_def)
qed

lemma write_mem:
  assumes "env_ok (e, hs)" "map_of (me_map e) n \<noteq> Some None"
  shows "\<exists>e'. DoWriteStringToFile (MemEnv junk) d n sync e = Inr (OK, e') \<and> env_ok (e', hs) \<and> holds e' n d \<and>
    (\<forall>k. k \<noteq> n \<longrightarrow> map_of (me_map e') k = map_of (me_map e) k)"
proof -
  obtain i e1 f where 1: "NewWritableFile n e = Inr (OK, Some i, e1)" "env_ok (e1, i # hs)" "map_of (me_map e1) n = Some (Some i)"
      "me_heap e1 i = Some f" "file_contents f = []" "\<forall>k. k \<noteq> n \<longrightarrow> map_of (me_map e1) k = map_of (me_map e) k"
    using NewWritableFile_ok [OF assms(1), of n] assms(2) by auto
  obtain e2 f2 where 2: "file_append junk i d e1 = Inr (OK, e2)" "env_ok (e2, i # hs)" "me_map e2 = me_map e1"
      "me_heap e2 i = Some f2" "file_contents f2 = d"
    using file_append_ok [OF 1(2), of i junk d] 1(4,5) by auto
  obtain e3 where 3: "file_close i e2 = Inr e3" "env_ok (e3, hs)" using file_close_ok [OF 2(2), of i] by auto
  have "file_ok f2" using env_ok_heap [OF 2(2), of n i] 2 1(3) by auto
  then have "holds e2 n d" using 1(3) 2 by (auto simp: holds_def)
  then have "holds e3 n d" using Unref_holds 3 by (auto simp: file_close_def)
  moreover have "me_map e3 = me_map e2" using Unref_heap 3(1) by (auto simp: file_close_def)
  moreover have "DoWriteStringToFile (MemEnv junk) d n sync e = Inr (OK, e3)"
    using 1(1) 2(1) 3(1) by (simp add: DoWriteStringToFile_def MemEnv_def)
  ultimately show ?thesis using 1(6) 2(3) 3(2) by auto
qed

section \<open>Reading a whole file\<close>

lemma read_all_mem:
  assumes "me_heap e i = Some f" "file_ok f"
  shows "pos \<le> fs_size f \<Longrightarrow> \<exists>p. read_all (MemEnv junk) (i, pos) e acc = Some (Inr (OK, acc @ drop pos (file_contents f), p)) \<and> fst p = i"
proof (induction "fs_size f - pos" arbitrary: pos acc rule: less_induct)
  case less
  let ?s = "\<lparr>sq_file = f, sq_pos = pos\<rparr>"
  define s' where "s' = ?s\<lparr>sq_pos := pos + length (take 8192 (seq_rest ?s))\<rparr>"
  have s': "SequentialFileImpl_Read 8192 ?s = Inr (OK, take 8192 (seq_rest ?s), s')"
      "seq_ok s'" "sq_file s' = f" "sq_pos s' = pos + length (take 8192 (seq_rest ?s))"
    using FileState_Read_ok [OF assms(2) less.prems, of 8192] less.prems assms(2)
    by (auto simp: s'_def SequentialFileImpl_Read_def seq_rest_def seq_ok_def file_contents_length min_def)
  have rd: "env_Read (MemEnv junk) 8192 (i, pos) e = Inr (OK, take 8192 (seq_rest ?s), i, sq_pos s')"
    using assms(1) s'(1) by (simp add: MemEnv_def mem_read_def fetch_def)
  have len: "length (seq_rest ?s) = fs_size f - pos" using assms(2) by (simp add: seq_rest_def file_contents_length)
  show ?case
  proof (cases "seq_rest ?s = []")
    case True
    then show ?thesis using rd by (subst read_all.simps) (simp add: seq_rest_def)
  next
    case False
    then have lt: "fs_size f - sq_pos s' < fs_size f - pos" using s'(2,3,4) len by (cases "seq_rest ?s") (auto simp: seq_ok_def)
    have "sq_pos s' \<le> fs_size f" using s'(2,3) by (simp add: seq_ok_def)
    from less.hyps [OF lt this, of "acc @ take 8192 (seq_rest ?s)"] obtain p
      where p: "read_all (MemEnv junk) (i, sq_pos s') e (acc @ take 8192 (seq_rest ?s)) =
          Some (Inr (OK, (acc @ take 8192 (seq_rest ?s)) @ drop (sq_pos s') (file_contents f), p))" "fst p = i" by blast
    have "drop (sq_pos s') (file_contents f) = drop 8192 (seq_rest ?s)"
      by (cases "length (seq_rest ?s) \<le> 8192") (simp_all add: s'(4) seq_rest_def add.commute)
    then have "take 8192 (seq_rest ?s) @ drop (sq_pos s') (file_contents f) = drop pos (file_contents f)"
      by (simp only: append_take_drop_id) (simp add: seq_rest_def)
    then show ?thesis using rd p False by (subst read_all.simps) simp
  qed
qed

lemma read_mem:
  assumes "env_ok (e, hs)" "holds e n d"
  shows "\<exists>e'. ReadFileToString (MemEnv junk) n e = Some (Inr (OK, d, e')) \<and> env_ok (e', hs)"
proof -
  obtain i f where f: "map_of (me_map e) n = Some (Some i)" "me_heap e i = Some f" "file_contents f = d"
    using assms(2) by (auto simp: holds_def)
  obtain e1 where e1: "Ref (Some i) e = Inr e1" "env_ok (e1, i # hs)" using open_ok [OF assms(1) f(1)] by blast
  obtain f1 where f1: "me_heap e1 i = Some f1" "file_contents f1 = d" "file_ok f1"
    using Ref_keeps [OF e1(1) f(2)] f(3) open_file [OF e1(2), of i] by auto
  obtain p where p: "read_all (MemEnv junk) (i, 0) e1 [] = Some (Inr (OK, d, p))" "fst p = i"
    using read_all_mem [OF f1(1,3), of 0 junk "[]"] f1(2) by auto
  obtain e2 where e2: "file_close i e1 = Inr e2" "env_ok (e2, hs)" using file_close_ok [OF e1(2), of i] by auto
  have "env_NewSequentialFile (MemEnv junk) n e = Inr (OK, Some (i, 0), e1)" "env_delete_sequential (MemEnv junk) p e1 = Inr e2"
    using f(1) e1(1) e2(1) p(2) by (simp_all add: MemEnv_def NewSequentialFile_def)
  then show ?thesis using p(1) e2(2) by (simp add: ReadFileToString_def)
qed

section \<open>Properties\<close>

lemma current_not_temp: "TempFileName db n \<noteq> CurrentFileName db"
proof
  assume "TempFileName db n = CurrentFileName db"
  then have "str ''/'' @ pad6 n @ str ''.'' @ str ''dbtmp'' = str ''/CURRENT''"
    by (simp add: TempFileName_def CurrentFileName_def numbered_name)
  moreover obtain c ds where "pad6 n = c # ds" "48 \<le> c" "c \<le> 57" using pad6_first by blast
  ultimately show False by (auto simp: str_def)
qed



end
