(* ===== verification/Ldb_Version_Edit.thy ===== *)
theory Ldb_Version_Edit
  imports Ldb_Dbformat Ldb_Filename "HOL-Library.Product_Lexorder"
begin

text \<open>
  Changes of the set of tables: db/leveldb/db/version_edit.h and version_edit.cc, with the printed
  form of keys from db/dbformat.cc. A level is a number below 7; an internal key is the string
  \<open>rep_\<close>.
\<close>

section \<open>Data\<close>

definition kNumLevels :: nat where "kNumLevels = 7"

record file_meta =
  fm_refs :: int
  fm_allowed_seeks :: int
  fm_number :: u64
  fm_file_size :: u64
  fm_smallest :: bytes
  fm_largest :: bytes

definition FileMetaData_new :: file_meta where
  "FileMetaData_new = \<lparr>fm_refs = 0, fm_allowed_seeks = 2 ^ 30, fm_number = 0, fm_file_size = 0, fm_smallest = [], fm_largest = []\<rparr>"

text \<open>The container \<open>std::set\<close> of pairs: a list in increasing order without repetition.\<close>

fun set_insert :: "'a::linorder \<Rightarrow> 'a list \<Rightarrow> 'a list" where
  "set_insert x [] = [x]"
| "set_insert x (y # ys) = (if x = y then y # ys else if x < y then x # y # ys else y # set_insert x ys)"

record version_edit =
  ve_comparator :: bytes
  ve_log_number :: u64
  ve_prev_log_number :: u64
  ve_next_file_number :: u64
  ve_last_sequence :: u64
  ve_has_comparator :: bool
  ve_has_log_number :: bool
  ve_has_prev_log_number :: bool
  ve_has_next_file_number :: bool
  ve_has_last_sequence :: bool
  ve_compact_pointers :: "(nat \<times> bytes) list"
  ve_deleted_files :: "(nat \<times> u64) list"
  ve_new_files :: "(nat \<times> file_meta) list"

text \<open>\<open>Clear\<close> leaves the compaction pointers as they are.\<close>

definition edit_Clear :: "version_edit \<Rightarrow> version_edit" where
  "edit_Clear e = e\<lparr>ve_comparator := [], ve_log_number := 0, ve_prev_log_number := 0, ve_next_file_number := 0,
     ve_last_sequence := 0, ve_has_comparator := False, ve_has_log_number := False, ve_has_prev_log_number := False,
     ve_has_next_file_number := False, ve_has_last_sequence := False, ve_deleted_files := [], ve_new_files := []\<rparr>"

definition VersionEdit_new :: version_edit where
  "VersionEdit_new = \<lparr>ve_comparator = [], ve_log_number = 0, ve_prev_log_number = 0, ve_next_file_number = 0,
     ve_last_sequence = 0, ve_has_comparator = False, ve_has_log_number = False, ve_has_prev_log_number = False,
     ve_has_next_file_number = False, ve_has_last_sequence = False, ve_compact_pointers = [], ve_deleted_files = [],
     ve_new_files = []\<rparr>"

definition SetComparatorName :: "bytes \<Rightarrow> version_edit \<Rightarrow> version_edit" where
  "SetComparatorName name e = e\<lparr>ve_has_comparator := True, ve_comparator := name\<rparr>"
definition SetLogNumber :: "u64 \<Rightarrow> version_edit \<Rightarrow> version_edit" where
  "SetLogNumber num e = e\<lparr>ve_has_log_number := True, ve_log_number := num\<rparr>"
definition SetPrevLogNumber :: "u64 \<Rightarrow> version_edit \<Rightarrow> version_edit" where
  "SetPrevLogNumber num e = e\<lparr>ve_has_prev_log_number := True, ve_prev_log_number := num\<rparr>"
definition SetNextFile :: "u64 \<Rightarrow> version_edit \<Rightarrow> version_edit" where
  "SetNextFile num e = e\<lparr>ve_has_next_file_number := True, ve_next_file_number := num\<rparr>"
definition SetLastSequence :: "u64 \<Rightarrow> version_edit \<Rightarrow> version_edit" where
  "SetLastSequence s e = e\<lparr>ve_has_last_sequence := True, ve_last_sequence := s\<rparr>"
definition SetCompactPointer :: "nat \<Rightarrow> bytes \<Rightarrow> version_edit \<Rightarrow> version_edit" where
  "SetCompactPointer level key e = e\<lparr>ve_compact_pointers := ve_compact_pointers e @ [(level, key)]\<rparr>"
definition AddFile :: "nat \<Rightarrow> u64 \<Rightarrow> u64 \<Rightarrow> bytes \<Rightarrow> bytes \<Rightarrow> version_edit \<Rightarrow> version_edit" where
  "AddFile level file file_size smallest largest e =
     (let f = FileMetaData_new\<lparr>fm_number := file, fm_file_size := file_size, fm_smallest := smallest, fm_largest := largest\<rparr>
      in e\<lparr>ve_new_files := ve_new_files e @ [(level, f)]\<rparr>)"
definition edit_DeleteFile :: "nat \<Rightarrow> u64 \<Rightarrow> version_edit \<Rightarrow> version_edit" where
  "edit_DeleteFile level file e = e\<lparr>ve_deleted_files := set_insert (level, file) (ve_deleted_files e)\<rparr>"

section \<open>Encoding\<close>

definition put_field :: "bytes \<Rightarrow> bool \<Rightarrow> u32 \<Rightarrow> u64 \<Rightarrow> bytes" where
  "put_field dst has tag v = (if has then PutVarint64 (PutVarint32 dst tag) v else dst)"

definition put_pointer :: "nat \<times> bytes \<Rightarrow> bytes \<Rightarrow> bytes" where
  "put_pointer p dst = PutLengthPrefixedSlice (PutVarint32 (PutVarint32 dst 5) (of_nat (fst p))) (snd p)"

definition put_deleted :: "nat \<times> u64 \<Rightarrow> bytes \<Rightarrow> bytes" where
  "put_deleted p dst = PutVarint64 (PutVarint32 (PutVarint32 dst 6) (of_nat (fst p))) (snd p)"

definition put_new :: "nat \<times> file_meta \<Rightarrow> bytes \<Rightarrow> bytes" where
  "put_new p dst =
     (let f = snd p;
          d1 = PutVarint32 (PutVarint32 dst 7) (of_nat (fst p));
          d2 = PutVarint64 (PutVarint64 d1 (fm_number f)) (fm_file_size f)
      in PutLengthPrefixedSlice (PutLengthPrefixedSlice d2 (fm_smallest f)) (fm_largest f))"

definition EncodeTo :: "version_edit \<Rightarrow> bytes \<Rightarrow> bytes" where
  "EncodeTo e dst =
     (let d1 = (if ve_has_comparator e then PutLengthPrefixedSlice (PutVarint32 dst 1) (ve_comparator e) else dst);
          d2 = put_field d1 (ve_has_log_number e) 2 (ve_log_number e);
          d3 = put_field d2 (ve_has_prev_log_number e) 9 (ve_prev_log_number e);
          d4 = put_field d3 (ve_has_next_file_number e) 3 (ve_next_file_number e);
          d5 = put_field d4 (ve_has_last_sequence e) 4 (ve_last_sequence e);
          d6 = fold put_pointer (ve_compact_pointers e) d5;
          d7 = fold put_deleted (ve_deleted_files e) d6
      in fold put_new (ve_new_files e) d7)"

section \<open>Decoding\<close>

text \<open>A parser returns its value and what is left of the input; a chain of them stops at the first failure.\<close>

definition GetInternalKey :: "bytes \<Rightarrow> (bytes \<times> bytes) option" where
  "GetInternalKey input = GetLengthPrefixedSlice input"

definition GetLevel :: "bytes \<Rightarrow> (nat \<times> bytes) option" where
  "GetLevel input = (case GetVarint32 input of None \<Rightarrow> None
     | Some (v, rest) \<Rightarrow> if unat v < kNumLevels then Some (unat v, rest) else None)"

definition then_parse :: "('a \<times> bytes) option \<Rightarrow> ('a \<Rightarrow> bytes \<Rightarrow> 'b option) \<Rightarrow> 'b option" where
  "then_parse p f = (case p of None \<Rightarrow> None | Some (x, rest) \<Rightarrow> f x rest)"

definition or_msg :: "string \<Rightarrow> 'a option \<Rightarrow> string + 'a" where
  "or_msg msg r = (case r of None \<Rightarrow> Inl msg | Some x \<Rightarrow> Inr x)"

definition decode_field :: "u32 \<Rightarrow> bytes \<Rightarrow> version_edit \<Rightarrow> string + (bytes \<times> version_edit)" where
  "decode_field tag input e =
     (if tag = 1 then or_msg ''comparator name'' (then_parse (GetLengthPrefixedSlice input) (\<lambda>s rest.
        Some (rest, e\<lparr>ve_comparator := s, ve_has_comparator := True\<rparr>)))
      else if tag = 2 then or_msg ''log number'' (then_parse (GetVarint64 input) (\<lambda>n rest.
        Some (rest, e\<lparr>ve_log_number := n, ve_has_log_number := True\<rparr>)))
      else if tag = 9 then or_msg ''previous log number'' (then_parse (GetVarint64 input) (\<lambda>n rest.
        Some (rest, e\<lparr>ve_prev_log_number := n, ve_has_prev_log_number := True\<rparr>)))
      else if tag = 3 then or_msg ''next file number'' (then_parse (GetVarint64 input) (\<lambda>n rest.
        Some (rest, e\<lparr>ve_next_file_number := n, ve_has_next_file_number := True\<rparr>)))
      else if tag = 4 then or_msg ''last sequence number'' (then_parse (GetVarint64 input) (\<lambda>n rest.
        Some (rest, e\<lparr>ve_last_sequence := n, ve_has_last_sequence := True\<rparr>)))
      else if tag = 5 then or_msg ''compaction pointer'' (then_parse (GetLevel input) (\<lambda>level r1.
        then_parse (GetInternalKey r1) (\<lambda>key rest.
        Some (rest, e\<lparr>ve_compact_pointers := ve_compact_pointers e @ [(level, key)]\<rparr>))))
      else if tag = 6 then or_msg ''deleted file'' (then_parse (GetLevel input) (\<lambda>level r1.
        then_parse (GetVarint64 r1) (\<lambda>number rest.
        Some (rest, e\<lparr>ve_deleted_files := set_insert (level, number) (ve_deleted_files e)\<rparr>))))
      else if tag = 7 then or_msg ''new-file entry'' (then_parse (GetLevel input) (\<lambda>level r1.
        then_parse (GetVarint64 r1) (\<lambda>number r2. then_parse (GetVarint64 r2) (\<lambda>file_size r3.
        then_parse (GetInternalKey r3) (\<lambda>smallest r4. then_parse (GetInternalKey r4) (\<lambda>largest rest.
          let f = FileMetaData_new\<lparr>fm_number := number, fm_file_size := file_size, fm_smallest := smallest, fm_largest := largest\<rparr>
          in Some (rest, e\<lparr>ve_new_files := ve_new_files e @ [(level, f)]\<rparr>)))))))
      else Inl ''unknown tag'')"

lemma then_parse_Some: "then_parse p f = Some y \<longleftrightarrow> (\<exists>x rest. p = Some (x, rest) \<and> f x rest = Some y)"
  by (auto simp: then_parse_def split: option.splits)

lemma or_msg_Inr: "or_msg msg r = Inr x \<longleftrightarrow> r = Some x"
  by (auto simp: or_msg_def split: option.splits)

lemma parse_shorter:
  "GetVarint32 p = Some (v, q) \<Longrightarrow> length q < length p" "GetVarint64 p = Some (n, q) \<Longrightarrow> length q < length p"
  "GetLengthPrefixedSlice p = Some (s, q) \<Longrightarrow> length q < length p" "GetInternalKey p = Some (s, q) \<Longrightarrow> length q < length p"
  "GetLevel p = Some (l, q) \<Longrightarrow> length q < length p"
  by (auto simp: GetInternalKey_def GetLevel_def split: option.splits if_splits
      dest!: GetVarint32_suffix GetVarint64_suffix GetLengthPrefixedSlice_suffix)

lemma decode_field_shorter: "decode_field tag input e = Inr (rest, e') \<Longrightarrow> length rest < length input"
  by (auto simp: decode_field_def or_msg_Inr then_parse_Some Let_def split: if_splits dest!: parse_shorter)

function decode_loop :: "bytes \<Rightarrow> version_edit \<Rightarrow> (string option \<times> bytes \<times> version_edit)" where
  "decode_loop input e =
     (case GetVarint32 input of None \<Rightarrow> (None, input, e)
      | Some (tag, r1) \<Rightarrow>
          (case decode_field tag r1 e of Inl msg \<Rightarrow> (Some msg, r1, e)
           | Inr (r2, e') \<Rightarrow> decode_loop r2 e'))"
  by pat_completeness auto
termination
  by (relation "measure (\<lambda>(input, e). length input)") (auto dest!: decode_field_shorter parse_shorter(1))

declare decode_loop.simps [simp del]

definition DecodeFrom :: "bytes \<Rightarrow> version_edit \<Rightarrow> status \<times> version_edit" where
  "DecodeFrom src e =
     (case decode_loop src (edit_Clear e) of (msg, input, e') \<Rightarrow>
        (let msg' = (if msg = None \<and> input \<noteq> [] then Some ''invalid tag'' else msg)
         in (case msg' of None \<Rightarrow> (OK, e') | Some m \<Rightarrow> (Corruption (str ''VersionEdit'') (str m), e'))))"

section \<open>Printed form\<close>

definition parsed_DebugString :: "parsed_key \<Rightarrow> bytes" where
  "parsed_DebugString k =
     (let buf = take 49 (str [CHR 0x27, CHR '' ''] @ str ''@ '' @ decimal (unat (seqno k)) @ str '' : '' @ decimal (unat (type_byte (key_type k))))
      in str [CHR 0x27] @ EscapeString (user_key k) @ buf)"

definition ikey_DebugString :: "bytes \<Rightarrow> bytes" where
  "ikey_DebugString rep = (case ParseInternalKey rep of
       Some parsed \<Rightarrow> parsed_DebugString parsed | None \<Rightarrow> str ''(bad)'' @ EscapeString rep)"

definition newline :: bytes where "newline = [10]"

definition show_field :: "string \<Rightarrow> bool \<Rightarrow> u64 \<Rightarrow> bytes \<Rightarrow> bytes" where
  "show_field name has v r = (if has then AppendNumberTo (r @ newline @ str name) v else r)"

definition show_pointer :: "nat \<times> bytes \<Rightarrow> bytes \<Rightarrow> bytes" where
  "show_pointer p r = AppendNumberTo (r @ newline @ str ''  CompactPointer: '') (of_nat (fst p)) @ str '' '' @ ikey_DebugString (snd p)"

definition show_deleted :: "nat \<times> u64 \<Rightarrow> bytes \<Rightarrow> bytes" where
  "show_deleted p r = AppendNumberTo (AppendNumberTo (r @ newline @ str ''  DeleteFile: '') (of_nat (fst p)) @ str '' '') (snd p)"

definition show_new :: "nat \<times> file_meta \<Rightarrow> bytes \<Rightarrow> bytes" where
  "show_new p r =
     (let f = snd p;
          r1 = AppendNumberTo (r @ newline @ str ''  AddFile: '') (of_nat (fst p));
          r2 = AppendNumberTo (r1 @ str '' '') (fm_number f);
          r3 = AppendNumberTo (r2 @ str '' '') (fm_file_size f)
      in r3 @ str '' '' @ ikey_DebugString (fm_smallest f) @ str '' .. '' @ ikey_DebugString (fm_largest f))"

definition edit_DebugString :: "version_edit \<Rightarrow> bytes" where
  "edit_DebugString e =
     (let r0 = str ''VersionEdit {'';
          r1 = (if ve_has_comparator e then r0 @ newline @ str ''  Comparator: '' @ ve_comparator e else r0);
          r2 = show_field ''  LogNumber: '' (ve_has_log_number e) (ve_log_number e) r1;
          r3 = show_field ''  PrevLogNumber: '' (ve_has_prev_log_number e) (ve_prev_log_number e) r2;
          r4 = show_field ''  NextFile: '' (ve_has_next_file_number e) (ve_next_file_number e) r3;
          r5 = show_field ''  LastSeq: '' (ve_has_last_sequence e) (ve_last_sequence e) r4;
          r6 = fold show_pointer (ve_compact_pointers e) r5;
          r7 = fold show_deleted (ve_deleted_files e) r6
      in fold show_new (ve_new_files e) r7 @ newline @ str ''}'' @ newline)"

section \<open>Well-formed edits\<close>

text \<open>
  A field without its flag has its default, levels are below \<open>kNumLevels\<close>, strings have a 32-bit
  length, the deleted files are in order, and the files are as the constructor leaves them.
\<close>

definition small :: "bytes \<Rightarrow> bool" where "small s \<longleftrightarrow> length s < 2 ^ 32"

definition new_file_ok :: "nat \<times> file_meta \<Rightarrow> bool" where
  "new_file_ok p \<longleftrightarrow> fst p < kNumLevels \<and> fm_refs (snd p) = 0 \<and> fm_allowed_seeks (snd p) = 2 ^ 30 \<and>
     small (fm_smallest (snd p)) \<and> small (fm_largest (snd p))"

definition edit_ok :: "version_edit \<Rightarrow> bool" where
  "edit_ok e \<longleftrightarrow>
     small (ve_comparator e) \<and> (ve_has_comparator e \<or> ve_comparator e = []) \<and>
     (ve_has_log_number e \<or> ve_log_number e = 0) \<and> (ve_has_prev_log_number e \<or> ve_prev_log_number e = 0) \<and>
     (ve_has_next_file_number e \<or> ve_next_file_number e = 0) \<and> (ve_has_last_sequence e \<or> ve_last_sequence e = 0) \<and>
     list_all (\<lambda>p. fst p < kNumLevels \<and> small (snd p)) (ve_compact_pointers e) \<and>
     sorted_wrt (<) (ve_deleted_files e) \<and> list_all (\<lambda>p. fst p < kNumLevels) (ve_deleted_files e) \<and>
     list_all new_file_ok (ve_new_files e)"

lemma set_insert_set [simp]: "set (set_insert x xs) = insert x (set xs)"
  by (induction xs) auto

lemma set_insert_sorted [simp]: "sorted_wrt (<) xs \<Longrightarrow> sorted_wrt (<) (set_insert (x::'a::linorder) xs)"
  by (induction xs) auto

lemma set_insert_last: "\<forall>y\<in>set xs. y < x \<Longrightarrow> set_insert x xs = xs @ [x::'a::linorder]"
  by (induction xs) auto

lemma set_insert_fold:
  "sorted_wrt (<) (xs @ ys) \<Longrightarrow> fold set_insert ys xs = xs @ (ys::'a::linorder list)"
proof (induction ys arbitrary: xs)
  case (Cons y ys)
  then show ?case using Cons.IH [of "xs @ [y]"] by (simp add: set_insert_last sorted_wrt_append)
qed simp

named_theorems edit_simps

lemma edit_setters_ok [edit_simps]:
  "edit_ok VersionEdit_new" "edit_ok e \<Longrightarrow> edit_ok (edit_Clear e)"
  "edit_ok e \<Longrightarrow> small name \<Longrightarrow> edit_ok (SetComparatorName name e)"
  "edit_ok e \<Longrightarrow> edit_ok (SetLogNumber num e)" "edit_ok e \<Longrightarrow> edit_ok (SetPrevLogNumber num e)"
  "edit_ok e \<Longrightarrow> edit_ok (SetNextFile num e)" "edit_ok e \<Longrightarrow> edit_ok (SetLastSequence num e)"
  "edit_ok e \<Longrightarrow> level < kNumLevels \<Longrightarrow> small key \<Longrightarrow> edit_ok (SetCompactPointer level key e)"
  "edit_ok e \<Longrightarrow> level < kNumLevels \<Longrightarrow> small key \<Longrightarrow> small key' \<Longrightarrow> edit_ok (AddFile level file file_size key key' e)"
  "edit_ok e \<Longrightarrow> level < kNumLevels \<Longrightarrow> edit_ok (edit_DeleteFile level file e)"
  by (simp_all add: edit_ok_def VersionEdit_new_def edit_Clear_def SetComparatorName_def SetLogNumber_def
      SetPrevLogNumber_def SetNextFile_def SetLastSequence_def SetCompactPointer_def AddFile_def edit_DeleteFile_def
      Let_def list_all_iff new_file_ok_def FileMetaData_new_def small_def)

section \<open>What decoding builds\<close>

lemma decoded_small:
  "GetLengthPrefixedSlice p = Some (s, q) \<Longrightarrow> small s" "GetInternalKey p = Some (s, q) \<Longrightarrow> small s"
  using unsigned_less [of "_ :: u32", where 'a = nat]
  by (auto simp: GetInternalKey_def GetLengthPrefixedSlice_def small_def min_def split: option.splits if_splits)

lemma decoded_level: "GetLevel p = Some (l, q) \<Longrightarrow> l < kNumLevels"
  by (auto simp: GetLevel_def split: option.splits if_splits)

lemma edit_swap:
  "e\<lparr>ve_comparator := s, ve_has_comparator := True\<rparr> = SetComparatorName s e"
  "e\<lparr>ve_log_number := n, ve_has_log_number := True\<rparr> = SetLogNumber n e"
  "e\<lparr>ve_prev_log_number := n, ve_has_prev_log_number := True\<rparr> = SetPrevLogNumber n e"
  "e\<lparr>ve_next_file_number := n, ve_has_next_file_number := True\<rparr> = SetNextFile n e"
  "e\<lparr>ve_last_sequence := n, ve_has_last_sequence := True\<rparr> = SetLastSequence n e"
  by (cases e; simp add: SetComparatorName_def SetLogNumber_def SetPrevLogNumber_def SetNextFile_def SetLastSequence_def)+

lemma decode_field_ok:
  assumes f: "decode_field tag input e = Inr (rest, e')" and ok: "edit_ok e"
  shows "edit_ok e'"
proof -
  have "tag \<in> {1, 2, 9, 3, 4, 5, 6, 7}"
    using f by (auto simp: decode_field_def split: if_splits)
  then consider "tag = 1" | "tag \<in> {2, 9, 3, 4}" | "tag = 5" | "tag = 6" | "tag = 7" by blast
  then show ?thesis
  proof cases
    case 1
    then obtain s where "GetLengthPrefixedSlice input = Some (s, rest)" "e' = SetComparatorName s e"
      using f by (auto simp: decode_field_def or_msg_Inr then_parse_Some edit_swap)
    then show ?thesis using ok by (simp add: edit_simps decoded_small)
  next
    case 2
    then show ?thesis using f ok by (auto simp: decode_field_def or_msg_Inr then_parse_Some edit_swap edit_simps)
  next
    case 3
    then obtain l k r1 where "GetLevel input = Some (l, r1)" "GetInternalKey r1 = Some (k, rest)" "e' = SetCompactPointer l k e"
      using f by (auto simp: decode_field_def or_msg_Inr then_parse_Some SetCompactPointer_def)
    then show ?thesis using ok by (simp add: edit_simps decoded_small decoded_level)
  next
    case 4
    then obtain l n r1 where "GetLevel input = Some (l, r1)" "e' = edit_DeleteFile l n e"
      using f by (auto simp: decode_field_def or_msg_Inr then_parse_Some edit_DeleteFile_def)
    then show ?thesis using ok by (simp add: edit_simps decoded_level)
  next
    case 5
    then obtain l n sz a b r1 r3 r4 where "GetLevel input = Some (l, r1)" "GetInternalKey r3 = Some (a, r4)"
      "GetInternalKey r4 = Some (b, rest)" "e' = AddFile l n sz a b e"
      using f by (auto simp: decode_field_def or_msg_Inr then_parse_Some AddFile_def Let_def)
    then show ?thesis using ok by (simp add: edit_simps decoded_small decoded_level)
  qed
qed

lemma decode_loop_ok: "edit_ok e \<Longrightarrow> edit_ok (snd (snd (decode_loop input e)))"
proof (induction input e rule: decode_loop.induct)
  case (1 input e)
  show ?case
  proof (cases "GetVarint32 input")
    case None
    then show ?thesis using "1.prems" by (subst decode_loop.simps) simp
  next
    case (Some p)
    obtain tag r1 where p: "p = (tag, r1)" by force
    show ?thesis
    proof (cases "decode_field tag r1 e")
      case (Inl msg)
      then show ?thesis using Some p "1.prems" by (subst decode_loop.simps) simp
    next
      case (Inr q)
      obtain r2 e' where q: "q = (r2, e')" by force
      have "edit_ok e'" using decode_field_ok Inr q "1.prems" by blast
      then show ?thesis
        using "1.IH" [OF Some p [symmetric] Inr q [symmetric]] Some p Inr q by (subst decode_loop.simps) simp
    qed
  qed
qed

lemma DecodeFrom_ok: "edit_ok e \<Longrightarrow> edit_ok (snd (DecodeFrom src e))"
  using decode_loop_ok [OF edit_setters_ok(2), of e src]
  by (auto simp: DecodeFrom_def Let_def split: prod.splits option.splits)

section \<open>Reading an encoded edit\<close>

lemma put_append:
  "PutVarint32 dst v = dst @ EncodeVarint32 v" "PutVarint64 dst n = dst @ EncodeVarint64 n"
  by (simp_all add: PutVarint32_def PutVarint64_def)

lemma put_fields_append:
  "put_field dst has tag v = dst @ put_field [] has tag v" "put_pointer p dst = dst @ put_pointer p []"
  "put_deleted q dst = dst @ put_deleted q []" "put_new r dst = dst @ put_new r []"
  by (simp_all add: put_field_def put_pointer_def put_deleted_def put_new_def put_append PutLengthPrefixedSlice_def Let_def)

lemma fold_append: "(\<And>p dst. f p dst = dst @ f p []) \<Longrightarrow> fold f ps dst = dst @ concat (map (\<lambda>p. f p []) ps)"
proof (induction ps arbitrary: dst)
  case (Cons p ps)
  have "fold f (p # ps) dst = f p dst @ concat (map (\<lambda>p. f p []) ps)"
    unfolding fold_simps by (rule Cons.IH [OF Cons.prems])
  also have "f p dst = dst @ f p []" by (rule Cons.prems)
  finally show ?case by simp
next
  case Nil
  show ?case by simp
qed

lemma decode_loop_tag:
  "decode_loop (EncodeVarint32 tag @ r) e =
     (case decode_field tag r e of Inl msg \<Rightarrow> (Some msg, r, e) | Inr (r2, e') \<Rightarrow> decode_loop r2 e')"
  by (subst decode_loop.simps) (simp add: codec_simps)

lemma GetLevel_Encode: "l < kNumLevels \<Longrightarrow> GetLevel (EncodeVarint32 (of_nat l) @ rest) = Some (l, rest)"
  by (simp add: GetLevel_def codec_simps kNumLevels_def unat_of_nat_u32)

lemma GetInternalKey_Put: "small k \<Longrightarrow> GetInternalKey (PutLengthPrefixedSlice [] k @ rest) = Some (k, rest)"
  by (simp add: GetInternalKey_def small_def codec_simps)

lemmas field_simps = decode_loop_tag decode_field_def then_parse_def or_msg_def codec_simps GetLevel_Encode GetInternalKey_Put
  put_append

lemma decode_put_field:
  "tag = 2 \<Longrightarrow> decode_loop (put_field [] has tag v @ r) e = decode_loop r (if has then SetLogNumber v e else e)"
  "tag = 9 \<Longrightarrow> decode_loop (put_field [] has tag v @ r) e = decode_loop r (if has then SetPrevLogNumber v e else e)"
  "tag = 3 \<Longrightarrow> decode_loop (put_field [] has tag v @ r) e = decode_loop r (if has then SetNextFile v e else e)"
  "tag = 4 \<Longrightarrow> decode_loop (put_field [] has tag v @ r) e = decode_loop r (if has then SetLastSequence v e else e)"
  by (simp_all add: put_field_def field_simps edit_swap)

lemma decode_comparator:
  "small s \<Longrightarrow> decode_loop (PutLengthPrefixedSlice (PutVarint32 [] 1) s @ r) e = decode_loop r (SetComparatorName s e)"
  by (subst PutLengthPrefixedSlice_append) (simp add: field_simps small_def edit_swap)

lemma decode_pointers:
  "list_all (\<lambda>p. fst p < kNumLevels \<and> small (snd p)) ps \<Longrightarrow>
   decode_loop (concat (map (\<lambda>p. put_pointer p []) ps) @ r) e = decode_loop r (e\<lparr>ve_compact_pointers := ve_compact_pointers e @ ps\<rparr>)"
proof (induction ps arbitrary: e)
  case (Cons p ps)
  have "put_pointer p [] = EncodeVarint32 5 @ EncodeVarint32 (of_nat (fst p)) @ PutLengthPrefixedSlice [] (snd p)"
    unfolding put_pointer_def put_append by (subst PutLengthPrefixedSlice_append) simp
  then show ?case using Cons by (simp add: field_simps)
qed simp

lemma decode_deleted:
  "list_all (\<lambda>p. fst p < kNumLevels) ds \<Longrightarrow>
   decode_loop (concat (map (\<lambda>p. put_deleted p []) ds) @ r) e =
     decode_loop r (e\<lparr>ve_deleted_files := fold set_insert ds (ve_deleted_files e)\<rparr>)"
  by (induction ds arbitrary: e) (simp_all add: put_deleted_def field_simps)

lemma decode_new_files:
  "list_all new_file_ok fs \<Longrightarrow>
   decode_loop (concat (map (\<lambda>p. put_new p []) fs) @ r) e = decode_loop r (e\<lparr>ve_new_files := ve_new_files e @ fs\<rparr>)"
proof (induction fs arbitrary: e)
  case (Cons p fs)
  have enc: "put_new p [] = EncodeVarint32 7 @ EncodeVarint32 (of_nat (fst p)) @ EncodeVarint64 (fm_number (snd p)) @
      EncodeVarint64 (fm_file_size (snd p)) @ PutLengthPrefixedSlice [] (fm_smallest (snd p)) @
      PutLengthPrefixedSlice [] (fm_largest (snd p))"
    unfolding put_new_def put_append Let_def
    by (subst PutLengthPrefixedSlice_append, subst PutLengthPrefixedSlice_append) simp
  have "FileMetaData_new\<lparr>fm_number := fm_number (snd p), fm_file_size := fm_file_size (snd p),
      fm_smallest := fm_smallest (snd p), fm_largest := fm_largest (snd p)\<rparr> = snd p"
    using Cons.prems by (simp add: new_file_ok_def FileMetaData_new_def)
  then show ?case using Cons by (simp add: enc field_simps new_file_ok_def)
qed simp

lemma decode_loop_nil: "decode_loop [] e = (None, [], e)"
  by (subst decode_loop.simps) (simp add: GetVarint32_def GetVarint32Ptr_def GetVarint32PtrFallback_def)

lemma EncodeTo_parts:
  "EncodeTo e dst = dst @ (if ve_has_comparator e then PutLengthPrefixedSlice (PutVarint32 [] 1) (ve_comparator e) else []) @
     put_field [] (ve_has_log_number e) 2 (ve_log_number e) @ put_field [] (ve_has_prev_log_number e) 9 (ve_prev_log_number e) @
     put_field [] (ve_has_next_file_number e) 3 (ve_next_file_number e) @ put_field [] (ve_has_last_sequence e) 4 (ve_last_sequence e) @
     concat (map (\<lambda>p. put_pointer p []) (ve_compact_pointers e)) @ concat (map (\<lambda>p. put_deleted p []) (ve_deleted_files e)) @
     concat (map (\<lambda>p. put_new p []) (ve_new_files e))"
proof -
  let ?c = "ve_comparator e"
  have c: "(if ve_has_comparator e then PutLengthPrefixedSlice (PutVarint32 dst 1) ?c else dst) =
      dst @ (if ve_has_comparator e then PutLengthPrefixedSlice (PutVarint32 [] 1) ?c else [])"
    using PutLengthPrefixedSlice_append [of "PutVarint32 dst 1" ?c] PutLengthPrefixedSlice_append [of "PutVarint32 [] 1" ?c]
    by (simp add: put_append)
  note f = put_fields_append(1) [where dst = "xs @ ys" for xs ys]
  note g = fold_append [of put_pointer, OF put_fields_append(2)] fold_append [of put_deleted, OF put_fields_append(3)]
    fold_append [of put_new, OF put_fields_append(4)]
  show ?thesis unfolding EncodeTo_def Let_def c g by (simp add: f)
qed

lemma set_if:
  "(if h then SetComparatorName s a else a) = a\<lparr>ve_has_comparator := h \<or> ve_has_comparator a, ve_comparator := (if h then s else ve_comparator a)\<rparr>"
  "(if h then SetLogNumber n a else a) = a\<lparr>ve_has_log_number := h \<or> ve_has_log_number a, ve_log_number := (if h then n else ve_log_number a)\<rparr>"
  "(if h then SetPrevLogNumber n a else a) =
     a\<lparr>ve_has_prev_log_number := h \<or> ve_has_prev_log_number a, ve_prev_log_number := (if h then n else ve_prev_log_number a)\<rparr>"
  "(if h then SetNextFile n a else a) =
     a\<lparr>ve_has_next_file_number := h \<or> ve_has_next_file_number a, ve_next_file_number := (if h then n else ve_next_file_number a)\<rparr>"
  "(if h then SetLastSequence n a else a) =
     a\<lparr>ve_has_last_sequence := h \<or> ve_has_last_sequence a, ve_last_sequence := (if h then n else ve_last_sequence a)\<rparr>"
  by (simp_all add: SetComparatorName_def SetLogNumber_def SetPrevLogNumber_def SetNextFile_def SetLastSequence_def)

lemma decode_encoded:
  assumes "edit_ok e"
  shows "decode_loop (EncodeTo e []) (edit_Clear e0) =
    (None, [], e\<lparr>ve_compact_pointers := ve_compact_pointers e0 @ ve_compact_pointers e\<rparr>)"
proof -
  define a1 where "a1 = (if ve_has_comparator e then SetComparatorName (ve_comparator e) (edit_Clear e0) else edit_Clear e0)"
  define a2 where "a2 = (if ve_has_log_number e then SetLogNumber (ve_log_number e) a1 else a1)"
  define a3 where "a3 = (if ve_has_prev_log_number e then SetPrevLogNumber (ve_prev_log_number e) a2 else a2)"
  define a4 where "a4 = (if ve_has_next_file_number e then SetNextFile (ve_next_file_number e) a3 else a3)"
  define a5 where "a5 = (if ve_has_last_sequence e then SetLastSequence (ve_last_sequence e) a4 else a4)"
  have c: "decode_loop ((if ve_has_comparator e then PutLengthPrefixedSlice (PutVarint32 [] 1) (ve_comparator e) else []) @ r)
      (edit_Clear e0) = decode_loop r a1" for r
    using assms by (simp add: decode_comparator edit_ok_def a1_def)
  have l: "list_all (\<lambda>p. fst p < kNumLevels \<and> small (snd p)) (ve_compact_pointers e)"
    "list_all (\<lambda>p. fst p < kNumLevels) (ve_deleted_files e)" "list_all new_file_ok (ve_new_files e)"
    "sorted_wrt (<) (ve_deleted_files e)"
    using assms by (simp_all add: edit_ok_def)
  have "decode_loop (EncodeTo e []) (edit_Clear e0) = (None, [],
      a5\<lparr>ve_compact_pointers := ve_compact_pointers a5 @ ve_compact_pointers e,
          ve_deleted_files := fold set_insert (ve_deleted_files e) (ve_deleted_files a5),
          ve_new_files := ve_new_files a5 @ ve_new_files e\<rparr>)"
    unfolding EncodeTo_parts append.left_neutral c decode_put_field [OF refl] a2_def [symmetric] a3_def [symmetric]
      a4_def [symmetric] a5_def [symmetric] decode_pointers [OF l(1)] decode_deleted [OF l(2)]
    using decode_new_files [OF l(3), of "[]"] by (simp add: decode_loop_nil)
  also have "a5 = e\<lparr>ve_compact_pointers := ve_compact_pointers e0, ve_deleted_files := [], ve_new_files := []\<rparr>"
    using assms unfolding a5_def a4_def a3_def a2_def a1_def edit_ok_def edit_Clear_def set_if
    by (intro version_edit.equality) auto
  finally show ?thesis using set_insert_fold [of "[]" "ve_deleted_files e"] l(4) by simp
qed

section \<open>Properties\<close>


definition sample_edit :: version_edit where
  "sample_edit = AddFile 2 7 4096 (ikey (str ''a'') 3 kTypeValue) (ikey (str ''b'') 9 kTypeDeletion)
     (edit_DeleteFile 1 5 (SetCompactPointer 1 (ikey (str ''k'') 4 kTypeValue) (SetLogNumber 12 VersionEdit_new)))"

lemma sample_edit_ok: "edit_ok sample_edit"
  unfolding sample_edit_def
  by (intro edit_setters_ok) (simp_all add: kNumLevels_def small_def)




end
