(* ===== verification/Spec2Isabelle.thy ===== *)
theory Spec2Isabelle
  imports Net_Work My_DB Net_Ipc Ldb_Skiplist_Concurrent Ldb_Write_Batch Ldb_Block_Correct Ldb_Two_Level Ldb_Format Ldb_Filter_Block Ldb_Log_Correct Ldb_Env Ldb_Version_Edit
begin

text \<open>
  \<^bold>\<open>Verification of libnet.\<close> The repository holds an epoll server under \<^verbatim>\<open>src/net\<close> and \<^verbatim>\<open>src/base\<close>, a
  MySQL client under \<^verbatim>\<open>src/db/mysql\<close>, and the key-value store LevelDB under \<^verbatim>\<open>src/db/leveldb\<close>. Each
  theory of this library models one part of it and proves what makes the part correct; where the code
  does something else than it means to, the theorem states what it does.

  \<^bold>\<open>Conventions.\<close> A struct or class is a \<^theory_text>\<open>record\<close>, an enum a \<^theory_text>\<open>datatype\<close>, a byte string a list of
  8-bit words; a 32-bit or 64-bit integer is a word where its width matters and a natural number
  where it does not. A pointer is an index or an offset. A function that can fail returns a sum: on the
  left what C++ leaves undefined or an assertion forbids (\<open>mem_error\<close> of \<open>Net_Prelude\<close>: a byte outside an
  object, a null or dangling pointer, a value never set, a failed assertion), on the right the result.
  So a theorem with a result on the right says that the code stays inside its objects. A loop that may
  not end is \<open>run_loop\<close>, \<open>while_run\<close> (\<open>Ldb_Loop\<close>) or an option-valued recursion, where \<open>None\<close> stands
  for not returning; theorems say that it returns. Virtual functions are the fields of a record over the type of
  the objects (\<open>writable_file\<close>, \<open>sequential_file\<close>, \<open>random_file\<close>, \<open>env_ops\<close>, \<open>comparator\<close>, \<open>filter_policy\<close>,
  \<open>iterator\<close>), what a client relies on is a locale over it (\<open>reliable_writable\<close>, \<open>reliable_sequential\<close>,
  \<open>reliable_random\<close>, \<open>comparator_laws\<close>, \<open>user_comparator\<close>, \<open>filter_policy_laws\<close>, \<open>codec\<close>, \<open>cursor\<close>,
  \<open>two_levels\<close>, \<open>key_order\<close>), and the classes of the program are its interpretations. \<open>inv_system\<close> is the
  locale of transition systems with an invariant. System calls and third-party libraries (the kernel,
  MySQL, snappy) are parameters.

  \<^bold>\<open>The server.\<close>
  \<^item> \<open>Net_Prelude\<close>: words, memory primitives, results, invariants of transition systems.
  \<^item> \<open>Net_Buffer\<close> models \<^verbatim>\<open>base/buffer.cpp\<close>: a message put into a buffer is read back.
  \<^item> \<open>Net_Thread_Pool\<close> models \<^verbatim>\<open>base/thread_pool.h\<close> and \<^verbatim>\<open>base/locker.h\<close> as a step relation of producers
    and workers: requests are handled once and in order, no wake-up is lost, the queue is bounded.
  \<^item> \<open>Net_Sys\<close> is the interface of the kernel; \<open>Net_Socket_Util\<close> models \<^verbatim>\<open>base/socket_util.cpp\<close>: exact reads
    and writes over a kernel that delivers in pieces and interrupts, and the line reader.
  \<^item> \<open>Net_Tcp_Socket\<close> and \<open>Net_Task_Pool\<close> model \<^verbatim>\<open>net/tcp_socket.cpp\<close> and \<^verbatim>\<open>net/tcp_task_pool.cpp\<close>: the
    connection object, the table of connections and its invariant, the events for the application.
  \<^item> \<open>Net_Work\<close> models \<^verbatim>\<open>net/net_work.cpp\<close> and the echo loop of \<^verbatim>\<open>net/main.cpp\<close>: a batch of events is a
    sequence of table operations.
  \<^item> \<open>My_DB\<close> models \<^verbatim>\<open>db/mysql/db_mysql.cpp\<close>, \<open>Net_Ipc\<close> models \<^verbatim>\<open>base/ipc_sem.c\<close>, \<^verbatim>\<open>base/ipc_shm.c\<close> and
    \<^verbatim>\<open>base/timex.cpp\<close>.

  \<^bold>\<open>The store, bottom up.\<close> Paths are relative to \<^verbatim>\<open>src/db/leveldb\<close>.
  \<^item> \<open>Ldb_Coding\<close> (\<^verbatim>\<open>util/coding\<close>), \<open>Ldb_Comparator\<close> (\<^verbatim>\<open>slice.h\<close>, \<^verbatim>\<open>util/comparator.cc\<close>), \<open>Ldb_Dbformat\<close>
    (\<^verbatim>\<open>db/dbformat\<close>), \<open>Ldb_Status\<close>, \<open>Ldb_Random\<close>, \<open>Ldb_Filename\<close> (\<^verbatim>\<open>db/filename\<close>, \<^verbatim>\<open>util/logging\<close>): encodings
    and their round trips, the orders of user and internal keys, names of files.
  \<^item> \<open>Ldb_Crc_Table\<close>, \<open>Ldb_Crc32c\<close> (\<^verbatim>\<open>util/crc32c.cc\<close>): the table-driven checksum is polynomial division.
  \<^item> \<open>Ldb_Filter\<close>, \<open>Ldb_Filter_Block\<close> (\<^verbatim>\<open>util/hash.cc\<close>, \<^verbatim>\<open>util/bloom.cc\<close>, \<^verbatim>\<open>table/filter_block.cc\<close>): filters
    have no false negatives.
  \<^item> \<open>Ldb_Memfile\<close>, \<open>Ldb_Memenv\<close>, \<open>Ldb_Env\<close> (\<^verbatim>\<open>helpers/memenv/memenv.cc\<close>, \<^verbatim>\<open>util/env.cc\<close>): files in memory
    refine strings; in every reachable state of the environment no object is used after it is deleted.
  \<^item> \<open>Ldb_Log\<close>, \<open>Ldb_Log_Correct\<close> (\<^verbatim>\<open>db/log_writer.cc\<close>, \<^verbatim>\<open>db/log_reader.cc\<close>): what is logged is read back from
    every prefix of the file; reading ends whatever the file holds.
  \<^item> \<open>Ldb_Version_Edit\<close> (\<^verbatim>\<open>db/version_edit.cc\<close>): edits are read back, decoding keeps them well-formed.
  \<^item> \<open>Ldb_Arena\<close>, \<open>Ldb_Skiplist\<close>, \<open>Ldb_Skiplist_Correct\<close>, \<open>Ldb_Skiplist_Insert\<close>, \<open>Ldb_Skiplist_Concurrent\<close>,
    \<open>Ldb_Memtable\<close>, \<open>Ldb_Write_Batch\<close> (\<^verbatim>\<open>util/arena.cc\<close>, \<^verbatim>\<open>db/skiplist.h\<close>, \<^verbatim>\<open>db/memtable.cc\<close>,
    \<^verbatim>\<open>db/write_batch.cc\<close>): allocations are disjoint; the list is sorted and searches are right, also while a key
    is inserted store by store; a read at a snapshot sees the newest version; a batch becomes versions.
  \<^item> \<open>Ldb_Iterator\<close>, \<open>Ldb_Block\<close>, \<open>Ldb_Block_Correct\<close>, \<open>Ldb_Format\<close>, \<open>Ldb_Two_Level\<close> (\<^verbatim>\<open>table/iterator\<close>,
    \<^verbatim>\<open>table/block_builder.cc\<close>, \<^verbatim>\<open>table/block.cc\<close>, \<^verbatim>\<open>table/format.cc\<close>, \<^verbatim>\<open>table/two_level_iterator.cc\<close>): a
    block is read back in both directions and from any target; a two-level iterator over cursors is a cursor.

  \<^bold>\<open>Bounds and fuel.\<close> Loops of the source are structural recursions, functions with a termination proof, or
  option-valued loops; the fuel arguments that remain (\<open>read_log\<close>, \<open>read_from\<close>, \<open>read_back\<close>) belong to
  functions that read everything and are one more than the number of items. Numbers that the code narrows to 32 bits are taken modulo
  \<open>2 ^ 32\<close>; the theorems that need it assume that a block has fewer bytes than that.

  \<^bold>\<open>Not modelled.\<close> Allocation failures and the contents of log messages; the table builder and reader,
  the caches, the merging and the database iterator, versions and the database itself; the C interface, the tools, the POSIX environment, the
  histogram (floating point), benchmarks and tests. The demonstration programs only call what is modelled.
\<close>

end
